(* ===== verification/Prelude.thy ===== *)
theory Prelude
  imports Main "HOL-Library.Word" "HOL-Library.AList" "HOL-Library.Char_ord"
    "HOL-Library.List_Lexorder" "HOL-Library.Multiset"
begin

text \<open>
  What every component shares: the names of the model's types, the machine integers and
  checked operations of the Rust standard library that the code uses, the result type
  of fallible functions, and the collections of facts the component proofs are carried by.

  \<^item> A byte is a \<open>char\<close> (8 bits), so \<open>bytes\<close> is \<open>string\<close>; \<open>Bytes\<close>, \<open>Vec<u8>\<close>, \<open>&[u8]\<close>,
    \<open>String\<close> and \<open>&str\<close> of the source are all byte strings (a Rust string is its UTF-8 bytes).
  \<^item> \<open>i64\<close> is a 64-bit word read by \<^const>\<open>sint\<close>, \<open>u128\<close> (\<open>ExpireAt\<close>) is a 128-bit word.
  \<^item> \<open>usize\<close> is a natural number; where the source checks an addition or a multiplication,
    the bound \<open>2 ^ 64\<close> is written out.
\<close>

section \<open>Types\<close>

type_synonym byte = char
type_synonym bytes = string
type_synonym i64 = "64 word"
type_synonym u64 = "64 word"
type_synonym u128 = "128 word"

text \<open>
  A command may read the clock more than once. \<open>c i\<close> is what its \<open>i\<close>-th call of \<open>now_millis()\<close>
  returns (in a loop over keys, the call in iteration \<open>i\<close>); nothing is assumed of the readings.
\<close>

type_synonym clock = "nat \<Rightarrow> u128"

text \<open>\<open>Result<T, E>\<close>: \<^const>\<open>Inl\<close> is \<open>Err\<close>, \<^const>\<open>Inr\<close> is \<open>Ok\<close>.\<close>

type_synonym ('e, 'a) result = "'e + 'a"

definition bind_result :: "('e, 'a) result \<Rightarrow> ('a \<Rightarrow> ('e, 'b) result) \<Rightarrow> ('e, 'b) result" where
  "bind_result r f = (case r of Inl e \<Rightarrow> Inl e | Inr a \<Rightarrow> f a)"

definition map_result :: "('a \<Rightarrow> 'b) \<Rightarrow> ('e, 'a) result \<Rightarrow> ('e, 'b) result" where
  "map_result f r = (case r of Inl e \<Rightarrow> Inl e | Inr a \<Rightarrow> Inr (f a))"

lemma bind_result_simps [simp]:
  "bind_result (Inl e) f = Inl e"
  "bind_result (Inr a) f = f a"
  by (simp_all add: bind_result_def)

lemma map_result_simps [simp]:
  "map_result f (Inl e) = Inl e"
  "map_result f (Inr a) = Inr (f a)"
  by (simp_all add: map_result_def)

lemma bind_result_Inr: "bind_result r f = Inr b \<longleftrightarrow> (\<exists>a. r = Inr a \<and> f a = Inr b)"
  by (cases r) auto

lemma bind_result_Inl: "bind_result r f = Inl e \<longleftrightarrow> r = Inl e \<or> (\<exists>a. r = Inr a \<and> f a = Inl e)"
  by (cases r) auto

lemma map_result_Inr: "map_result f r = Inr b \<longleftrightarrow> (\<exists>a. r = Inr a \<and> b = f a)"
  by (cases r) auto

lemma map_result_Inl: "map_result f r = Inl e \<longleftrightarrow> r = Inl e"
  by (cases r) auto

text \<open>Collections of facts: views of a shard, and results of a fallible step.\<close>

named_theorems shard_view \<open>how each primitive changes the entries and the expiry index\<close>
named_theorems result_cases \<open>inversion of fallible functions\<close>

declare bind_result_Inr [result_cases] bind_result_Inl [result_cases]
declare map_result_Inr [result_cases] map_result_Inl [result_cases]

section \<open>Machine integers\<close>

definition i64_min :: int where "i64_min = - (2 ^ 63)"
definition i64_max :: int where "i64_max = 2 ^ 63 - 1"
definition usize_limit :: nat where "usize_limit = 2 ^ 64"

definition in_i64 :: "int \<Rightarrow> bool" where
  "in_i64 n \<longleftrightarrow> i64_min \<le> n \<and> n \<le> i64_max"

lemma sint_i64_range: "in_i64 (sint (a :: i64))"
  using sint_range_size [of a] by (simp add: in_i64_def i64_min_def i64_max_def word_size)

lemma sint_i64_of_int: "in_i64 n \<Longrightarrow> sint (word_of_int n :: i64) = n"
  by (simp add: in_i64_def i64_min_def i64_max_def sint_sbintrunc' signed_take_bit_int_eq_self)

text \<open>\<open>i64::checked_add\<close> and \<open>i64::checked_neg\<close>.\<close>

definition checked_add_i64 :: "i64 \<Rightarrow> i64 \<Rightarrow> i64 option" where
  "checked_add_i64 a b = (if in_i64 (sint a + sint b) then Some (a + b) else None)"

definition checked_neg_i64 :: "i64 \<Rightarrow> i64 option" where
  "checked_neg_i64 a = (if sint a = i64_min then None else Some (- a))"

lemma i64_of_int_sint_add: "(word_of_int (sint a + sint b) :: i64) = a + b"
  by (simp add: of_int_add)

lemma checked_add_i64_Some:
  "checked_add_i64 a b = Some c \<Longrightarrow> sint c = sint a + sint b"
  by (metis checked_add_i64_def i64_of_int_sint_add option.distinct(1) option.inject sint_i64_of_int)

lemma checked_add_i64_None:
  "checked_add_i64 a b = None \<longleftrightarrow> \<not> in_i64 (sint a + sint b)"
  by (simp add: checked_add_i64_def)

lemma checked_neg_i64_Some:
  assumes "checked_neg_i64 a = Some b" shows "sint b = - sint a"
proof -
  have "in_i64 (- sint a)"
    using assms sint_i64_range [of a]
    by (auto simp: checked_neg_i64_def in_i64_def i64_min_def i64_max_def split: if_splits)
  moreover have "b = word_of_int (- sint a)"
    using assms by (auto simp: checked_neg_i64_def split: if_splits)
  ultimately show ?thesis using sint_i64_of_int by blast
qed

lemma checked_neg_i64_None: "checked_neg_i64 a = None \<longleftrightarrow> sint a = i64_min"
  by (simp add: checked_neg_i64_def)

text \<open>\<open>checked_add\<close> and \<open>saturating_sub\<close> on \<open>u128\<close>, \<open>checked_add\<close> and \<open>checked_mul\<close> on \<open>usize\<close>.\<close>

definition checked_add_u128 :: "u128 \<Rightarrow> u128 \<Rightarrow> u128 option" where
  "checked_add_u128 a b = (if unat a + unat b < 2 ^ 128 then Some (a + b) else None)"

definition checked_mul_u128 :: "u128 \<Rightarrow> u128 \<Rightarrow> u128 option" where
  "checked_mul_u128 a b = (if unat a * unat b < 2 ^ 128 then Some (a * b) else None)"

definition saturating_sub_u128 :: "u128 \<Rightarrow> u128 \<Rightarrow> u128" where
  "saturating_sub_u128 a b = (if a < b then 0 else a - b)"

definition checked_add_usize :: "nat \<Rightarrow> nat \<Rightarrow> nat option" where
  "checked_add_usize a b = (if a + b < usize_limit then Some (a + b) else None)"

definition checked_mul_usize :: "nat \<Rightarrow> nat \<Rightarrow> nat option" where
  "checked_mul_usize a b = (if a * b < usize_limit then Some (a * b) else None)"

lemma checked_add_usize_Some [simp]:
  "checked_add_usize a b = Some c \<longleftrightarrow> c = a + b \<and> a + b < usize_limit"
  by (auto simp: checked_add_usize_def)

lemma checked_mul_usize_Some [simp]:
  "checked_mul_usize a b = Some c \<longleftrightarrow> c = a * b \<and> a * b < usize_limit"
  by (auto simp: checked_mul_usize_def)

lemma checked_add_u128_Some:
  "checked_add_u128 a b = Some c \<Longrightarrow> unat c = unat a + unat b"
  by (auto simp: checked_add_u128_def unat_word_ariths split: if_splits)

lemma checked_mul_u128_Some:
  "checked_mul_u128 a b = Some c \<Longrightarrow> unat c = unat a * unat b"
  by (auto simp: checked_mul_u128_def unat_word_ariths split: if_splits)

text \<open>Casts: \<open>as i64\<close> of a length, \<open>as u128\<close> of an \<open>i64\<close> (sign-extending).\<close>

definition i64_of_usize :: "nat \<Rightarrow> i64" where
  "i64_of_usize n = word_of_nat n"

definition u128_of_i64 :: "i64 \<Rightarrow> u128" where
  "u128_of_i64 n = word_of_int (sint n)"

lemma unat_u128_of_i64: "0 \<le> sint n \<Longrightarrow> unat (u128_of_i64 n) = nat (sint n)"
proof -
  assume "0 \<le> sint n"
  moreover have "sint n < 2 ^ 128"
    using sint_i64_range [of n] by (simp add: in_i64_def i64_max_def)
  moreover have "uint (word_of_int (sint n) :: u128) = take_bit LENGTH(128) (sint n)"
    by (simp only: uint_word_of_int_eq)
  ultimately have "uint (u128_of_i64 n) = sint n"
    unfolding u128_of_i64_def by (simp only: take_bit_int_eq_self len_num0 len_bit0 len_num1)
      (simp add: take_bit_int_eq_self)
  then show ?thesis by (simp add: unat_eq_nat_uint)
qed

section \<open>Lists and maps\<close>

lemma take_append_length [simp]: "take (length xs) (xs @ ys) = xs"
  by simp

lemma map_of_eq_None_notin: "map_of xs k = None \<longleftrightarrow> k \<notin> fst ` set xs"
  by (induction xs) auto

lemma map_of_filter_key:
  "map_of (filter (\<lambda>p. P (fst p)) xs) k = (if P k then map_of xs k else None)"
  by (induction xs) auto

lemma distinct_map_filter_fst: "distinct (map fst xs) \<Longrightarrow> distinct (map fst (filter P xs))"
  by (rule distinct_map_filter)

lemma map_of_mset_cong:
  assumes "distinct (map fst xs)" "mset xs = mset ys"
  shows "map_of xs = map_of ys"
  using assms by (metis map_of_eqI map_of_inject_set mset_map mset_eq_imp_distinct_iff set_mset_mset)

lemma map_of_map_pair: "map_of (map (\<lambda>x. (x, f x)) xs) k = (if k \<in> set xs then Some (f k) else None)"
  by (induction xs) auto

text \<open>Lists whose keys say which list they stand in have no key in common.\<close>

lemma distinct_keys_concat:
  "\<forall>x \<in> set xss. distinct (map fst x) \<Longrightarrow>
   (\<And>i p. i < length xss \<Longrightarrow> p \<in> set (xss ! i) \<Longrightarrow> home (fst p) = n + i) \<Longrightarrow>
   distinct (map fst (concat xss))"
proof (induction xss arbitrary: n)
  case (Cons x xss)
  have here: "home k = n" if "k \<in> fst ` set x" for k
    using that Cons.prems(2) [of 0] by auto
  have later: "home (fst p) = Suc n + i" if "i < length xss" "p \<in> set (xss ! i)" for i p
    using Cons.prems(2) [of "Suc i" p] that by simp
  have "home k > n" if "k \<in> fst ` set (concat xss)" for k
    using that later by (fastforce simp: in_set_conv_nth)
  then have "fst ` set x \<inter> fst ` set (concat xss) = {}" using here by fastforce
  moreover have "distinct (map fst (concat xss))"
    using Cons.IH [of "Suc n"] Cons.prems(1) later by simp
  ultimately show ?case using Cons.prems(1) by simp
qed simp

lemma sorted_remdups_adj_distinct: "sorted xs \<Longrightarrow> distinct (remdups_adj xs)"
proof (induction xs rule: remdups_adj.induct)
  case (3 x y xs)
  show ?case
  proof (cases "x = y")
    case False
    with 3 have "x \<notin> set (y # xs)" by auto
    with 3 False show ?thesis by simp
  qed (use 3 in simp)
qed simp_all

lemma sort_key_unique:
  assumes "distinct (map fst xs)" "distinct (map fst ys)" "set xs = set ys"
  shows "sort_key fst xs = sort_key fst ys"
proof (rule map_sorted_distinct_set_unique)
  show "inj_on fst (set (sort_key fst xs) \<union> set (sort_key fst ys))"
    using assms by (simp add: distinct_map)
qed (use assms in \<open>simp_all add: distinct_map\<close>)

end
