(* ===== verification/Text.thy ===== *)
theory Text
  imports Prelude
begin

text \<open>
  The text functions of the Rust standard library that the code calls on protocol bytes:
  \<open>to_string\<close> of an integer (\<open>show_nat\<close>, \<open>show_int\<close>), \<open>str::parse::<i64>\<close>
  (\<open>parse_i64_str\<close>), \<open>str::from_utf8\<close> (\<open>utf8_valid\<close>) and the ASCII case conversions.
  The lemmas are the decimal round trip, and what the printed digits consist of.
\<close>

section \<open>Characters\<close>

definition CR :: char where "CR = CHR 0x0D"
definition LF :: char where "LF = CHR 0x0A"

abbreviation crlf :: bytes where "crlf \<equiv> [CR, LF]"

definition digit_char :: "nat \<Rightarrow> char" where
  "digit_char d = char_of (48 + d)"

definition digit_value :: "char \<Rightarrow> nat option" where
  "digit_value c = (let n = of_char c :: nat in if 48 \<le> n \<and> n \<le> 57 then Some (n - 48) else None)"

definition is_digit :: "char \<Rightarrow> bool" where
  "is_digit c \<longleftrightarrow> digit_value c \<noteq> None"

lemma digit_value_digit_char [simp]: "d < 10 \<Longrightarrow> digit_value (digit_char d) = Some d"
  by (simp add: digit_value_def digit_char_def)

lemma is_digit_digit_char [simp]: "d < 10 \<Longrightarrow> is_digit (digit_char d)"
  by (simp add: is_digit_def)

lemma is_digit_ascii: "is_digit c \<Longrightarrow> 48 \<le> (of_char c :: nat) \<and> (of_char c :: nat) \<le> 57"
  by (auto simp: is_digit_def digit_value_def Let_def split: if_splits)

lemma is_digit_special [simp]:
  "\<not> is_digit CR" "\<not> is_digit LF" "\<not> is_digit CHR ''-''" "\<not> is_digit CHR ''+''"
  by (simp_all add: is_digit_def digit_value_def CR_def LF_def)

section \<open>Printing decimal numbers\<close>

fun show_nat :: "nat \<Rightarrow> bytes" where
  "show_nat n = (if n < 10 then [digit_char n] else show_nat (n div 10) @ [digit_char (n mod 10)])"

declare show_nat.simps [simp del]

definition show_int :: "int \<Rightarrow> bytes" where
  "show_int i = (if i < 0 then CHR ''-'' # show_nat (nat (- i)) else show_nat (nat i))"

definition show_i64 :: "i64 \<Rightarrow> bytes" where
  "show_i64 n = show_int (sint n)"

definition show_u128 :: "u128 \<Rightarrow> bytes" where
  "show_u128 n = show_nat (unat n)"

lemma show_nat_digits: "\<forall>c \<in> set (show_nat n). is_digit c"
proof (induction n rule: show_nat.induct)
  case (1 n)
  then show ?case by (cases "n < 10") (auto simp: show_nat.simps [of n])
qed

lemma show_nat_nonempty [simp]: "show_nat n \<noteq> []"
  by (subst show_nat.simps) simp

lemma show_nat_pow10: "n < 10 ^ k \<Longrightarrow> 0 < k \<Longrightarrow> length (show_nat n) \<le> k"
proof (induction k arbitrary: n)
  case 0
  then show ?case by simp
next
  case (Suc k)
  show ?case
  proof (cases "n < 10")
    case True
    then show ?thesis by (simp add: show_nat.simps [of n])
  next
    case False
    with Suc.prems have "0 < k" by (cases k) auto
    moreover have "n div 10 < 10 ^ k" using Suc.prems by (simp add: less_mult_imp_div_less mult.commute)
    ultimately have "length (show_nat (n div 10)) \<le> k" using Suc.IH by blast
    with False show ?thesis by (simp add: show_nat.simps [of n])
  qed
qed

lemma show_nat_length_mono: "m \<le> n \<Longrightarrow> length (show_nat m) \<le> length (show_nat n)"
proof (induction n arbitrary: m rule: show_nat.induct)
  case (1 n)
  show ?case
  proof (cases "n < 10")
    case True
    then show ?thesis using "1.prems" by (simp add: show_nat.simps [of n] show_nat.simps [of m])
  next
    case False
    show ?thesis
    proof (cases "m < 10")
      case True
      with False show ?thesis by (simp add: show_nat.simps [of n] show_nat.simps [of m])
    next
      case m: False
      have "m div 10 \<le> n div 10" using "1.prems" by (rule div_le_mono)
      then have "length (show_nat (m div 10)) \<le> length (show_nat (n div 10))"
        using "1.IH" False by blast
      with False m show ?thesis by (simp add: show_nat.simps [of n] show_nat.simps [of m])
    qed
  qed
qed

section \<open>Parsing decimal numbers\<close>

text \<open>
  \<open>i64::from_str\<close>: an optional sign, then at least one digit; a bare sign, another character
  or a value outside the type is an error.
\<close>

fun parse_digits :: "nat \<Rightarrow> bytes \<Rightarrow> nat option" where
  "parse_digits acc [] = Some acc"
| "parse_digits acc (c # cs) =
     (case digit_value c of None \<Rightarrow> None | Some d \<Rightarrow> parse_digits (10 * acc + d) cs)"

definition parse_magnitude :: "bytes \<Rightarrow> nat option" where
  "parse_magnitude s = (if s = [] then None else parse_digits 0 s)"

definition parse_int_str :: "bytes \<Rightarrow> int option" where
  "parse_int_str s = (case s of
      [] \<Rightarrow> None
    | c # cs \<Rightarrow>
        if c = CHR ''-'' then map_option (\<lambda>n. - int n) (parse_magnitude cs)
        else if c = CHR ''+'' then map_option int (parse_magnitude cs)
        else map_option int (parse_magnitude s))"

definition parse_i64_str :: "bytes \<Rightarrow> i64 option" where
  "parse_i64_str s = (case parse_int_str s of
      None \<Rightarrow> None
    | Some i \<Rightarrow> if in_i64 i then Some (word_of_int i) else None)"

lemma parse_digits_append:
  "parse_digits acc (xs @ ys) =
     (case parse_digits acc xs of None \<Rightarrow> None | Some a \<Rightarrow> parse_digits a ys)"
  by (induction xs arbitrary: acc) (auto split: option.splits)

lemma parse_digits_show_nat: "parse_digits 0 (show_nat n) = Some n"
proof (induction n rule: show_nat.induct)
  case (1 n)
  then show ?case by (cases "n < 10") (auto simp: show_nat.simps [of n] parse_digits_append)
qed

lemma parse_magnitude_show_nat [simp]: "parse_magnitude (show_nat n) = Some n"
  by (simp add: parse_magnitude_def parse_digits_show_nat)

lemma show_nat_hd:
  assumes "show_nat n = c # cs" shows "c \<noteq> CHR ''-''" "c \<noteq> CHR ''+''"
proof -
  have "is_digit c" using show_nat_digits [of n] assms by simp
  then show "c \<noteq> CHR ''-''" "c \<noteq> CHR ''+''" by auto
qed

lemma parse_int_str_show_nat: "parse_int_str (show_nat n) = Some (int n)"
proof -
  obtain c cs where s: "show_nat n = c # cs" by (cases "show_nat n") auto
  with show_nat_hd [OF s] show ?thesis
    using parse_magnitude_show_nat [of n] by (simp add: parse_int_str_def)
qed

lemma parse_int_str_show_int [simp]: "parse_int_str (show_int i) = Some i"
  by (simp add: show_int_def parse_int_str_show_nat) (simp add: parse_int_str_def)

lemma parse_i64_str_show_i64 [simp]: "parse_i64_str (show_i64 n) = Some n"
  by (simp add: parse_i64_str_def show_i64_def sint_i64_range)

lemma parse_i64_str_show_nat:
  "n < 2 ^ 63 \<Longrightarrow> parse_i64_str (show_nat n) = Some (word_of_nat n)"
  by (simp add: parse_i64_str_def parse_int_str_show_nat in_i64_def i64_min_def i64_max_def)

lemma parse_i64_str_show_nat_big: "2 ^ 63 \<le> n \<Longrightarrow> parse_i64_str (show_nat n) = None"
  by (simp add: parse_i64_str_def parse_int_str_show_nat in_i64_def i64_min_def i64_max_def)

section \<open>UTF-8 validity\<close>

text \<open>\<open>std::str::from_utf8\<close> accepts exactly the well-formed byte sequences of the Unicode table.\<close>

definition byte_in :: "nat \<Rightarrow> nat \<Rightarrow> char \<Rightarrow> bool" where
  "byte_in lo hi c = (lo \<le> (of_char c :: nat) \<and> (of_char c :: nat) \<le> hi)"

fun utf8_valid :: "bytes \<Rightarrow> bool" where
  "utf8_valid [] = True"
| "utf8_valid (a # s) =
     (if byte_in 0 0x7F a then utf8_valid s
      else if byte_in 0xC2 0xDF a then
        (case s of b # s' \<Rightarrow> byte_in 0x80 0xBF b \<and> utf8_valid s' | _ \<Rightarrow> False)
      else if byte_in 0xE0 0xEF a then
        (case s of
          b # c # s' \<Rightarrow>
            byte_in (if byte_in 0xE0 0xE0 a then 0xA0 else 0x80) (if byte_in 0xED 0xED a then 0x9F else 0xBF) b
            \<and> byte_in 0x80 0xBF c \<and> utf8_valid s'
        | _ \<Rightarrow> False)
      else if byte_in 0xF0 0xF4 a then
        (case s of
          b # c # d # s' \<Rightarrow>
            byte_in (if byte_in 0xF0 0xF0 a then 0x90 else 0x80) (if byte_in 0xF4 0xF4 a then 0x8F else 0xBF) b
            \<and> byte_in 0x80 0xBF c \<and> byte_in 0x80 0xBF d \<and> utf8_valid s'
        | _ \<Rightarrow> False)
      else False)"

lemma utf8_valid_ascii: "\<forall>c \<in> set s. byte_in 0 0x7F c \<Longrightarrow> utf8_valid s"
  by (induction s) auto

lemma is_digit_byte_in: "is_digit c \<Longrightarrow> byte_in 0 0x7F c"
  using is_digit_ascii [of c] by (simp add: byte_in_def)

lemma utf8_valid_show_nat [simp]: "utf8_valid (show_nat n)"
  using show_nat_digits is_digit_byte_in by (blast intro: utf8_valid_ascii)

lemma utf8_valid_show_int [simp]: "utf8_valid (show_int i)"
  by (simp add: show_int_def byte_in_def)

lemma utf8_valid_show_i64 [simp]: "utf8_valid (show_i64 n)"
  by (simp add: show_i64_def)

text \<open>What \<open>from_utf8(b).ok().and_then(|s| s.parse().ok())\<close> computes.\<close>

definition parse_i64_bytes :: "bytes \<Rightarrow> i64 option" where
  "parse_i64_bytes b = (if utf8_valid b then parse_i64_str b else None)"

lemma parse_i64_bytes_show_i64 [simp]: "parse_i64_bytes (show_i64 n) = Some n"
  by (simp add: parse_i64_bytes_def)

lemma parse_i64_bytes_show_nat: "n < 2 ^ 63 \<Longrightarrow> parse_i64_bytes (show_nat n) = Some (word_of_nat n)"
  by (simp add: parse_i64_bytes_def parse_i64_str_show_nat)

section \<open>ASCII case\<close>

definition to_upper :: "char \<Rightarrow> char" where
  "to_upper c = (let n = of_char c :: nat in if 97 \<le> n \<and> n \<le> 122 then char_of (n - 32) else c)"

definition to_lower :: "char \<Rightarrow> char" where
  "to_lower c = (let n = of_char c :: nat in if 65 \<le> n \<and> n \<le> 90 then char_of (n + 32) else c)"

definition to_ascii_uppercase :: "bytes \<Rightarrow> bytes" where
  "to_ascii_uppercase s = map to_upper s"

definition to_ascii_lowercase :: "bytes \<Rightarrow> bytes" where
  "to_ascii_lowercase s = map to_lower s"

section \<open>No line break inside a printed number\<close>

lemma show_nat_no_crlf [simp]: "CR \<notin> set (show_nat n)" "LF \<notin> set (show_nat n)"
  using show_nat_digits [of n] by auto

lemma show_int_no_crlf [simp]: "CR \<notin> set (show_int n)" "LF \<notin> set (show_int n)"
  by (auto simp: show_int_def CR_def LF_def) (use show_nat_no_crlf in \<open>auto simp: CR_def LF_def\<close>)

lemma show_i64_no_crlf [simp]: "CR \<notin> set (show_i64 n)" "LF \<notin> set (show_i64 n)"
  by (simp_all add: show_i64_def)

lemma length_show_int: "in_i64 i \<Longrightarrow> length (show_int i) \<le> 20"
proof -
  assume "in_i64 i"
  then have "nat (- i) < 10 ^ 19" "nat i < 10 ^ 19"
    by (auto simp: in_i64_def i64_min_def i64_max_def nat_less_iff)
  then have "length (show_nat (nat (- i))) \<le> 19" "length (show_nat (nat i)) \<le> 19"
    by (auto intro: show_nat_pow10)
  then show ?thesis by (simp add: show_int_def)
qed

lemma length_show_i64: "length (show_i64 n) \<le> 20"
  by (simp add: show_i64_def length_show_int sint_i64_range)

lemma show_int_nonempty [simp]: "show_int i \<noteq> []"
  by (simp add: show_int_def)

end
