(* ===== verification/Limits.thy ===== *)
theory Limits
  imports Text
begin

text \<open>
  The size limits of \<^verbatim>\<open>src/src/limits.rs\<close>: the encoded length of a bulk string and of an
  array header, and the running total of a response. A \<^typ>\<open>nat option\<close> is the
  \<open>Option<usize>\<close> of the checked additions.
\<close>

definition MAX_BUFFERED_FRAME_BYTES :: nat where
  "MAX_BUFFERED_FRAME_BYTES = 64 * 1024 * 1024"

definition MAX_RESPONSE_FRAME_BYTES :: nat where
  "MAX_RESPONSE_FRAME_BYTES = 64 * 1024 * 1024"

definition MAX_BULK_LEN :: nat where
  "MAX_BULK_LEN = MAX_BUFFERED_FRAME_BYTES"

definition decimal_len_usize :: "nat \<Rightarrow> nat" where
  "decimal_len_usize n = length (show_nat n)"

definition decimal_len_i64 :: "i64 \<Rightarrow> nat" where
  "decimal_len_i64 n = length (show_i64 n)"

definition resp_bulk_len :: "nat \<Rightarrow> nat option" where
  "resp_bulk_len len =
     Option.bind (checked_add_usize 1 (decimal_len_usize len)) (\<lambda>a.
     Option.bind (checked_add_usize a 2) (\<lambda>b.
     Option.bind (checked_add_usize b len) (\<lambda>c.
     checked_add_usize c 2)))"

definition resp_array_header_len :: "nat \<Rightarrow> nat option" where
  "resp_array_header_len items =
     Option.bind (checked_add_usize 1 (decimal_len_usize items)) (\<lambda>a.
     checked_add_usize a 2)"

text \<open>
  \<open>checked_add_response_len(total: &mut usize, add) -> bool\<close>: \<^const>\<open>Some\<close> of the new total
  where the source returns true and updates \<open>total\<close>, \<^const>\<open>None\<close> where it returns false.
\<close>

definition checked_add_response_len :: "nat \<Rightarrow> nat \<Rightarrow> nat option" where
  "checked_add_response_len tot add =
     (case checked_add_usize tot add of
        Some new_total \<Rightarrow> if new_total \<le> MAX_RESPONSE_FRAME_BYTES then Some new_total else None
      | None \<Rightarrow> None)"

definition bulk_response_fits :: "nat \<Rightarrow> bool" where
  "bulk_response_fits len =
     (case resp_bulk_len len of
        Some bulk_len \<Rightarrow> bulk_len \<le> MAX_RESPONSE_FRAME_BYTES
      | None \<Rightarrow> False)"

section \<open>Closed forms\<close>

lemma limits_values:
  "MAX_BUFFERED_FRAME_BYTES = 67108864" "MAX_RESPONSE_FRAME_BYTES = 67108864"
  "MAX_BULK_LEN = 67108864" "usize_limit = 18446744073709551616"
  by (simp_all add: MAX_BUFFERED_FRAME_BYTES_def MAX_RESPONSE_FRAME_BYTES_def MAX_BULK_LEN_def
      usize_limit_def)

lemma resp_bulk_len_Some:
  "resp_bulk_len len = Some n \<longleftrightarrow> n = length (show_nat len) + len + 5 \<and> n < usize_limit"
  by (auto simp: resp_bulk_len_def decimal_len_usize_def bind_eq_Some_conv)

lemma resp_array_header_len_Some:
  "resp_array_header_len k = Some n \<longleftrightarrow> n = length (show_nat k) + 3 \<and> n < usize_limit"
  by (auto simp: resp_array_header_len_def decimal_len_usize_def bind_eq_Some_conv)

lemma checked_add_response_len_Some:
  "checked_add_response_len t a = Some n \<longleftrightarrow> n = t + a \<and> n \<le> MAX_RESPONSE_FRAME_BYTES"
  by (auto simp: checked_add_response_len_def limits_values split: option.splits if_splits)
     (auto simp: checked_add_usize_def limits_values split: if_splits)

lemma checked_add_response_len_None:
  "checked_add_response_len t a = None \<longleftrightarrow> MAX_RESPONSE_FRAME_BYTES < t + a"
  by (cases "checked_add_response_len t a")
     (auto simp: checked_add_response_len_Some checked_add_response_len_def checked_add_usize_def
       limits_values split: if_splits)

lemma resp_bulk_len_small: "len \<le> 2 ^ 62 \<Longrightarrow> resp_bulk_len len = Some (length (show_nat len) + len + 5)"
  using show_nat_pow10 [of len 20] by (simp add: resp_bulk_len_Some limits_values)

lemma resp_array_header_len_small:
  "k < 2 ^ 64 \<Longrightarrow> resp_array_header_len k = Some (length (show_nat k) + 3)"
  using show_nat_pow10 [of k 20] by (simp add: resp_array_header_len_Some limits_values)

lemma bulk_response_fits_iff:
  "bulk_response_fits len \<longleftrightarrow> length (show_nat len) + len + 5 \<le> MAX_RESPONSE_FRAME_BYTES"
proof (cases "len \<le> 2 ^ 62")
  case True
  then show ?thesis by (simp add: bulk_response_fits_def resp_bulk_len_small)
next
  case False
  have "\<not> bulk_response_fits len"
    using False by (auto simp: bulk_response_fits_def resp_bulk_len_Some limits_values split: option.splits)
  with False show ?thesis by (simp add: limits_values)
qed

lemma bulk_response_fits_mono: "m \<le> n \<Longrightarrow> bulk_response_fits n \<Longrightarrow> bulk_response_fits m"
  using show_nat_length_mono [of m n] by (simp add: bulk_response_fits_iff)

end
