(* ===== verification/Resp.thy ===== *)
theory Resp
  imports Limits
begin

text \<open>
  The RESP2 data model of \<^verbatim>\<open>src/src/resp/mod.rs\<close> and the encoder of
  \<^verbatim>\<open>src/src/resp/encoder.rs\<close>. \<open>encode\<close> is the byte string the source appends to its
  output buffer; \<open>encoded_len\<close> is the source's checked computation of its length, and the
  lemma \<open>encoded_len_eq\<close> says that it is exact.
\<close>

datatype frame =
    Simple bytes
  | Error bytes
  | Integer i64
  | Bulk bytes
  | Null
  | NullArray
  | Array "frame list"

datatype resp_error =
    Incomplete
  | Protocol bytes

definition response_too_large :: frame where
  "response_too_large =
     Error (''ERR response exceeds output limit of '' @ show_nat MAX_RESPONSE_FRAME_BYTES @ '' bytes'')"

fun encoded_len :: "frame \<Rightarrow> nat option"
  and encoded_len_items :: "nat \<Rightarrow> frame list \<Rightarrow> nat option" where
  "encoded_len (Simple s) = Option.bind (checked_add_usize 1 (length s)) (\<lambda>a. checked_add_usize a 2)"
| "encoded_len (Error s) = Option.bind (checked_add_usize 1 (length s)) (\<lambda>a. checked_add_usize a 2)"
| "encoded_len (Integer n) =
     Option.bind (checked_add_usize 1 (decimal_len_i64 n)) (\<lambda>a. checked_add_usize a 2)"
| "encoded_len (Bulk b) = resp_bulk_len (length b)"
| "encoded_len Null = Some 5"
| "encoded_len NullArray = Some 5"
| "encoded_len (Array items) =
     Option.bind (resp_array_header_len (length items)) (\<lambda>len. encoded_len_items len items)"
| "encoded_len_items len [] = Some len"
| "encoded_len_items len (item # items) =
     Option.bind (encoded_len item) (\<lambda>n.
     Option.bind (checked_add_usize len n) (\<lambda>len'. encoded_len_items len' items))"

fun encode :: "frame \<Rightarrow> bytes" where
  "encode (Simple s) = ''+'' @ s @ crlf"
| "encode (Error s) = ''-'' @ s @ crlf"
| "encode (Integer n) = '':'' @ show_i64 n @ crlf"
| "encode (Bulk b) = ''$'' @ show_nat (length b) @ crlf @ b @ crlf"
| "encode Null = ''$-1'' @ crlf"
| "encode NullArray = ''*-1'' @ crlf"
| "encode (Array items) = ''*'' @ show_nat (length items) @ crlf @ concat (map encode items)"

section \<open>The computed length is the encoded length\<close>

definition usize_checked :: "nat \<Rightarrow> nat option" where
  "usize_checked n = (if n < usize_limit then Some n else None)"

lemma usize_checked_Some [simp]: "usize_checked n = Some m \<longleftrightarrow> m = n \<and> n < usize_limit"
  by (auto simp: usize_checked_def)

lemma checked_add_bind:
  "Option.bind (usize_checked n) (\<lambda>a. checked_add_usize m a) = usize_checked (m + n)"
  by (simp add: usize_checked_def checked_add_usize_def)

lemma encoded_len_eq_aux:
  "encoded_len f = usize_checked (length (encode f))"
  "encoded_len_items len fs =
     (if fs = [] then Some len else usize_checked (len + length (concat (map encode fs))))"
proof (induction f and len fs rule: encoded_len_encoded_len_items.induct)
  case (4 b)
  show ?case
    by (auto simp: usize_checked_def resp_bulk_len_def checked_add_usize_def decimal_len_usize_def)
next
  case (7 items)
  show ?case
  proof (cases "items = []")
    case True
    then show ?thesis
      by (auto simp: resp_array_header_len_def checked_add_usize_def decimal_len_usize_def usize_checked_def)
  next
    case False
    then show ?thesis using 7
      by (auto simp: resp_array_header_len_def checked_add_usize_def decimal_len_usize_def usize_checked_def)
  qed
next
  case (9 len item items)
  then show ?case
    by (auto simp: usize_checked_def checked_add_usize_def)
qed (auto simp: usize_checked_def checked_add_usize_def decimal_len_i64_def limits_values)

lemma encoded_len_eq: "encoded_len f = usize_checked (length (encode f))"
  by (rule encoded_len_eq_aux)

lemma encode_nonempty [simp]: "encode f \<noteq> []"
  by (cases f) auto

section \<open>Responses within the output limit\<close>

text \<open>
  The loop by which \<open>LRANGE\<close>, \<open>HKEYS\<close> and \<open>HVALS\<close> build an array of bulk strings and give up
  when the response would exceed the limit; \<open>response_len\<close> starts at the length of the header.
\<close>

fun collect_bulks :: "nat \<Rightarrow> bytes list \<Rightarrow> frame list option" where
  "collect_bulks response_len [] = Some []"
| "collect_bulks response_len (b # bs) =
     Option.bind (resp_bulk_len (length b)) (\<lambda>bulk_len.
     Option.bind (checked_add_response_len response_len bulk_len) (\<lambda>response_len'.
     map_option (\<lambda>frames. Bulk b # frames) (collect_bulks response_len' bs)))"

text \<open>A response the connection can write, and the answer that replaces one that is too large.\<close>

definition fits_response :: "frame \<Rightarrow> bool" where
  "fits_response f \<longleftrightarrow> length (encode f) \<le> MAX_RESPONSE_FRAME_BYTES"

definition or_too_large :: "frame \<Rightarrow> frame" where
  "or_too_large f = (if fits_response f then f else response_too_large)"

definition bulk_array :: "nat \<Rightarrow> bytes list \<Rightarrow> frame" where
  "bulk_array n bs = (case resp_array_header_len n of
      None \<Rightarrow> response_too_large
    | Some response_len \<Rightarrow> (case collect_bulks response_len bs of
          None \<Rightarrow> response_too_large
        | Some frames \<Rightarrow> Array frames))"

lemma length_encode_Bulk: "length (encode (Bulk b)) = length (show_nat (length b)) + length b + 5"
  by simp

lemma fits_Bulk: "fits_response (Bulk b) \<longleftrightarrow> bulk_response_fits (length b)"
  unfolding fits_response_def bulk_response_fits_iff length_encode_Bulk ..

lemma collect_step:
  "len \<le> MAX_RESPONSE_FRAME_BYTES \<Longrightarrow>
   Option.bind (resp_bulk_len n) (checked_add_response_len len) =
     (if len + (length (show_nat n) + n + 5) \<le> MAX_RESPONSE_FRAME_BYTES
      then Some (len + (length (show_nat n) + n + 5)) else None)"
  using checked_add_response_len_Some [of len] checked_add_response_len_None [of len]
  by (cases "resp_bulk_len n")
     (auto simp: resp_bulk_len_Some limits_values resp_bulk_len_def checked_add_usize_def
       decimal_len_usize_def split: if_splits)

lemma collect_bulks_eq:
  "len \<le> MAX_RESPONSE_FRAME_BYTES \<Longrightarrow> collect_bulks len bs =
     (if len + length (concat (map (\<lambda>b. encode (Bulk b)) bs)) \<le> MAX_RESPONSE_FRAME_BYTES
      then Some (map Bulk bs) else None)"
proof (induction bs arbitrary: len)
  case (Cons b bs)
  let ?n = "length (show_nat (length b)) + length b + 5"
  have "collect_bulks len (b # bs) =
      Option.bind (Option.bind (resp_bulk_len (length b)) (checked_add_response_len len))
        (\<lambda>l. map_option ((#) (Bulk b)) (collect_bulks l bs))"
    by simp
  also have "\<dots> = (if len + ?n \<le> MAX_RESPONSE_FRAME_BYTES
      then map_option ((#) (Bulk b)) (collect_bulks (len + ?n) bs) else None)"
    by (simp only: collect_step [OF Cons.prems] if_distrib [of "\<lambda>x. Option.bind x _"] bind.bind_lunit
        bind.bind_lzero)
  finally show ?case using Cons.IH [of "len + ?n"] by (simp add: add.assoc)
qed simp

lemma collect_none_iff:
  "(case resp_array_header_len (length bs) of None \<Rightarrow> True | Some n \<Rightarrow> collect_bulks n bs = None)
   \<longleftrightarrow> \<not> fits_response (Array (map Bulk bs))"
proof -
  let ?h = "length (show_nat (length bs)) + 3"
  let ?p = "length (concat (map (\<lambda>b. encode (Bulk b)) bs))"
  have fits: "fits_response (Array (map Bulk bs)) \<longleftrightarrow> ?h + ?p \<le> MAX_RESPONSE_FRAME_BYTES"
    unfolding fits_response_def by (simp add: comp_def) arith
  show ?thesis
  proof (cases "?h \<le> MAX_RESPONSE_FRAME_BYTES")
    case True
    then have "resp_array_header_len (length bs) = Some ?h"
      by (simp add: resp_array_header_len_Some limits_values)
    with True fits show ?thesis by (simp only: option.case collect_bulks_eq) (simp only: split: if_splits, simp)
  next
    case False
    then obtain b bs' where bs: "bs = b # bs'" by (cases bs) (auto simp: show_nat.simps limits_values)
    have "collect_bulks ?h bs = None"
      using False by (auto simp: bs checked_add_response_len_None bind_eq_None_conv
          simp del: length_Cons)
    with False fits show ?thesis by (auto simp: resp_array_header_len_Some split: option.splits)
  qed
qed

lemma collect_bulks_Some: "collect_bulks n bs = Some fs \<Longrightarrow> fs = map Bulk bs"
  by (induction bs arbitrary: n fs) (auto simp: bind_eq_Some_conv)

lemma bulk_array_eq: "bulk_array (length bs) bs = or_too_large (Array (map Bulk bs))"
  using collect_none_iff [of bs]
  by (auto simp: bulk_array_def or_too_large_def simp del: encode.simps
      split: option.splits dest: collect_bulks_Some)

section \<open>Well-formed frames\<close>

text \<open>
  The frames that survive the wire: a simple string or an error is valid UTF-8 of one line
  within the line limit, a bulk string and an array are within the parser's limits, and the
  nesting depth is bounded. \<open>d\<close> is the depth at which the frame stands.
\<close>

definition MAX_ARRAY_LEN :: nat where "MAX_ARRAY_LEN = 1024 * 1024"
definition MAX_NESTING_DEPTH :: nat where "MAX_NESTING_DEPTH = 128"
definition MAX_LINE_LEN :: nat where "MAX_LINE_LEN = 1024 * 1024"

lemma parser_limits:
  "MAX_ARRAY_LEN = 1048576" "MAX_NESTING_DEPTH = 128" "MAX_LINE_LEN = 1048576"
  by (simp_all add: MAX_ARRAY_LEN_def MAX_NESTING_DEPTH_def MAX_LINE_LEN_def)

fun has_crlf :: "bytes \<Rightarrow> bool" where
  "has_crlf (a # b # s) \<longleftrightarrow> (a = CR \<and> b = LF) \<or> has_crlf (b # s)"
| "has_crlf [] \<longleftrightarrow> False"
| "has_crlf [a] \<longleftrightarrow> False"

definition line_ok :: "bytes \<Rightarrow> bool" where
  "line_ok s \<longleftrightarrow> utf8_valid s \<and> \<not> has_crlf s \<and> length s < MAX_LINE_LEN"

fun frame_wf :: "nat \<Rightarrow> frame \<Rightarrow> bool" where
  "frame_wf d (Simple s) \<longleftrightarrow> d \<le> MAX_NESTING_DEPTH \<and> line_ok s"
| "frame_wf d (Error s) \<longleftrightarrow> d \<le> MAX_NESTING_DEPTH \<and> line_ok s"
| "frame_wf d (Bulk b) \<longleftrightarrow> d \<le> MAX_NESTING_DEPTH \<and> bulk_response_fits (length b)"
| "frame_wf d (Array items) \<longleftrightarrow>
     d \<le> MAX_NESTING_DEPTH \<and> length items \<le> MAX_ARRAY_LEN \<and> (\<forall>f \<in> set items. frame_wf (Suc d) f)"
| "frame_wf d (Integer n) \<longleftrightarrow> d \<le> MAX_NESTING_DEPTH"
| "frame_wf d Null \<longleftrightarrow> d \<le> MAX_NESTING_DEPTH"
| "frame_wf d NullArray \<longleftrightarrow> d \<le> MAX_NESTING_DEPTH"

definition wire_frame :: "frame \<Rightarrow> bool" where
  "wire_frame f \<longleftrightarrow> frame_wf 0 f \<and> length (encode f) \<le> MAX_BUFFERED_FRAME_BYTES"

lemma has_crlf_CR: "CR \<notin> set s \<Longrightarrow> \<not> has_crlf s"
  by (induction s rule: has_crlf.induct) auto

lemma line_ok_show_i64 [simp]: "line_ok (show_i64 n)"
  using length_show_i64 [of n] by (simp add: line_ok_def has_crlf_CR parser_limits)

end
