(* ===== verification/Parser.thy ===== *)
theory Parser
  imports Resp
begin

text \<open>
  The streaming RESP2 parser of \<^verbatim>\<open>src/src/resp/parser.rs\<close>. The source's
  \<open>Cursor<&[u8]>\<close> over the buffer is represented by the bytes after its position, so
  \<open>c.get_ref().len() - c.position()\<close> is the length of that list, and a function that moves the
  cursor returns the remaining bytes. \<open>parse\<close> returns the frame, if one is complete, and the
  buffer that is left. Loops over an index into a line are recursions over the rest of the line.
\<close>

section \<open>Lines\<close>

fun find_crlf :: "bytes \<Rightarrow> nat option" where
  "find_crlf (a # b # s) = (if a = CR \<and> b = LF then Some 0 else map_option Suc (find_crlf (b # s)))"
| "find_crlf _ = None"

fun find_lf :: "bytes \<Rightarrow> nat option" where
  "find_lf [] = None"
| "find_lf (a # s) = (if a = LF then Some 0 else map_option Suc (find_lf s))"

definition line_too_long :: resp_error where
  "line_too_long = Protocol (''line length exceeds limit '' @ show_nat MAX_LINE_LEN)"

definition read_u8 :: "bytes \<Rightarrow> (resp_error, byte \<times> bytes) result" where
  "read_u8 c = (case c of [] \<Rightarrow> Inl Incomplete | b # c' \<Rightarrow> Inr (b, c'))"

definition read_line :: "bytes \<Rightarrow> (resp_error, bytes \<times> bytes) result" where
  "read_line c = (case find_crlf c of
      Some i \<Rightarrow> Inr (take i c, drop (i + 2) c)
    | None \<Rightarrow> if length c > MAX_LINE_LEN then Inl line_too_long else Inl Incomplete)"

definition read_line_string :: "bytes \<Rightarrow> (resp_error, bytes \<times> bytes) result" where
  "read_line_string c = bind_result (read_line c) (\<lambda>(line, c').
     if utf8_valid line then Inr (line, c') else Inl (Protocol ''invalid utf8 in line''))"

definition read_line_int :: "bytes \<Rightarrow> (resp_error, i64 \<times> bytes) result" where
  "read_line_int c = bind_result (read_line c) (\<lambda>(line, c').
     case parse_i64_bytes line of
       Some n \<Rightarrow> Inr (n, c')
     | None \<Rightarrow> Inl (Protocol ''invalid integer''))"

section \<open>Frames\<close>

definition hex_digit :: "nat \<Rightarrow> char" where
  "hex_digit d = (if d < 10 then char_of (48 + d) else char_of (87 + d))"

definition show_hex02 :: "char \<Rightarrow> bytes" where
  "show_hex02 c = [hex_digit (of_char c div 16), hex_digit (of_char c mod 16)]"

definition parse_bulk :: "bytes \<Rightarrow> (resp_error, frame \<times> bytes) result" where
  "parse_bulk c = bind_result (read_line_int c) (\<lambda>(n, c).
     if n = -1 then Inr (Null, c)
     else if sint n < 0 then Inl (Protocol ''negative bulk len'')
     else let len = nat (sint n) in
       if len > MAX_BULK_LEN then
         Inl (Protocol (''bulk length '' @ show_nat len @ '' exceeds limit '' @ show_nat MAX_BULK_LEN))
       else if \<not> (case resp_bulk_len len of Some m \<Rightarrow> m \<le> MAX_BUFFERED_FRAME_BYTES | None \<Rightarrow> False) then
         Inl (Protocol (''bulk frame length exceeds buffered limit '' @ show_nat MAX_BUFFERED_FRAME_BYTES))
       else if length c < len + 2 then Inl Incomplete
       else bind_result (read_u8 (drop len c)) (\<lambda>(x, c1).
         if x \<noteq> CR then Inl (Protocol ''missing CRLF after bulk'')
         else bind_result (read_u8 c1) (\<lambda>(y, c2).
           if y \<noteq> LF then Inl (Protocol ''missing CRLF after bulk'')
           else Inr (Bulk (take len c), c2))))"

text \<open>
  \<open>parse_array\<close> is unfolded into the \<open>*\<close> branch of \<open>parse_frame\<close>; \<open>parse_items\<close> is its
  \<open>for _ in 0..count\<close> loop.
\<close>

function (sequential) parse_frame :: "nat \<Rightarrow> bytes \<Rightarrow> (resp_error, frame \<times> bytes) result"
  and parse_items :: "nat \<Rightarrow> nat \<Rightarrow> bytes \<Rightarrow> (resp_error, frame list \<times> bytes) result" where
  "parse_frame depth c =
     (if depth > MAX_NESTING_DEPTH then
        Inl (Protocol (''array nesting depth exceeds limit '' @ show_nat MAX_NESTING_DEPTH))
      else bind_result (read_u8 c) (\<lambda>(tag, c).
        if tag = CHR ''+'' then map_result (\<lambda>(s, c). (Simple s, c)) (read_line_string c)
        else if tag = CHR ''-'' then map_result (\<lambda>(s, c). (Error s, c)) (read_line_string c)
        else if tag = CHR '':'' then map_result (\<lambda>(n, c). (Integer n, c)) (read_line_int c)
        else if tag = CHR ''$'' then parse_bulk c
        else if tag = CHR ''*'' then
          bind_result (read_line_int c) (\<lambda>(n, c).
            if n = -1 then Inr (NullArray, c)
            else if sint n < 0 then Inl (Protocol ''negative array len'')
            else if nat (sint n) > MAX_ARRAY_LEN then
              Inl (Protocol (''array length '' @ show_nat (nat (sint n)) @ '' exceeds limit ''
                             @ show_nat MAX_ARRAY_LEN))
            else map_result (\<lambda>(items, c). (Array items, c)) (parse_items (nat (sint n)) (Suc depth) c))
        else Inl (Protocol (''invalid type byte: 0x'' @ show_hex02 tag))))"
| "parse_items 0 depth c = Inr ([], c)"
| "parse_items (Suc cnt) depth c =
     bind_result (parse_frame depth c) (\<lambda>(item, c).
       map_result (\<lambda>(items, c). (item # items, c)) (parse_items cnt depth c))"
  by pat_completeness auto
termination
  by (relation "measures
      [case_sum (\<lambda>(depth, c). Suc MAX_NESTING_DEPTH - depth) (\<lambda>(cnt, depth, c). Suc MAX_NESTING_DEPTH - depth),
       case_sum (\<lambda>(depth, c). 0) (\<lambda>(cnt, depth, c). Suc cnt)]") auto

declare parse_frame.simps [simp del]

section \<open>Inline commands\<close>

definition SQUOTE :: char where "SQUOTE = CHR 0x27"
definition DQUOTE :: char where "DQUOTE = CHR 0x22"
definition BACKSLASH :: char where "BACKSLASH = CHR 0x5C"

definition is_inline_space :: "char \<Rightarrow> bool" where
  "is_inline_space c \<longleftrightarrow> c = CHR 0x20 \<or> c = CHR 0x09"

definition hex_value :: "char \<Rightarrow> nat option" where
  "hex_value c = (let n = of_char c :: nat in
     if 48 \<le> n \<and> n \<le> 57 then Some (n - 48)
     else if 97 \<le> n \<and> n \<le> 102 then Some (n - 97 + 10)
     else if 65 \<le> n \<and> n \<le> 70 then Some (n - 65 + 10)
     else None)"

definition unterminated_escape :: resp_error where
  "unterminated_escape = Protocol ''unterminated escape sequence in inline request''"

text \<open>The byte \<open>(high << 4) | low\<close>, for \<open>high\<close> and \<open>low\<close> below 16.\<close>

definition hex_byte :: "nat \<Rightarrow> nat \<Rightarrow> char" where
  "hex_byte high low = char_of (16 * high + low)"

text \<open>
  The \<open>match escaped\<close> of \<open>read_inline_quoted\<close>: the byte that is pushed, and the rest of the
  line after the two hexadecimal digits of a \<open>\x\<close> escape have been skipped.
\<close>

definition inline_escape :: "char \<Rightarrow> char \<Rightarrow> bytes \<Rightarrow> byte \<times> bytes" where
  "inline_escape quote escaped s =
     (if escaped = CHR ''n'' \<and> quote = DQUOTE then (LF, s)
      else if escaped = CHR ''r'' \<and> quote = DQUOTE then (CR, s)
      else if escaped = CHR ''t'' \<and> quote = DQUOTE then (CHR 0x09, s)
      else if escaped = CHR ''b'' \<and> quote = DQUOTE then (CHR 0x08, s)
      else if escaped = CHR ''a'' \<and> quote = DQUOTE then (CHR 0x07, s)
      else if escaped = CHR ''x'' \<and> quote = DQUOTE then
        (case s of
          h # l # s' \<Rightarrow>
            (case (hex_value h, hex_value l) of
               (Some high, Some low) \<Rightarrow> (hex_byte high low, s')
             | _ \<Rightarrow> (escaped, s))
        | _ \<Rightarrow> (escaped, s))
      else (escaped, s))"

lemma inline_escape_length: "inline_escape quote escaped s = (b, s') \<Longrightarrow> length s' \<le> length s"
  by (auto simp: inline_escape_def split: if_splits list.splits option.splits)

function (sequential) read_inline_quoted :: "char \<Rightarrow> bytes \<Rightarrow> bytes \<Rightarrow> (resp_error, bytes \<times> bytes) result" where
  "read_inline_quoted quote out [] = Inl (Protocol ''unbalanced quotes in inline request'')"
| "read_inline_quoted quote out (byte # s) =
     (if byte = quote then Inr (out, s)
      else if byte \<noteq> BACKSLASH then read_inline_quoted quote (out @ [byte]) s
      else (case s of
        [] \<Rightarrow> Inl unterminated_escape
      | escaped # s' \<Rightarrow>
          (case inline_escape quote escaped s' of
             (b, s'') \<Rightarrow> read_inline_quoted quote (out @ [b]) s'')))"
  by pat_completeness auto
termination
  by (relation "measure (\<lambda>(quote, out, s). length s)")
     (auto dest!: sym [THEN inline_escape_length] inline_escape_length)

lemma read_inline_quoted_length:
  "read_inline_quoted quote out s = Inr (out', s') \<Longrightarrow> length s' < length s"
  by (induction quote out s rule: read_inline_quoted.induct)
     (fastforce split: if_splits list.splits prod.splits dest: inline_escape_length)+

function (sequential) read_inline_arg :: "bytes \<Rightarrow> bytes \<Rightarrow> (resp_error, bytes \<times> bytes) result" where
  "read_inline_arg arg [] = Inr (arg, [])"
| "read_inline_arg arg (byte # s) =
     (if is_inline_space byte then Inr (arg, byte # s)
      else if byte = SQUOTE then
        (case read_inline_quoted SQUOTE arg s of
           Inl e \<Rightarrow> Inl e | Inr (arg', s') \<Rightarrow> read_inline_arg arg' s')
      else if byte = DQUOTE then
        (case read_inline_quoted DQUOTE arg s of
           Inl e \<Rightarrow> Inl e | Inr (arg', s') \<Rightarrow> read_inline_arg arg' s')
      else if byte = BACKSLASH then
        (case s of [] \<Rightarrow> Inl unterminated_escape | c # s' \<Rightarrow> read_inline_arg (arg @ [c]) s')
      else read_inline_arg (arg @ [byte]) s)"
  by pat_completeness auto
termination
  by (relation "measure (\<lambda>(arg, s). length s)")
     (auto dest!: read_inline_quoted_length)

lemma read_inline_arg_length: "read_inline_arg arg s = Inr (arg', s') \<Longrightarrow> length s' \<le> length s"
  by (induction arg s rule: read_inline_arg.induct)
     (fastforce split: if_splits sum.splits list.splits dest: read_inline_quoted_length)+

lemma read_inline_arg_progress:
  "read_inline_arg arg s = Inr (arg', s') \<Longrightarrow> s \<noteq> [] \<Longrightarrow> \<not> is_inline_space (hd s)
   \<Longrightarrow> length s' < length s"
  by (cases s)
     (fastforce split: if_splits sum.splits list.splits
       dest: read_inline_quoted_length read_inline_arg_length)+

function split_inline_args :: "bytes \<Rightarrow> (resp_error, bytes list) result" where
  "split_inline_args line =
     (let s = dropWhile is_inline_space line in
      if s = [] then Inr []
      else (case read_inline_arg [] s of
          Inl e \<Rightarrow> Inl e
        | Inr (arg, s') \<Rightarrow> map_result (\<lambda>args. arg # args) (split_inline_args s')))"
  by pat_completeness auto
termination
proof (relation "measure length")
  fix line s x and y :: "bytes \<times> bytes" and arg s'
  assume "s = dropWhile is_inline_space line" "s \<noteq> []" "read_inline_arg [] s = Inr y" "(arg, s') = y"
  moreover from this have "\<not> is_inline_space (hd s)" using hd_dropWhile by blast
  ultimately have "length s' < length s" by (metis read_inline_arg_progress)
  also have "length s \<le> length line" by (simp add: \<open>s = _\<close> length_dropWhile_le)
  finally show "(s', line) \<in> measure length" by simp
qed simp

declare split_inline_args.simps [simp del]

definition inline_frame :: "bytes \<Rightarrow> (resp_error, frame option) result" where
  "inline_frame line = map_result
     (\<lambda>args. if args = [] then None else Some (Array (map Bulk args))) (split_inline_args line)"

definition strip_cr :: "bytes \<Rightarrow> bytes" where
  "strip_cr line = (if line \<noteq> [] \<and> last line = CR then butlast line else line)"

definition parse_inline :: "bytes \<Rightarrow> (resp_error, frame option \<times> bytes) result" where
  "parse_inline buf = (case find_lf buf of
      None \<Rightarrow> if length buf > MAX_LINE_LEN then Inl line_too_long else Inr (None, buf)
    | Some line_end \<Rightarrow>
        if line_end > MAX_LINE_LEN then Inl line_too_long
        else map_result (\<lambda>frame. (frame, drop (line_end + 1) buf))
               (inline_frame (strip_cr (take line_end buf))))"

section \<open>The parser\<close>

definition is_resp_type :: "char \<Rightarrow> bool" where
  "is_resp_type c \<longleftrightarrow> c = CHR ''+'' \<or> c = CHR ''-'' \<or> c = CHR '':'' \<or> c = CHR ''$'' \<or> c = CHR ''*''"

lemma find_lf_bound: "find_lf s = Some i \<Longrightarrow> i < length s"
  by (induction s arbitrary: i) (auto split: if_splits)

lemma parse_inline_length: "parse_inline buf = Inr (f, buf') \<Longrightarrow> length buf' \<le> length buf"
  by (auto simp: parse_inline_def map_result_Inr split: option.splits if_splits)

function parse :: "bytes \<Rightarrow> (resp_error, frame option \<times> bytes) result" where
  "parse buf =
     (if buf = [] then Inr (None, buf)
      else if \<not> is_resp_type (hd buf) then
        (case parse_inline buf of
           Inl e \<Rightarrow> Inl e
         | Inr (Some frame, buf') \<Rightarrow> Inr (Some frame, buf')
         | Inr (None, buf') \<Rightarrow> if length buf' = length buf then Inr (None, buf') else parse buf')
      else
        (case parse_frame 0 buf of
           Inr (frame, c) \<Rightarrow>
             let n = length buf - length c in
             if n > MAX_BUFFERED_FRAME_BYTES then
               Inl (Protocol (''frame length '' @ show_nat n @ '' exceeds buffered limit ''
                              @ show_nat MAX_BUFFERED_FRAME_BYTES))
             else Inr (Some frame, drop n buf)
         | Inl Incomplete \<Rightarrow> Inr (None, buf)
         | Inl e \<Rightarrow> Inl e))"
  by pat_completeness auto
termination
  by (relation "measure length") (auto dest!: parse_inline_length)

declare parse.simps [simp del]

end
