(* ===== verification/Codec.thy ===== *)
theory Codec
  imports Parser
begin

text \<open>
  The wire format as an interface. The locale \<open>stream_codec\<close> says what a reader of a byte
  stream relies on: an encoded item decodes to itself whatever bytes follow, a proper prefix of
  an encoded item is reported as incomplete and left in the buffer, and no encoding is empty.
  Its lemmas derive what a stream of items decodes to. The interpretation \<open>resp\<close> discharges the
  laws for the source's encoder and parser on the frames \<open>wire_frame\<close>.
\<close>

section \<open>The interface\<close>

inductive decodes ::
  "('b list \<Rightarrow> ('e, 'a option \<times> 'b list) result) \<Rightarrow> 'b list \<Rightarrow> 'a list \<Rightarrow> 'b list \<Rightarrow> bool"
  for dec where
  decodes_stop: "dec bs = Inr (None, rest) \<Longrightarrow> decodes dec bs [] rest"
| decodes_step: "dec bs = Inr (Some a, bs') \<Longrightarrow> decodes dec bs' as rest \<Longrightarrow> decodes dec bs (a # as) rest"

inductive_cases decodes_NilE: "decodes dec bs [] rest"
inductive_cases decodes_ConsE: "decodes dec bs (a # as) rest"

lemma decodes_fun:
  "decodes dec bs as rest \<Longrightarrow> decodes dec bs as' rest' \<Longrightarrow> as' = as \<and> rest' = rest"
proof (induction arbitrary: as' rest' rule: decodes.induct)
  case (decodes_stop bs rest)
  from decodes_stop.prems decodes_stop.hyps show ?case by (cases rule: decodes.cases) auto
next
  case (decodes_step bs a bs' as rest)
  from decodes_step.prems decodes_step.hyps(1) obtain as2 where
    "as' = a # as2" "decodes dec bs' as2 rest'"
    by (cases rule: decodes.cases) auto
  with decodes_step.IH show ?case by blast
qed

locale stream_codec =
  fixes enc :: "'a \<Rightarrow> 'b list"
    and dec :: "'b list \<Rightarrow> ('e, 'a option \<times> 'b list) result"
    and ok :: "'a \<Rightarrow> bool"
  assumes dec_enc: "ok a \<Longrightarrow> dec (enc a @ x) = Inr (Some a, x)"
    and dec_prefix: "ok a \<Longrightarrow> enc a = p @ q \<Longrightarrow> q \<noteq> [] \<Longrightarrow> dec p = Inr (None, p)"
    and dec_Nil: "dec [] = Inr (None, [])"
begin

lemma decodes_stream:
  assumes "\<forall>a \<in> set as. ok a" and "dec p = Inr (None, p)"
  shows "decodes dec (concat (map enc as) @ p) as p"
  using assms(1)
proof (induction as)
  case Nil
  then show ?case using assms(2) by (simp add: decodes_stop)
next
  case (Cons a as)
  then have "dec (concat (map enc (a # as)) @ p) = Inr (Some a, concat (map enc as) @ p)"
    by (simp add: dec_enc)
  with Cons show ?case by (auto intro: decodes_step)
qed

lemma decodes_whole: "\<forall>a \<in> set as. ok a \<Longrightarrow> decodes dec (concat (map enc as)) as []"
  using decodes_stream [OF _ dec_Nil] by simp

lemma decodes_torn:
  "\<forall>a \<in> set as. ok a \<Longrightarrow> ok b \<Longrightarrow> enc b = p @ q \<Longrightarrow> q \<noteq> [] \<Longrightarrow>
   decodes dec (concat (map enc as) @ p) as p"
  by (blast intro: decodes_stream dec_prefix)

lemma enc_stream_inj:
  assumes "\<forall>a \<in> set as. ok a" "\<forall>a \<in> set bs. ok a" "concat (map enc as) = concat (map enc bs)"
  shows "as = bs"
  using decodes_fun [OF decodes_whole [OF assms(1)]] decodes_whole [OF assms(2)] assms(3)
  by simp

lemma enc_inj: "ok a \<Longrightarrow> ok b \<Longrightarrow> enc a = enc b \<Longrightarrow> a = b"
  using enc_stream_inj [of "[a]" "[b]"] by simp

end

section \<open>Lines\<close>

lemma has_crlf_find: "has_crlf s \<longleftrightarrow> find_crlf s \<noteq> None"
  by (induction s rule: has_crlf.induct) auto

lemma find_crlf_line: "\<not> has_crlf s \<Longrightarrow> find_crlf (s @ CR # LF # x) = Some (length s)"
proof (induction s rule: has_crlf.induct)
  case (3 v)
  then show ?case by (simp add: CR_def LF_def)
qed auto

lemma has_crlf_prefix: "has_crlf p \<Longrightarrow> has_crlf (p @ q)"
  by (induction p rule: has_crlf.induct) auto

lemma has_crlf_snoc_CR: "\<not> has_crlf s \<Longrightarrow> \<not> has_crlf (s @ [CR])"
proof (induction s rule: has_crlf.induct)
  case (3 v)
  then show ?case by (simp add: CR_def LF_def)
qed auto

lemma strict_prefix_line:
  assumes "s @ crlf = p @ q" "q \<noteq> []" "\<not> has_crlf s"
  shows "\<not> has_crlf p \<and> length p \<le> Suc (length s)"
proof -
  obtain q' where "q = q' @ [LF]"
    using assms(1,2) by (metis append_butlast_last_id append_is_Nil_conv last_ConsL last_ConsR
        last_appendR list.distinct(1))
  with assms(1) have "s @ [CR] = p @ q'" by simp
  with has_crlf_snoc_CR [OF assms(3)] show ?thesis
    by (metis has_crlf_prefix length_append length_append_singleton le_add1)
qed

lemma read_line_line:
  "\<not> has_crlf s \<Longrightarrow> read_line (s @ CR # LF # x) = Inr (s, x)"
  by (simp add: read_line_def find_crlf_line)

lemma read_line_prefix:
  assumes "s @ crlf = p @ q" "q \<noteq> []" "line_ok s"
  shows "read_line p = Inl Incomplete"
  using strict_prefix_line [OF assms(1,2)] assms(3) has_crlf_find [of p]
  by (auto simp: read_line_def line_ok_def)

lemma read_line_string_line [simp]:
  "line_ok s \<Longrightarrow> read_line_string (s @ CR # LF # x) = Inr (s, x)"
  by (simp add: read_line_string_def read_line_line line_ok_def)

lemma read_line_int_i64 [simp]: "read_line_int (show_i64 n @ CR # LF # x) = Inr (n, x)"
  by (simp add: read_line_int_def read_line_line has_crlf_CR)

lemma line_ok_show_nat: "n < 10 ^ 20 \<Longrightarrow> line_ok (show_nat n)"
  using show_nat_pow10 [of n 20] by (simp add: line_ok_def has_crlf_CR parser_limits)

lemma read_line_int_nat:
  "n < 2 ^ 63 \<Longrightarrow> read_line_int (show_nat n @ CR # LF # x) = Inr (word_of_nat n, x)"
  by (simp add: read_line_int_def read_line_line has_crlf_CR parse_i64_bytes_show_nat)

lemma show_i64_minus_one: "show_i64 (-1) = ''-1''"
  by code_simp

lemma read_line_int_minus_one: "read_line_int (CHR ''-'' # CHR ''1'' # CR # LF # x) = Inr (-1, x)"
  using read_line_int_i64 [of "-1" x] by (simp add: show_i64_minus_one)

lemma line_ok_minus_one: "line_ok ''-1''"
  using line_ok_show_i64 [of "-1"] by (simp add: show_i64_minus_one)

lemma sint_word_of_nat: "n < 2 ^ 63 \<Longrightarrow> sint (word_of_nat n :: i64) = int n"
  using sint_i64_of_int [of "int n"] by (simp add: in_i64_def i64_min_def i64_max_def)

lemma word_of_nat_neq_minus_one: "n < 2 ^ 63 \<Longrightarrow> (word_of_nat n :: i64) \<noteq> -1"
  using sint_word_of_nat [of n] by auto

section \<open>More bytes do not change a frame that is complete\<close>

lemma find_crlf_append: "find_crlf s = Some i \<Longrightarrow> find_crlf (s @ x) = Some i \<and> i + 2 \<le> length s"
  by (induction s arbitrary: i rule: find_crlf.induct) (auto split: if_splits)

lemma read_line_Inr:
  "read_line c = Inr (l, r) \<longleftrightarrow> (\<exists>i. find_crlf c = Some i \<and> l = take i c \<and> r = drop (i + 2) c)"
  by (auto simp: read_line_def split: option.splits if_splits)

lemma read_line_append: "read_line c = Inr (l, r) \<Longrightarrow> read_line (c @ x) = Inr (l, r @ x)"
proof -
  assume "read_line c = Inr (l, r)"
  then obtain i where i: "find_crlf c = Some i" "l = take i c" "r = drop (i + 2) c"
    by (auto simp: read_line_Inr)
  with find_crlf_append [OF i(1), of x] show ?thesis
    by (auto simp: read_line_Inr intro!: exI [of _ i])
qed

lemma read_line_string_Inr:
  "read_line_string c = Inr (l, r) \<longleftrightarrow> read_line c = Inr (l, r) \<and> utf8_valid l"
  by (auto simp: read_line_string_def result_cases split: if_splits)

lemma read_line_int_Inr:
  "read_line_int c = Inr (n, r) \<longleftrightarrow> (\<exists>l. read_line c = Inr (l, r) \<and> parse_i64_bytes l = Some n)"
  by (auto simp: read_line_int_def result_cases split: option.splits)

lemma read_line_string_append:
  "read_line_string c = Inr (l, r) \<Longrightarrow> read_line_string (c @ x) = Inr (l, r @ x)"
  by (simp add: read_line_string_Inr read_line_append)

lemma read_line_int_append: "read_line_int c = Inr (n, r) \<Longrightarrow> read_line_int (c @ x) = Inr (n, r @ x)"
  by (auto simp: read_line_int_Inr dest: read_line_append)

lemma read_u8_Inr: "read_u8 c = Inr (b, r) \<longleftrightarrow> c = b # r"
  by (auto simp: read_u8_def split: list.splits)

text \<open>The body of a bulk string, after its header line.\<close>

lemma buffered_fits:
  "(case resp_bulk_len len of Some m \<Rightarrow> m \<le> MAX_BUFFERED_FRAME_BYTES | None \<Rightarrow> False)
   = bulk_response_fits len"
  unfolding bulk_response_fits_def MAX_BUFFERED_FRAME_BYTES_def MAX_RESPONSE_FRAME_BYTES_def ..

lemma bulk_fits_le: "bulk_response_fits len \<Longrightarrow> \<not> MAX_BULK_LEN < len"
  by (simp add: bulk_response_fits_iff limits_values)

lemma parse_bulk_eq:
  assumes "read_line_int c = Inr (n, c')"
  shows "parse_bulk c =
    (if n = -1 then Inr (Null, c')
     else if sint n < 0 then Inl (Protocol ''negative bulk len'')
     else let len = nat (sint n) in
       if MAX_BULK_LEN < len then
         Inl (Protocol (''bulk length '' @ show_nat len @ '' exceeds limit '' @ show_nat MAX_BULK_LEN))
       else if \<not> bulk_response_fits len then
         Inl (Protocol (''bulk frame length exceeds buffered limit '' @ show_nat MAX_BUFFERED_FRAME_BYTES))
       else if length c' < len + 2 then Inl Incomplete
       else bind_result (read_u8 (drop len c')) (\<lambda>(x, c1).
         if x \<noteq> CR then Inl (Protocol ''missing CRLF after bulk'')
         else bind_result (read_u8 c1) (\<lambda>(y, c2).
           if y \<noteq> LF then Inl (Protocol ''missing CRLF after bulk'')
           else Inr (Bulk (take len c'), c2))))"
  unfolding parse_bulk_def assms bind_result_simps prod.case buffered_fits ..

lemma drop_crlf_length: "drop n c = CR # LF # r \<Longrightarrow> n + 2 \<le> length c"
proof -
  assume "drop n c = CR # LF # r"
  then have "length (drop n c) = length r + 2" by (simp del: length_drop)
  then show ?thesis unfolding length_drop by arith
qed

lemma parse_bulk_Inr:
  "parse_bulk c = Inr (f, r) \<longleftrightarrow>
     (\<exists>n c'. read_line_int c = Inr (n, c') \<and>
        ((n = -1 \<and> f = Null \<and> r = c') \<or>
         (0 \<le> sint n \<and> bulk_response_fits (nat (sint n)) \<and>
          drop (nat (sint n)) c' = CR # LF # r \<and> f = Bulk (take (nat (sint n)) c'))))"
proof (cases "read_line_int c")
  case (Inl e)
  then show ?thesis by (simp add: parse_bulk_def)
next
  case (Inr p)
  obtain n c' where p: "p = (n, c')" by (cases p)
  define len where "len = nat (sint n)"
  note bulk = parse_bulk_eq [OF Inr [unfolded p], unfolded Let_def, folded len_def]
  show ?thesis
  proof (cases "n = -1 \<or> sint n < 0 \<or> \<not> bulk_response_fits len \<or> length c' < len + 2")
    case True
    then show ?thesis using bulk_fits_le [of len] drop_crlf_length [of len c' r]
      by (simp add: bulk Inr p len_def [symmetric]) (auto simp: len_def)
  next
    case False
    then have "2 \<le> length (drop len c')" by (simp only: length_drop) arith
    then obtain x y t where "drop len c' = x # y # t"
      by (metis One_nat_def Suc_1 Suc_le_length_iff)
    with False bulk_fits_le [of len] show ?thesis
      by (auto simp: bulk Inr p len_def [symmetric] read_u8_def)
  qed
qed

lemma parse_bulk_append: "parse_bulk c = Inr (f, r) \<Longrightarrow> parse_bulk (c @ x) = Inr (f, r @ x)"
proof -
  assume "parse_bulk c = Inr (f, r)"
  then obtain n c' where h: "read_line_int c = Inr (n, c')" and
    body: "(n = -1 \<and> f = Null \<and> r = c') \<or>
      (0 \<le> sint n \<and> bulk_response_fits (nat (sint n)) \<and>
       drop (nat (sint n)) c' = CR # LF # r \<and> f = Bulk (take (nat (sint n)) c'))"
    unfolding parse_bulk_Inr by blast
  have le: "drop (nat (sint n)) c' = CR # LF # r \<Longrightarrow> nat (sint n) \<le> length c'"
    by (metis drop_eq_Nil2 list.distinct(1) nle_le)
  show ?thesis
    unfolding parse_bulk_Inr using read_line_int_append [OF h, of x] body le
    by (intro exI [of _ n] exI [of _ "c' @ x"]) auto
qed

lemma parse_frame_Cons:
  "depth \<le> MAX_NESTING_DEPTH \<Longrightarrow> parse_frame depth (tag # c) =
     (if tag = CHR ''+'' then map_result (\<lambda>(s, c). (Simple s, c)) (read_line_string c)
      else if tag = CHR ''-'' then map_result (\<lambda>(s, c). (Error s, c)) (read_line_string c)
      else if tag = CHR '':'' then map_result (\<lambda>(n, c). (Integer n, c)) (read_line_int c)
      else if tag = CHR ''$'' then parse_bulk c
      else if tag = CHR ''*'' then
        bind_result (read_line_int c) (\<lambda>(n, c).
          if n = -1 then Inr (NullArray, c)
          else if sint n < 0 then Inl (Protocol ''negative array len'')
          else if nat (sint n) > MAX_ARRAY_LEN then
            Inl (Protocol (''array length '' @ show_nat (nat (sint n)) @ '' exceeds limit ''
                           @ show_nat MAX_ARRAY_LEN))
          else map_result (\<lambda>(items, c). (Array items, c)) (parse_items (nat (sint n)) (Suc depth) c))
      else Inl (Protocol (''invalid type byte: 0x'' @ show_hex02 tag)))"
  by (simp add: parse_frame.simps [of depth] read_u8_def)

lemma parse_frame_Nil: "depth \<le> MAX_NESTING_DEPTH \<Longrightarrow> parse_frame depth [] = Inl Incomplete"
  by (simp add: parse_frame.simps [of depth] read_u8_def)

lemma parse_frame_too_deep:
  "MAX_NESTING_DEPTH < depth \<Longrightarrow> \<exists>m. parse_frame depth c = Inl (Protocol m)"
  by (simp add: parse_frame.simps [of depth])

lemma parse_frame_Inr_depth: "parse_frame depth c = Inr p \<Longrightarrow> depth \<le> MAX_NESTING_DEPTH"
  using parse_frame_too_deep [of depth c] by (cases "MAX_NESTING_DEPTH < depth") auto

lemma parse_frame_append_aux:
  "parse_frame d c = Inr (f, r) \<Longrightarrow> parse_frame d (c @ x) = Inr (f, r @ x)"
  "parse_items n d c = Inr (fs, r') \<Longrightarrow> parse_items n d (c @ x) = Inr (fs, r' @ x)"
proof (induction d c and n d c arbitrary: f r and fs r' rule: parse_frame_parse_items.induct)
  case (1 depth c)
  from "1.prems" have d: "depth \<le> MAX_NESTING_DEPTH" by (rule parse_frame_Inr_depth)
  then obtain tag c' where c: "c = tag # c'"
    using "1.prems" parse_frame_Nil by (cases c) auto
  show ?case
  proof (cases "tag = CHR ''*''")
    case True
    with "1.prems" d obtain n c'' where n: "read_line_int c' = Inr (n, c'')" and
      body: "(n = -1 \<and> f = NullArray \<and> r = c'') \<or>
        (n \<noteq> -1 \<and> \<not> sint n < 0 \<and> \<not> MAX_ARRAY_LEN < nat (sint n) \<and>
         (\<exists>items. parse_items (nat (sint n)) (Suc depth) c'' = Inr (items, r) \<and> f = Array items))"
      unfolding c by (auto simp: parse_frame_Cons result_cases split: if_splits)
    from body show ?thesis
    proof
      assume "n = -1 \<and> f = NullArray \<and> r = c''"
      then show ?thesis using True d n by (simp add: c parse_frame_Cons read_line_int_append)
    next
      assume h: "n \<noteq> -1 \<and> \<not> sint n < 0 \<and> \<not> MAX_ARRAY_LEN < nat (sint n) \<and>
        (\<exists>items. parse_items (nat (sint n)) (Suc depth) c'' = Inr (items, r) \<and> f = Array items)"
      then obtain items where i: "parse_items (nat (sint n)) (Suc depth) c'' = Inr (items, r)"
        "f = Array items" by blast
      have "parse_items (nat (sint n)) (Suc depth) (c'' @ x) = Inr (items, r @ x)"
        using "1.IH" True d n h i by (simp add: c read_u8_def)
      then show ?thesis
        using True d n h i by (simp add: c parse_frame_Cons read_line_int_append)
    qed
  next
    case False
    then show ?thesis
      using "1.prems" d unfolding c
      by (auto simp: parse_frame_Cons result_cases parse_bulk_append
          dest: read_line_string_append read_line_int_append split: if_splits)
  qed
next
  case (3 cnt depth c)
  then show ?case by (fastforce simp: result_cases)
qed simp

lemma parse_frame_append: "parse_frame d c = Inr (f, r) \<Longrightarrow> parse_frame d (c @ x) = Inr (f, r @ x)"
  by (rule parse_frame_append_aux)

section \<open>An encoded frame parses to itself\<close>

lemma sint_of_nat_length: "n \<le> MAX_BUFFERED_FRAME_BYTES \<Longrightarrow> n < 2 ^ 63"
  by (simp add: limits_values)

lemma parse_bulk_encode:
  "bulk_response_fits (length b) \<Longrightarrow>
   parse_bulk (show_nat (length b) @ CR # LF # b @ CR # LF # x) = Inr (Bulk b, x)"
proof -
  assume fits: "bulk_response_fits (length b)"
  then have "length b < 2 ^ 63" by (simp add: bulk_response_fits_iff limits_values)
  with fits show ?thesis
    by (auto simp: parse_bulk_Inr read_line_int_nat sint_word_of_nat)
qed

lemma parse_items_concat:
  "(\<And>f x. f \<in> set fs \<Longrightarrow> parse_frame d (encode f @ x) = Inr (f, x)) \<Longrightarrow>
   parse_items (length fs) d (concat (map encode fs) @ x) = Inr (fs, x)"
  by (induction fs) auto

lemma parse_frame_encode: "frame_wf d f \<Longrightarrow> parse_frame d (encode f @ x) = Inr (f, x)"
proof (induction d f arbitrary: x rule: frame_wf.induct)
  case (3 d b)
  then show ?case by (simp add: parse_frame_Cons parse_bulk_encode)
next
  case (4 d items)
  then have len: "length items < 2 ^ 63" "length items \<le> MAX_ARRAY_LEN" "d \<le> MAX_NESTING_DEPTH"
    by (simp_all add: parser_limits)
  have "parse_items (length items) (Suc d) (concat (map encode items) @ x) = Inr (items, x)"
    using 4 by (intro parse_items_concat) auto
  with len show ?case
    by (simp add: parse_frame_Cons read_line_int_nat sint_word_of_nat word_of_nat_neq_minus_one)
next
  case (5 d n)
  then show ?case by (simp add: parse_frame_Cons)
next
  case (6 d)
  then show ?case by (simp add: parse_frame_Cons parse_bulk_def read_line_int_minus_one)
next
  case (7 d)
  then show ?case by (simp add: parse_frame_Cons read_line_int_minus_one)
qed (simp_all add: parse_frame_Cons)

section \<open>A proper prefix of an encoded frame is incomplete\<close>

lemma read_line_int_prefix:
  "s @ crlf = p @ q \<Longrightarrow> q \<noteq> [] \<Longrightarrow> line_ok s \<Longrightarrow> read_line_int p = Inl Incomplete"
  by (simp add: read_line_int_def read_line_prefix)

lemma read_line_string_prefix:
  "s @ crlf = p @ q \<Longrightarrow> q \<noteq> [] \<Longrightarrow> line_ok s \<Longrightarrow> read_line_string p = Inl Incomplete"
  by (simp add: read_line_string_def read_line_prefix)

text \<open>A prefix of a header line followed by a body ends in the line or in the body.\<close>

lemma append_eq_cases:
  assumes "s @ t = p @ q"
  obtains (left) q' where "s = p @ q'" "q' \<noteq> []" "q = q' @ t"
    | (right) p' where "p = s @ p'" "t = p' @ q"
proof -
  from assms obtain us where "s = p @ us \<and> us @ t = q \<or> s @ us = p \<and> t = us @ q"
    by (auto simp: append_eq_append_conv2)
  then consider "s = p @ us" "us \<noteq> []" "q = us @ t" | "p = s" "t = q" | "p = s @ us" "t = us @ q"
    by (cases us) auto
  then show thesis using left right [of "[]"] right [of us] by cases auto
qed

lemma parse_bulk_prefix:
  assumes fits: "bulk_response_fits (length b)"
    and eq: "show_nat (length b) @ crlf @ b @ crlf = p @ q" and q: "q \<noteq> []"
  shows "parse_bulk p = Inl Incomplete"
proof -
  have len: "length b < 2 ^ 63" "length b < 10 ^ 20"
    using fits by (simp_all add: bulk_response_fits_iff limits_values)
  have "(show_nat (length b) @ crlf) @ (b @ crlf) = p @ q" using eq by simp
  then show ?thesis
  proof (cases rule: append_eq_cases)
    case (left q')
    then show ?thesis
      using line_ok_show_nat [OF len(2)] by (simp add: parse_bulk_def read_line_int_prefix)
  next
    case (right p')
    then have "length (b @ crlf) = length (p' @ q)" by (simp only:)
    then have "length p' < length b + 2" using q by (cases q) simp_all
    with right len fits bulk_fits_le [OF fits] show ?thesis
      by (simp add: parse_bulk_eq [OF read_line_int_nat] sint_word_of_nat word_of_nat_neq_minus_one)
  qed
qed

lemma parse_items_prefix:
  assumes "\<And>f x. f \<in> set fs \<Longrightarrow> parse_frame d (encode f @ x) = Inr (f, x)"
    and "\<And>f p q. f \<in> set fs \<Longrightarrow> encode f = p @ q \<Longrightarrow> q \<noteq> [] \<Longrightarrow> parse_frame d p = Inl Incomplete"
    and "concat (map encode fs) = p @ q" "q \<noteq> []"
  shows "parse_items (length fs) d p = Inl Incomplete"
  using assms
proof (induction fs arbitrary: p)
  case Nil
  then show ?case by simp
next
  case (Cons f fs)
  from Cons.prems(3) have "encode f @ concat (map encode fs) = p @ q" by simp
  then show ?case
  proof (cases rule: append_eq_cases)
    case (left q')
    then have "parse_frame d p = Inl Incomplete" using Cons.prems(2) [of f p q'] by simp
    then show ?thesis by simp
  next
    case (right p')
    have "parse_items (length fs) d p' = Inl Incomplete"
    proof (rule Cons.IH)
      show "parse_frame d p = Inl Incomplete" if "g \<in> set fs" "encode g = p @ r" "r \<noteq> []" for g p r
        using Cons.prems(2) [of g p r] that by simp
    qed (use Cons.prems right in auto)
    with right Cons.prems(1) [of f p'] show ?thesis by simp
  qed
qed

lemma parse_frame_prefix:
  "frame_wf d f \<Longrightarrow> encode f = p @ q \<Longrightarrow> q \<noteq> [] \<Longrightarrow> parse_frame d p = Inl Incomplete"
proof (induction d f arbitrary: p q rule: frame_wf.induct)
  case (1 d s)
  then show ?case
    by (cases p) (auto simp: parse_frame_Cons parse_frame_Nil read_line_string_prefix)
next
  case (2 d s)
  then show ?case
    by (cases p) (auto simp: parse_frame_Cons parse_frame_Nil read_line_string_prefix)
next
  case (3 d b)
  then show ?case
    by (cases p) (auto simp: parse_frame_Cons parse_frame_Nil parse_bulk_prefix)
next
  case (4 d items)
  then have len: "length items < 2 ^ 63" "length items < 10 ^ 20" "length items \<le> MAX_ARRAY_LEN"
    and d: "d \<le> MAX_NESTING_DEPTH"
    by (simp_all add: parser_limits)
  show ?case
  proof (cases p)
    case Nil
    with d show ?thesis by (simp add: parse_frame_Nil)
  next
    case (Cons a t)
    with 4 have a: "a = CHR ''*''" and
      "(show_nat (length items) @ crlf) @ concat (map encode items) = t @ q" by auto
    from this(2) show ?thesis
    proof (cases rule: append_eq_cases)
      case (left q')
      then show ?thesis
        using line_ok_show_nat [OF len(2)] d Cons a by (simp add: parse_frame_Cons read_line_int_prefix)
    next
      case (right p')
      have "parse_items (length items) (Suc d) p' = Inl Incomplete"
      proof (rule parse_items_prefix)
        show "parse_frame (Suc d) p = Inl Incomplete"
          if "g \<in> set items" "encode g = p @ r" "r \<noteq> []" for g p r
          using 4 that by simp
      qed (use 4 right in \<open>auto intro: parse_frame_encode\<close>)
      with right len d Cons a show ?thesis
        by (simp add: parse_frame_Cons read_line_int_nat sint_word_of_nat word_of_nat_neq_minus_one)
    qed
  qed
next
  case (5 d n)
  then show ?case
    by (cases p) (auto simp: parse_frame_Cons parse_frame_Nil read_line_int_prefix)
next
  case (6 d)
  then show ?case
    using line_ok_minus_one read_line_int_prefix [of "''-1''"]
    by (cases p) (auto simp: parse_frame_Cons parse_frame_Nil parse_bulk_def)
next
  case (7 d)
  then show ?case
    using line_ok_minus_one read_line_int_prefix [of "''-1''"]
    by (cases p) (auto simp: parse_frame_Cons parse_frame_Nil)
qed

section \<open>The parser on encoded frames\<close>

lemma encode_hd: "is_resp_type (hd (encode f))"
  by (cases f) (auto simp: is_resp_type_def)

lemma parse_Nil: "parse [] = Inr (None, [])"
  by (simp add: parse.simps)

lemma parse_encode:
  assumes "wire_frame f" shows "parse (encode f @ x) = Inr (Some f, x)"
proof -
  have "is_resp_type (hd (encode f @ x))"
    using encode_hd [of f] encode_nonempty [of f] by (metis hd_append2)
  with assms show ?thesis
    by (simp add: parse.simps [of "encode f @ x"] wire_frame_def parse_frame_encode)
qed

lemma parse_prefix:
  assumes "wire_frame f" "encode f = p @ q" "q \<noteq> []"
  shows "parse p = Inr (None, p)"
proof (cases "p = []")
  case True
  then show ?thesis by (simp add: parse.simps)
next
  case False
  then have "is_resp_type (hd p)" using encode_hd [of f] assms(2) by simp
  moreover have "parse_frame 0 p = Inl Incomplete"
    using assms by (intro parse_frame_prefix) (auto simp: wire_frame_def)
  ultimately show ?thesis using False by (simp add: parse.simps [of p])
qed

interpretation resp: stream_codec encode parse wire_frame
  by unfold_locales (simp_all add: parse_encode parse_prefix parse_Nil)

section \<open>More bytes never change what was parsed\<close>

lemma find_lf_append: "find_lf s = Some i \<Longrightarrow> find_lf (s @ x) = Some i"
  by (induction s arbitrary: i) (auto split: if_splits)

lemma parse_inline_append:
  assumes "parse_inline buf = Inr (fo, r)" "fo \<noteq> None \<or> length r \<noteq> length buf"
  shows "parse_inline (buf @ x) = Inr (fo, r @ x)"
proof -
  obtain i where i: "find_lf buf = Some i" "\<not> MAX_LINE_LEN < i"
      "inline_frame (strip_cr (take i buf)) = Inr fo" "r = drop (i + 1) buf"
    using assms by (auto simp: parse_inline_def result_cases split: option.splits if_splits)
  moreover have "i < length buf" using i(1) by (rule find_lf_bound)
  ultimately show ?thesis
    by (simp add: parse_inline_def find_lf_append)
qed

lemma parse_append: "parse buf = Inr (Some f, r) \<Longrightarrow> parse (buf @ x) = Inr (Some f, r @ x)"
proof (induction buf rule: parse.induct)
  case (1 buf)
  have ne: "buf \<noteq> []" using "1.prems" by (auto simp: parse.simps)
  show ?case
  proof (cases "is_resp_type (hd buf)")
    case True
    with "1.prems" ne obtain c where c: "parse_frame 0 buf = Inr (f, c)"
        "\<not> MAX_BUFFERED_FRAME_BYTES < length buf - length c" "r = drop (length buf - length c) buf"
      by (auto simp: parse.simps [of buf] Let_def split: sum.splits prod.splits resp_error.splits if_splits)
    then show ?thesis
      using True ne parse_frame_append [OF c(1), of x]
      by (simp add: parse.simps [of "buf @ x"] Let_def)
  next
    case False
    with "1.prems" ne obtain fo b where b: "parse_inline buf = Inr (fo, b)"
      by (auto simp: parse.simps [of buf] split: sum.splits prod.splits)
    show ?thesis
    proof (cases fo)
      case None
      with "1.prems" False ne b have l: "length b \<noteq> length buf" "parse b = Inr (Some f, r)"
        by (auto simp: parse.simps [of buf] split: if_splits)
      have "parse (b @ x) = Inr (Some f, r @ x)"
        using "1.IH" ne False b None l by simp
      with False ne l(1) parse_inline_append [OF b, of x] None show ?thesis
        by (simp add: parse.simps [of "buf @ x"])
    next
      case (Some f')
      with "1.prems" False ne b have "f' = f" "b = r" by (auto simp: parse.simps [of buf])
      with False ne parse_inline_append [OF b, of x] Some show ?thesis
        by (simp add: parse.simps [of "buf @ x"])
    qed
  qed
qed

section \<open>Properties of the wire format\<close>

text \<open>
  C9. A stream of encoded frames, followed by the beginning of one more, is read back as exactly those
  frames, and the incomplete rest is left in the buffer: nothing is lost, merged or invented at a
  frame boundary, whatever the payloads contain.
\<close>

theorem stream_decoding:
  assumes "\<forall>f \<in> set fs. wire_frame f" "wire_frame g" "encode g = p @ q" "q \<noteq> []"
  shows "decodes parse (concat (map encode fs) @ p) fs p"
  using assms by (rule resp.decodes_torn)

lemmas eval_limits = wire_frame_def line_ok_def bulk_response_fits_iff limits_values parser_limits
  show_nat.simps digit_char_def CR_def LF_def

theorem stream_decoding_witness:
  "decodes parse (concat (map encode [Bulk [CR, LF], Array [Integer 7, Null]]) @ ''$3'')
     [Bulk [CR, LF], Array [Integer 7, Null]] ''$3''"
proof (rule stream_decoding [of _ "Bulk ''abc''" "''$3''" "crlf @ ''abc'' @ crlf"])
  show "\<forall>f \<in> set [Bulk [CR, LF], Array [Integer 7, Null]]. wire_frame f"
    using length_show_i64 [of 7] by (simp add: eval_limits)
  show "encode (Bulk ''abc'') = ''$3'' @ crlf @ ''abc'' @ crlf" by code_simp
qed (simp_all add: eval_limits)

text \<open>Two different sequences of frames the parser accepts never have the same encoding.\<close>

lemma stream_unique:
  "inj_on (\<lambda>fs. concat (map encode fs)) (lists (Collect wire_frame))"
  by (rule inj_onI) (auto intro: resp.enc_stream_inj)

text \<open>
  How the bytes are cut into reads does not matter: once a frame has been parsed from a buffer, it is
  parsed from that buffer with any bytes appended, and these bytes stay behind it. This holds for
  RESP frames and for inline requests, with blank lines before them.
\<close>

theorem parse_chunk_independent:
  assumes "parse buf = Inr (Some f, rest)"
  shows "parse (buf @ more) = Inr (Some f, rest @ more)"
  using assms by (rule parse_append)

theorem parse_chunk_independent_witness:
  "parse (encode (Bulk ''hi'') @ ''*1'') = Inr (Some (Bulk ''hi''), ''*1'')"
proof -
  have "parse (encode (Bulk ''hi'') @ []) = Inr (Some (Bulk ''hi''), [])"
    by (rule parse_encode) (simp add: eval_limits)
  then show ?thesis using parse_chunk_independent [of "encode (Bulk ''hi'')" "Bulk ''hi''" "[]" "''*1''"] by simp
qed

text \<open>
  \<open>encoded_len\<close>, computed with checked additions before a response is written, is exactly the number
  of bytes the encoder writes, and reports an overflow exactly when that number is not a \<open>usize\<close>.
\<close>

theorem encoded_len_exact:
  "encoded_len f = (if length (encode f) < 2 ^ 64 then Some (length (encode f)) else None)"
  by (simp add: encoded_len_eq usize_checked_def usize_limit_def)

end
