(* ===== verification/Maps.thy ===== *)
theory Maps
  imports Prelude
begin

text \<open>
  The two containers of the source. A \<open>HashMap\<close> is an association list with distinct keys,
  in an order the source does not rely on; a \<open>BTreeMap\<close> is an association list in ascending
  key order. Both provide the interface \<open>keyed_map\<close>, whose lemmas (what a sequence of
  insertions or removals looks like from outside) are proved once.
\<close>

section \<open>The interface of a keyed map\<close>

locale keyed_map =
  fixes lookup :: "'m \<Rightarrow> 'k \<Rightarrow> 'v option"
    and insert :: "'k \<Rightarrow> 'v \<Rightarrow> 'm \<Rightarrow> 'm"
    and remove :: "'k \<Rightarrow> 'm \<Rightarrow> 'm"
    and items :: "'m \<Rightarrow> ('k \<times> 'v) list"
    and invar :: "'m \<Rightarrow> bool"
  assumes lookup_items: "invar m \<Longrightarrow> lookup m = map_of (items m)"
    and items_distinct: "invar m \<Longrightarrow> distinct (map fst (items m))"
    and lookup_insert: "invar m \<Longrightarrow> lookup (insert k v m) = (lookup m)(k \<mapsto> v)"
    and lookup_remove: "invar m \<Longrightarrow> lookup (remove k m) = (lookup m)(k := None)"
    and invar_insert: "invar m \<Longrightarrow> invar (insert k v m)"
    and invar_remove: "invar m \<Longrightarrow> invar (remove k m)"
begin

lemma dom_lookup: "invar m \<Longrightarrow> dom (lookup m) = fst ` set (items m)"
  by (simp add: lookup_items dom_map_of_conv_image_fst)

lemma length_items: "invar m \<Longrightarrow> length (items m) = card (dom (lookup m))"
  using items_distinct [of m] distinct_card [of "map fst (items m)"]
  by (simp add: dom_lookup)

lemma items_empty: "invar m \<Longrightarrow> items m = [] \<longleftrightarrow> lookup m = Map.empty"
  by (metis dom_eq_empty_conv dom_lookup image_is_empty set_empty)

lemma items_cong: "invar m \<Longrightarrow> invar n \<Longrightarrow> lookup m = lookup n \<Longrightarrow> set (items m) = set (items n)"
  by (metis items_distinct lookup_items map_of_eqI map_of_inject_set)

lemma invar_inserts: "invar m \<Longrightarrow> invar (fold (\<lambda>(k, v). insert k v) ps m)"
  by (induction ps arbitrary: m) (auto simp: invar_insert)

lemma lookup_inserts:
  "invar m \<Longrightarrow> lookup (fold (\<lambda>(k, v). insert k v) ps m) = lookup m ++ map_of (rev ps)"
proof (induction ps arbitrary: m)
  case Nil
  then show ?case by simp
next
  case (Cons p ps)
  obtain k v where "p = (k, v)" by (cases p)
  with Cons show ?case
    by (simp add: invar_insert lookup_insert map_add_assoc [symmetric])
       (simp add: map_add_def fun_eq_iff split: option.splits)
qed

lemma invar_removes: "invar m \<Longrightarrow> invar (fold remove ks m)"
  by (induction ks arbitrary: m) (auto simp: invar_remove)

lemma lookup_removes: "invar m \<Longrightarrow> lookup (fold remove ks m) = lookup m |` (- set ks)"
proof (induction ks arbitrary: m)
  case (Cons k ks)
  then show ?case
    by (simp add: invar_remove lookup_remove) (auto simp: restrict_map_def fun_eq_iff)
qed (simp add: restrict_map_def)

end

section \<open>HashMap\<close>

type_synonym ('k, 'v) hash_map = "('k \<times> 'v) list"

abbreviation hm_get :: "('k, 'v) hash_map \<Rightarrow> 'k \<Rightarrow> 'v option" where
  "hm_get \<equiv> map_of"

abbreviation hm_insert :: "'k \<Rightarrow> 'v \<Rightarrow> ('k, 'v) hash_map \<Rightarrow> ('k, 'v) hash_map" where
  "hm_insert \<equiv> AList.update"

abbreviation hm_remove :: "'k \<Rightarrow> ('k, 'v) hash_map \<Rightarrow> ('k, 'v) hash_map" where
  "hm_remove \<equiv> AList.delete"

abbreviation hm_ok :: "('k, 'v) hash_map \<Rightarrow> bool" where
  "hm_ok m \<equiv> distinct (map fst m)"

text \<open>\<open>map.entry(k).or_insert(v)\<close>.\<close>

definition hm_or_insert :: "'k \<Rightarrow> 'v \<Rightarrow> ('k, 'v) hash_map \<Rightarrow> ('k, 'v) hash_map" where
  "hm_or_insert k v m = (case hm_get m k of None \<Rightarrow> hm_insert k v m | Some _ \<Rightarrow> m)"

interpretation hm: keyed_map hm_get hm_insert hm_remove "\<lambda>m. m" hm_ok
  by unfold_locales (auto simp: update_conv' delete_conv' distinct_update distinct_delete)

section \<open>BTreeMap\<close>

type_synonym ('k, 'v) btree_map = "('k \<times> 'v) list"

fun bt_insert :: "'k :: linorder \<Rightarrow> 'v \<Rightarrow> ('k, 'v) btree_map \<Rightarrow> ('k, 'v) btree_map" where
  "bt_insert k v [] = [(k, v)]"
| "bt_insert k v ((k', v') # m) =
     (if k < k' then (k, v) # (k', v') # m
      else if k = k' then (k, v) # m
      else (k', v') # bt_insert k v m)"

abbreviation bt_get :: "('k, 'v) btree_map \<Rightarrow> 'k \<Rightarrow> 'v option" where
  "bt_get \<equiv> map_of"

abbreviation bt_remove :: "'k \<Rightarrow> ('k, 'v) btree_map \<Rightarrow> ('k, 'v) btree_map" where
  "bt_remove \<equiv> AList.delete"

definition bt_ok :: "('k :: linorder, 'v) btree_map \<Rightarrow> bool" where
  "bt_ok m \<longleftrightarrow> sorted_wrt (<) (map fst m)"

lemma bt_insert_keys: "fst ` set (bt_insert k v m) = Set.insert k (fst ` set m)"
  by (induction k v m rule: bt_insert.induct) auto

lemma bt_ok_Cons: "bt_ok ((k, v) # m) \<longleftrightarrow> (\<forall>k' \<in> fst ` set m. k < k') \<and> bt_ok m"
  by (simp add: bt_ok_def)

lemma bt_ok_insert: "bt_ok m \<Longrightarrow> bt_ok (bt_insert k v m)"
proof (induction k v m rule: bt_insert.induct)
  case (2 k v k' v' m)
  show ?case
  proof (cases k k' rule: linorder_cases)
    case less
    with 2 show ?thesis by (fastforce simp: bt_ok_Cons)
  next
    case equal
    with 2 show ?thesis by (simp add: bt_ok_Cons)
  next
    case greater
    with 2 have "bt_ok (bt_insert k v m)" "\<forall>x \<in> fst ` set (bt_insert k v m). k' < x"
      by (auto simp: bt_ok_Cons bt_insert_keys)
    with greater show ?thesis by (auto simp: bt_ok_Cons)
  qed
qed (simp add: bt_ok_def)

lemma bt_get_insert: "bt_ok m \<Longrightarrow> bt_get (bt_insert k v m) = (bt_get m)(k \<mapsto> v)"
  by (induction k v m rule: bt_insert.induct) (auto simp: bt_ok_Cons fun_eq_iff)

lemma bt_ok_distinct: "bt_ok m \<Longrightarrow> distinct (map fst m)"
  by (simp add: bt_ok_def strict_sorted_iff)

lemma bt_ok_filter: "bt_ok m \<Longrightarrow> bt_ok (filter P m)"
  by (induction m) (auto simp: bt_ok_Cons)

lemma bt_ok_remove: "bt_ok m \<Longrightarrow> bt_ok (bt_remove k m)"
  by (simp add: AList.delete_eq bt_ok_filter)

interpretation bt: keyed_map bt_get bt_insert bt_remove "\<lambda>m. m" bt_ok
  by unfold_locales (auto simp: bt_ok_distinct bt_ok_insert bt_get_insert bt_ok_remove delete_conv')

lemma bt_get_filter: "bt_get (filter (\<lambda>p. P (fst p)) m) t = (if P t then bt_get m t else None)"
  by (rule map_of_filter_key)

end
