(* ===== verification/Shard.thy ===== *)
theory Shard
  imports Maps Resp
begin

text \<open>
  One shard of the key space, \<^verbatim>\<open>src/src/db/mod.rs\<close>: a hash map of entries and an ordered
  index from deadlines to the keys that expire then. \<open>shard_wf\<close> is the invariant the code keeps
  between the two: a key is listed under a deadline exactly when its entry has that deadline.
  The lemmas in \<open>shard_view\<close> say what each primitive does to the entries and to the index.

  A clock reading is a parameter \<open>now\<close>: every call of \<open>now_millis()\<close> in the source is an argument
  of the model.
\<close>

section \<open>Values, entries, shards\<close>

datatype rvalue =
    VString bytes
  | VList "bytes list"
  | VHash "(bytes, bytes) hash_map"

record entry =
  evalue :: rvalue
  expires_at :: "u128 option"

record shard =
  entries :: "(bytes, entry) hash_map"
  expirations :: "(u128, bytes list) btree_map"

definition empty_shard :: shard where
  "empty_shard = \<lparr>entries = [], expirations = []\<rparr>"

definition entry_expired :: "u128 \<Rightarrow> entry \<Rightarrow> bool" where
  "entry_expired now e = (case expires_at e of Some t \<Rightarrow> now \<ge> t | None \<Rightarrow> False)"

definition unindex_expiration :: "u128 \<Rightarrow> bytes \<Rightarrow> shard \<Rightarrow> shard" where
  "unindex_expiration t key s = (case bt_get (expirations s) t of
      None \<Rightarrow> s
    | Some keys \<Rightarrow>
        let keys' = filter (\<lambda>k. k \<noteq> key) keys in
        if keys' = [] then s\<lparr>expirations := bt_remove t (expirations s)\<rparr>
        else s\<lparr>expirations := bt_insert t keys' (expirations s)\<rparr>)"

text \<open>\<open>shard.expirations.entry(t).or_default().push(key)\<close>.\<close>

definition push_expiration :: "u128 \<Rightarrow> bytes \<Rightarrow> shard \<Rightarrow> shard" where
  "push_expiration t key s = (case bt_get (expirations s) t of
      None \<Rightarrow> s\<lparr>expirations := bt_insert t [key] (expirations s)\<rparr>
    | Some keys \<Rightarrow> s\<lparr>expirations := bt_insert t (keys @ [key]) (expirations s)\<rparr>)"

definition put_entry :: "bytes \<Rightarrow> entry \<Rightarrow> shard \<Rightarrow> shard" where
  "put_entry key e s = s\<lparr>entries := hm_insert key e (entries s)\<rparr>"

definition remove_entry :: "bytes \<Rightarrow> shard \<Rightarrow> entry option \<times> shard" where
  "remove_entry key s = (case hm_get (entries s) key of
      None \<Rightarrow> (None, s)
    | Some e \<Rightarrow>
        let s' = s\<lparr>entries := hm_remove key (entries s)\<rparr> in
        (Some e, case expires_at e of Some t \<Rightarrow> unindex_expiration t key s' | None \<Rightarrow> s'))"

definition expire_if_stale :: "u128 \<Rightarrow> bytes \<Rightarrow> shard \<Rightarrow> bool \<times> shard" where
  "expire_if_stale now key s = (case Option.bind (hm_get (entries s) key) expires_at of
      None \<Rightarrow> (False, s)
    | Some deadline \<Rightarrow>
        if now < deadline then (False, s) else (True, snd (remove_entry key s)))"

text \<open>
  \<open>if let Some(old) = shard.entries.get(&key).and_then(|e| e.expires_at) { shard.unindex_expiration(old, &key) }\<close>,
  and \<open>if shard.entries.get(&key).map(entry_expired).unwrap_or(false) { shard.remove_entry(&key) }\<close>.
\<close>

definition unindex_old :: "bytes \<Rightarrow> shard \<Rightarrow> shard" where
  "unindex_old key s = (case Option.bind (hm_get (entries s) key) expires_at of
      Some old \<Rightarrow> unindex_expiration old key s
    | None \<Rightarrow> s)"

definition drop_stale :: "u128 \<Rightarrow> bytes \<Rightarrow> shard \<Rightarrow> shard" where
  "drop_stale now key s = (case hm_get (entries s) key of
      Some e \<Rightarrow> if entry_expired now e then snd (remove_entry key s) else s
    | None \<Rightarrow> s)"

text \<open>\<open>if let Some(t) = expires_at { shard.expirations.entry(t).or_default().push(key) }\<close>.\<close>

definition index_entry :: "u128 option \<Rightarrow> bytes \<Rightarrow> shard \<Rightarrow> shard" where
  "index_entry d key s = (case d of Some t \<Rightarrow> push_expiration t key s | None \<Rightarrow> s)"

section \<open>Views: the entries and the index\<close>

definition entry_at :: "shard \<Rightarrow> bytes \<Rightarrow> entry option" where
  "entry_at s = hm_get (entries s)"

definition indexed :: "shard \<Rightarrow> u128 \<Rightarrow> bytes list" where
  "indexed s t = (case bt_get (expirations s) t of None \<Rightarrow> [] | Some ks \<Rightarrow> ks)"

definition shard_shape :: "shard \<Rightarrow> bool" where
  "shard_shape s \<longleftrightarrow> hm_ok (entries s) \<and> bt_ok (expirations s) \<and>
     (\<forall>(t, ks) \<in> set (expirations s). ks \<noteq> [] \<and> distinct ks)"

definition shard_wf :: "shard \<Rightarrow> bool" where
  "shard_wf s \<longleftrightarrow> shard_shape s \<and>
     (\<forall>(t, ks) \<in> set (expirations s). \<forall>k \<in> set ks.
        map_option expires_at (hm_get (entries s) k) = Some (Some t)) \<and>
     (\<forall>(k, e) \<in> set (entries s).
        case expires_at e of Some t \<Rightarrow> k \<in> set (indexed s t) | None \<Rightarrow> True)"

lemma shard_shape_iff:
  "shard_shape s \<longleftrightarrow> hm_ok (entries s) \<and> bt_ok (expirations s) \<and>
     (\<forall>t. distinct (indexed s t)) \<and> (\<forall>t. bt_get (expirations s) t \<noteq> Some [])"
proof -
  have "bt_ok (expirations s) \<Longrightarrow>
    (\<forall>(t, ks) \<in> set (expirations s). ks \<noteq> [] \<and> distinct ks) \<longleftrightarrow>
    (\<forall>t. distinct (indexed s t)) \<and> (\<forall>t. bt_get (expirations s) t \<noteq> Some [])"
    by (fastforce simp: indexed_def dest: bt_ok_distinct map_of_SomeD split: option.splits)
  then show ?thesis unfolding shard_shape_def by blast
qed

text \<open>The invariant as an equation between the two views.\<close>

lemma shard_wf_iff:
  "shard_wf s \<longleftrightarrow> shard_shape s \<and>
     (\<forall>t k. k \<in> set (indexed s t) \<longleftrightarrow> map_option expires_at (entry_at s k) = Some (Some t))"
proof (cases "shard_shape s")
  case True
  then have d: "distinct (map fst (expirations s))" "distinct (map fst (entries s))"
    by (auto simp: shard_shape_def bt_ok_distinct)
  have "(\<forall>(t, ks) \<in> set (expirations s). \<forall>k \<in> set ks.
          map_option expires_at (hm_get (entries s) k) = Some (Some t)) \<longleftrightarrow>
        (\<forall>t k. k \<in> set (indexed s t) \<longrightarrow> map_option expires_at (entry_at s k) = Some (Some t))"
    unfolding indexed_def entry_at_def using d(1) by (fastforce dest: map_of_SomeD split: option.splits)
  moreover have "(\<forall>(k, e) \<in> set (entries s).
          case expires_at e of Some t \<Rightarrow> k \<in> set (indexed s t) | None \<Rightarrow> True) \<longleftrightarrow>
        (\<forall>t k. map_option expires_at (entry_at s k) = Some (Some t) \<longrightarrow> k \<in> set (indexed s t))"
    unfolding entry_at_def using d(2) by (fastforce dest: map_of_SomeD split: option.splits)
  ultimately show ?thesis using True unfolding shard_wf_def by blast
qed (simp add: shard_wf_def)

section \<open>The primitives through the views\<close>

lemma entry_at_empty [shard_view]: "entry_at empty_shard k = None"
  by (simp add: entry_at_def empty_shard_def)

lemma shard_wf_empty: "shard_wf empty_shard"
  by (simp add: shard_wf_def shard_shape_def empty_shard_def bt_ok_def)

lemma entries_unindex [simp]: "entries (unindex_expiration t k s) = entries s"
  by (simp add: unindex_expiration_def Let_def split: option.splits)

lemma entries_push [simp]: "entries (push_expiration t k s) = entries s"
  by (simp add: push_expiration_def split: option.splits)

lemma entry_at_cong: "entries s = entries s' \<Longrightarrow> entry_at s = entry_at s'"
  by (simp add: entry_at_def)

lemma entry_at_unindex [shard_view]: "entry_at (unindex_expiration t k s) = entry_at s"
  by (rule entry_at_cong) simp

lemma entry_at_push [shard_view]: "entry_at (push_expiration t k s) = entry_at s"
  by (rule entry_at_cong) simp

lemma entry_at_index_entry [shard_view]: "entry_at (index_entry d k s) = entry_at s"
  by (simp add: index_entry_def entry_at_push split: option.splits)

lemma entry_at_unindex_old [shard_view]: "entry_at (unindex_old k s) = entry_at s"
  by (simp add: unindex_old_def entry_at_unindex split: option.splits)

lemma entry_at_put [shard_view]: "entry_at (put_entry k e s) = (entry_at s)(k \<mapsto> e)"
  by (simp add: entry_at_def put_entry_def update_conv')

lemma indexed_put [shard_view]: "indexed (put_entry k e s) = indexed s"
  by (simp add: indexed_def put_entry_def fun_eq_iff)

lemma shape_put [shard_view]: "shard_shape (put_entry k e s) = shard_shape s"
  if "hm_ok (entries s)" using that
  by (simp add: shard_shape_def put_entry_def distinct_update)

lemma shape_bt_ok: "shard_shape s \<Longrightarrow> bt_ok (expirations s)"
  by (simp add: shard_shape_def)

lemma shape_hm_ok: "shard_shape s \<Longrightarrow> hm_ok (entries s)"
  by (simp add: shard_shape_def)

lemma indexed_unindex [shard_view]:
  "shard_shape s \<Longrightarrow>
   indexed (unindex_expiration t k s) t' = (if t' = t then filter (\<lambda>x. x \<noteq> k) (indexed s t) else indexed s t')"
  using bt.lookup_insert [OF shape_bt_ok, of s] bt.lookup_remove [OF shape_bt_ok, of s]
  by (auto simp: indexed_def unindex_expiration_def Let_def split: option.splits)

lemma shape_unindex [shard_view]: "shard_shape s \<Longrightarrow> shard_shape (unindex_expiration t k s)"
  using bt.lookup_insert [OF shape_bt_ok, of s] bt.lookup_remove [OF shape_bt_ok, of s]
  by (simp add: shard_shape_iff indexed_unindex [unfolded shard_shape_iff])
     (auto simp: unindex_expiration_def Let_def bt.invar_insert bt.invar_remove split: option.splits)

lemma indexed_push [shard_view]:
  "shard_shape s \<Longrightarrow>
   indexed (push_expiration t k s) t' = (if t' = t then indexed s t @ [k] else indexed s t')"
  using bt.lookup_insert [OF shape_bt_ok, of s]
  by (auto simp: indexed_def push_expiration_def split: option.splits)

lemma shape_push [shard_view]:
  "shard_shape s \<Longrightarrow> k \<notin> set (indexed s t) \<Longrightarrow> shard_shape (push_expiration t k s)"
  using bt.lookup_insert [OF shape_bt_ok, of s]
  by (simp add: shard_shape_iff indexed_push [unfolded shard_shape_iff])
     (auto simp: push_expiration_def bt.invar_insert split: option.splits)

text \<open>Deleting the entry alone, as \<open>self.entries.remove(key)\<close> does.\<close>

lemma entry_at_delete: "entry_at (s\<lparr>entries := hm_remove k (entries s)\<rparr>) = (entry_at s)(k := None)"
  by (simp add: entry_at_def delete_conv')

lemma indexed_entries_update [simp]: "indexed (s\<lparr>entries := x\<rparr>) = indexed s"
  by (simp add: indexed_def fun_eq_iff)

lemma shape_delete: "shard_shape s \<Longrightarrow> shard_shape (s\<lparr>entries := hm_remove k (entries s)\<rparr>)"
  by (simp add: shard_shape_def distinct_delete)

section \<open>The index invariant is kept\<close>

lemma wf_shape: "shard_wf s \<Longrightarrow> shard_shape s"
  by (simp add: shard_wf_def)

lemma wf_indexed:
  "shard_wf s \<Longrightarrow> k \<in> set (indexed s t) \<longleftrightarrow> map_option expires_at (entry_at s k) = Some (Some t)"
  by (simp add: shard_wf_iff)

text \<open>After \<open>unindex_old\<close> the key is nowhere in the index, and nothing else has changed.\<close>

lemma unindex_old_view:
  assumes "shard_wf s"
  shows "shard_shape (unindex_old k s)"
    and "set (indexed (unindex_old k s) t) = set (indexed s t) - {k}"
proof -
  note sh = wf_shape [OF assms]
  show "shard_shape (unindex_old k s)"
    using sh by (auto simp: unindex_old_def shape_unindex split: option.splits)
  show "set (indexed (unindex_old k s) t) = set (indexed s t) - {k}"
    using wf_indexed [OF assms, of k t] sh
    by (auto simp: unindex_old_def indexed_unindex entry_at_def split: option.splits if_splits)
qed

text \<open>The whole update of an entry: unindex the old deadline, store, index the new deadline.\<close>

lemma wf_store:
  assumes "shard_wf s"
  shows "shard_wf (index_entry (expires_at e) k (put_entry k e (unindex_old k s)))"
proof -
  let ?u = "put_entry k e (unindex_old k s)"
  have sh: "shard_shape ?u"
    using unindex_old_view(1) [OF assms] by (simp add: shape_put shape_hm_ok)
  have ix: "set (indexed ?u t) = set (indexed s t) - {k}" for t
    by (simp add: indexed_put unindex_old_view(2) [OF assms])
  have "shard_shape (index_entry (expires_at e) k ?u)"
    using sh ix by (auto simp: index_entry_def shape_push split: option.splits)
  moreover have "set (indexed (index_entry (expires_at e) k ?u) t) =
      set (indexed s t) - {k} \<union> (if expires_at e = Some t then {k} else {})" for t
    using sh ix by (auto simp: index_entry_def indexed_push split: option.splits if_splits)
  ultimately show ?thesis
    using wf_indexed [OF assms]
    by (auto simp: shard_wf_iff entry_at_index_entry entry_at_put entry_at_unindex_old)
qed

lemma wf_update_value:
  assumes "shard_wf s" "entry_at s k = Some e" "expires_at e' = expires_at e"
  shows "shard_wf (put_entry k e' s)"
  using assms by (auto simp: shard_wf_iff entry_at_put indexed_put shape_put shape_hm_ok)

lemma wf_put_fresh:
  assumes "shard_wf s" "entry_at s k = None" "expires_at e = None"
  shows "shard_wf (put_entry k e s)"
  using assms by (auto simp: shard_wf_iff entry_at_put indexed_put shape_put shape_hm_ok)

lemma remove_entry_view:
  assumes "shard_wf s"
  shows "shard_wf (snd (remove_entry k s))"
    and "entry_at (snd (remove_entry k s)) = (entry_at s)(k := None)"
    and "fst (remove_entry k s) = entry_at s k"
proof -
  note sh = shape_delete [OF wf_shape [OF assms], of k]
  show "entry_at (snd (remove_entry k s)) = (entry_at s)(k := None)"
  proof (cases "hm_get (entries s) k")
    case None
    then show ?thesis by (simp add: remove_entry_def entry_at_def fun_eq_iff)
  next
    case (Some e)
    then show ?thesis
      by (cases "expires_at e") (simp_all add: remove_entry_def entry_at_unindex entry_at_delete)
  qed
  show "fst (remove_entry k s) = entry_at s k"
    by (simp add: remove_entry_def entry_at_def Let_def split: option.splits)
  show "shard_wf (snd (remove_entry k s))"
  proof (cases "hm_get (entries s) k")
    case None
    then show ?thesis using assms by (simp add: remove_entry_def)
  next
    case (Some e)
    with sh wf_indexed [OF assms] show ?thesis
      by (cases "expires_at e")
         (auto simp: remove_entry_def shard_wf_iff shape_unindex indexed_unindex entry_at_unindex
           delete_conv' entry_at_def split: if_splits)
  qed
qed

section \<open>Expiry\<close>

text \<open>What a command running at time \<open>now\<close> sees of a key.\<close>

definition live :: "u128 \<Rightarrow> entry option \<Rightarrow> entry option" where
  "live now eo = (case eo of Some e \<Rightarrow> if entry_expired now e then None else Some e | None \<Rightarrow> None)"

lemma live_simps [simp]:
  "live now None = None"
  "expires_at e = None \<Longrightarrow> live now (Some e) = Some e"
  by (simp_all add: live_def entry_expired_def)

lemma live_idem [simp]: "live now (live now eo) = live now eo"
  by (auto simp: live_def split: option.splits)

lemma live_Some: "live now eo = Some e \<longleftrightarrow> eo = Some e \<and> \<not> entry_expired now e"
  by (auto simp: live_def split: option.splits)

lemma live_None: "live now eo = None \<longleftrightarrow> (\<forall>e. eo = Some e \<longrightarrow> entry_expired now e)"
  by (auto simp: live_def split: option.splits)

lemma expire_if_stale_drop: "snd (expire_if_stale now k s) = drop_stale now k s"
  by (auto simp: expire_if_stale_def drop_stale_def entry_expired_def bind_eq_Some_conv bind_eq_None_conv
      split: option.splits)

lemma expire_if_stale_fst:
  "fst (expire_if_stale now k s) \<longleftrightarrow> (\<exists>e. entry_at s k = Some e \<and> entry_expired now e)"
  by (auto simp: expire_if_stale_def entry_expired_def entry_at_def bind_eq_Some_conv bind_eq_None_conv
      split: option.splits)

text \<open>Dropping a stale entry leaves exactly the live one.\<close>

lemma drop_stale_view:
  assumes "shard_wf s"
  shows "shard_wf (drop_stale now k s)"
    and "entry_at (drop_stale now k s) = (entry_at s)(k := live now (entry_at s k))"
  using remove_entry_view [OF assms, of k]
  by (auto simp: drop_stale_def assms live_def fun_eq_iff split: option.splits)
     (auto simp: entry_at_def)

end
