(* ===== verification/Db.thy ===== *)
theory Db
  imports Shard
begin

text \<open>
  The database of \<^verbatim>\<open>src/src/db/mod.rs\<close>: sixteen shards, each behind a mutex, a key living in
  the shard its hash selects, and the sweeper of \<^verbatim>\<open>src/src/db/expire.rs\<close>. The hash \<open>xxh64\<close>
  is the function of a third-party crate: it is the parameter \<open>h\<close>, and nothing is assumed of it.
  An operation that locks the shard of a key is \<open>with_shard\<close>.

  The locale \<open>key_op\<close> is the contract of a single-key operation: it keeps the invariant of the
  shard, touches no other key, and its effect on the live entry of its key is the function \<open>g\<close>.
  From it the same is derived for the whole sharded database, seen as one map from keys to live
  entries (\<open>db_live\<close>); every command of the server interprets it.
\<close>

section \<open>The sharded database\<close>

definition SHARDS :: nat where "SHARDS = 16"

record 'tx db =
  shards :: "shard list"
  pubsub :: "(bytes, 'tx) hash_map"

definition new_db :: "'tx db" where
  "new_db = \<lparr>shards = replicate SHARDS empty_shard, pubsub = []\<rparr>"

definition shard_index :: "(bytes \<Rightarrow> u64) \<Rightarrow> bytes \<Rightarrow> nat" where
  "shard_index h key = unat (h key) mod SHARDS"

definition shard_for :: "(bytes \<Rightarrow> u64) \<Rightarrow> bytes \<Rightarrow> 'tx db \<Rightarrow> shard" where
  "shard_for h key db = shards db ! shard_index h key"

definition with_shard ::
  "(bytes \<Rightarrow> u64) \<Rightarrow> bytes \<Rightarrow> (shard \<Rightarrow> 'r \<times> shard) \<Rightarrow> 'tx db \<Rightarrow> 'r \<times> 'tx db" where
  "with_shard h key f db =
     (case f (shard_for h key db) of
        (r, s) \<Rightarrow> (r, db\<lparr>shards := (shards db)[shard_index h key := s]\<rparr>))"

definition db_wf :: "(bytes \<Rightarrow> u64) \<Rightarrow> 'tx db \<Rightarrow> bool" where
  "db_wf h db \<longleftrightarrow> length (shards db) = SHARDS \<and>
     (\<forall>i \<in> {0..<SHARDS}. shard_wf (shards db ! i) \<and>
        (\<forall>(k, e) \<in> set (entries (shards db ! i)). shard_index h k = i))"

text \<open>All the entries, and the entries a command running at \<open>now\<close> sees.\<close>

definition db_at :: "(bytes \<Rightarrow> u64) \<Rightarrow> 'tx db \<Rightarrow> bytes \<Rightarrow> entry option" where
  "db_at h db k = entry_at (shard_for h k db) k"

definition db_live :: "(bytes \<Rightarrow> u64) \<Rightarrow> u128 \<Rightarrow> 'tx db \<Rightarrow> bytes \<Rightarrow> entry option" where
  "db_live h now db k = live now (db_at h db k)"

lemma shard_index_less [simp]: "shard_index h k < SHARDS"
  by (simp add: shard_index_def SHARDS_def)

lemma db_wf_length: "db_wf h db \<Longrightarrow> length (shards db) = SHARDS"
  by (simp add: db_wf_def)

lemma db_wf_shard: "db_wf h db \<Longrightarrow> shard_wf (shard_for h k db)"
  by (simp add: db_wf_def shard_for_def)

lemma db_wf_alt:
  "db_wf h db \<longleftrightarrow> length (shards db) = SHARDS \<and>
     (\<forall>i < SHARDS. shard_wf (shards db ! i) \<and>
        (\<forall>k. entry_at (shards db ! i) k \<noteq> None \<longrightarrow> shard_index h k = i))"
  by (force simp: db_wf_def entry_at_def map_of_eq_None_notin)

lemma db_wf_new: "db_wf h new_db"
  by (simp add: db_wf_alt new_db_def shard_wf_empty entry_at_empty)

lemma db_at_new: "db_at h new_db k = None"
  by (simp add: db_at_def shard_for_def new_db_def entry_at_empty)

lemma with_shard_pubsub: "pubsub (snd (with_shard h k f db)) = pubsub db"
  by (simp add: with_shard_def split: prod.splits)

lemma with_shard_fst: "fst (with_shard h k f db) = fst (f (shard_for h k db))"
  by (simp add: with_shard_def split: prod.splits)

lemma shards_with_shard:
  "shards (snd (with_shard h k f db)) = (shards db)[shard_index h k := snd (f (shard_for h k db))]"
  by (simp add: with_shard_def split: prod.splits)

section \<open>The contract of a single-key operation\<close>

text \<open>A shard operation that keeps the invariant and touches no key but \<open>k\<close>.\<close>

locale local_op =
  fixes k :: bytes and f :: "shard \<Rightarrow> 'r \<times> shard"
  assumes op_wf: "shard_wf s \<Longrightarrow> shard_wf (snd (f s))"
    and op_frame: "shard_wf s \<Longrightarrow> k' \<noteq> k \<Longrightarrow> entry_at (snd (f s)) k' = entry_at s k'"
begin

lemma db_wf_with_shard: "db_wf h db \<Longrightarrow> db_wf h (snd (with_shard h k f db))"
proof -
  assume wf: "db_wf h db"
  then have s: "shard_wf (shard_for h k db)" by (rule db_wf_shard)
  have home: "entry_at (snd (f (shard_for h k db))) k' \<noteq> None \<Longrightarrow> shard_index h k' = shard_index h k" for k'
    using wf op_frame [OF s, of k'] by (cases "k' = k") (auto simp: db_wf_alt shard_for_def)
  show ?thesis
    using wf op_wf [OF s] home
    by (auto simp: db_wf_alt shards_with_shard nth_list_update)
qed

lemma db_at_with_shard:
  assumes "db_wf h db"
  shows "db_at h (snd (with_shard h k f db)) =
           (db_at h db)(k := entry_at (snd (f (shard_for h k db))) k)"
proof
  fix k'
  show "db_at h (snd (with_shard h k f db)) k' =
          ((db_at h db)(k := entry_at (snd (f (shard_for h k db))) k)) k'"
    using db_wf_length [OF assms] op_frame [OF db_wf_shard [OF assms], of k' k]
    by (cases "shard_index h k' = shard_index h k")
       (auto simp: db_at_def shard_for_def shards_with_shard)
qed

end

text \<open>A change of the database that keeps the invariant and touches only the keys \<open>ks\<close>.\<close>

definition keeps :: "(bytes \<Rightarrow> u64) \<Rightarrow> bytes list \<Rightarrow> 'tx db \<Rightarrow> 'tx db \<Rightarrow> bool" where
  "keeps h ks db db' \<longleftrightarrow> db_wf h db' \<and> (\<forall>k. k \<notin> set ks \<longrightarrow> db_at h db' k = db_at h db k)"

lemma keeps_refl: "db_wf h db \<Longrightarrow> keeps h ks db db"
  by (simp add: keeps_def)

context local_op
begin

lemma keeps_with_shard: "db_wf h db \<Longrightarrow> keeps h [k] db (snd (with_shard h k f db))"
  by (simp add: keeps_def db_wf_with_shard db_at_with_shard)

end

text \<open>Its effect on the live entry of the key, at time \<open>now\<close>, is \<open>g\<close>.\<close>

definition at_key :: "bytes \<Rightarrow> (entry option \<Rightarrow> 'r \<times> entry option) \<Rightarrow>
    (bytes \<Rightarrow> entry option) \<Rightarrow> 'r \<times> (bytes \<Rightarrow> entry option)" where
  "at_key k g m = (case g (m k) of (r, eo) \<Rightarrow> (r, m(k := eo)))"

locale key_op = local_op +
  fixes now :: u128 and g :: "entry option \<Rightarrow> 'r \<times> entry option"
  assumes op_result: "shard_wf s \<Longrightarrow> fst (f s) = fst (g (live now (entry_at s k)))"
    and op_entry: "shard_wf s \<Longrightarrow> live now (entry_at (snd (f s)) k) = snd (g (live now (entry_at s k)))"
begin

lemma refines:
  assumes "db_wf h db"
  shows "at_key k g (db_live h now db) =
           (fst (with_shard h k f db), db_live h now (snd (with_shard h k f db)))"
  using op_result [OF db_wf_shard [OF assms]] op_entry [OF db_wf_shard [OF assms], of k]
  by (auto simp: at_key_def with_shard_fst db_live_def db_at_with_shard [OF assms] db_at_def
      fun_eq_iff split: prod.splits)

end

text \<open>An operation that only looks.\<close>

locale read_op =
  fixes k :: bytes and now :: u128 and r :: "shard \<Rightarrow> 'r" and q :: "entry option \<Rightarrow> 'r"
  assumes read_live: "shard_wf s \<Longrightarrow> r s = q (live now (entry_at s k))"

sublocale read_op \<subseteq> key_op k "\<lambda>s. (r s, s)" now "\<lambda>eo. (q eo, eo)"
  by unfold_locales (auto simp: read_live)

context read_op
begin

lemma read_refines: "db_wf h db \<Longrightarrow> r (shard_for h k db) = q (db_live h now db k)"
  by (simp add: read_live db_wf_shard db_live_def db_at_def)

end

end
