(* ===== verification/StringCmd.thy ===== *)
theory StringCmd
  imports Db
begin

text \<open>
  The string and expiration commands of \<^verbatim>\<open>src/src/cmd/string.rs\<close>. A function that works under
  the lock of one shard has a body on the shard (\<open>incr_in\<close> for \<open>incr\<close>) and is lifted to the
  database by \<^const>\<open>with_shard\<close>; commands over several keys are loops of such bodies. Beside each
  body stands what it means for the live entry of its key (\<open>spec_incr\<close>), and the interpretation
  of \<open>key_op\<close> that proves it.
\<close>

section \<open>Replies\<close>

definition OK :: frame where "OK = Simple ''OK''"

definition WRONGTYPE :: frame where
  "WRONGTYPE = Error ''WRONGTYPE Operation against a key holding the wrong kind of value''"

definition NOT_INT :: frame where
  "NOT_INT = Error ''ERR value is not an integer or out of range''"

definition OVERFLOW :: frame where
  "OVERFLOW = Error ''ERR increment or decrement would overflow''"

abbreviation string_entry :: "bytes \<Rightarrow> u128 option \<Rightarrow> entry" where
  "string_entry b d \<equiv> \<lparr>evalue = VString b, expires_at = d\<rparr>"

text \<open>\<open>shard.entries.entry(key).or_insert(default)\<close>: the entry it refers to, and the shard.\<close>

definition entry_or_insert :: "bytes \<Rightarrow> entry \<Rightarrow> shard \<Rightarrow> entry \<times> shard" where
  "entry_or_insert key dflt s = (case hm_get (entries s) key of
      Some e \<Rightarrow> (e, s)
    | None \<Rightarrow> (dflt, put_entry key dflt s))"

text \<open>The guard \<open>Some(e) if !entry_expired(e)\<close> of the reading commands.\<close>

definition unexpired :: "u128 \<Rightarrow> bytes \<Rightarrow> shard \<Rightarrow> entry option" where
  "unexpired now key s = (case hm_get (entries s) key of
      Some e \<Rightarrow> if \<not> entry_expired now e then Some e else None
    | None \<Rightarrow> None)"

lemma unexpired_live: "unexpired now key s = live now (entry_at s key)"
  by (simp add: unexpired_def live_def entry_at_def split: option.splits)

section \<open>Commands on one key\<close>

definition get_in :: "u128 \<Rightarrow> bytes \<Rightarrow> shard \<Rightarrow> frame" where
  "get_in now key s = (case unexpired now key s of
      Some e \<Rightarrow> (case evalue e of VString b \<Rightarrow> Bulk b | _ \<Rightarrow> WRONGTYPE)
    | None \<Rightarrow> Null)"

definition get :: "(bytes \<Rightarrow> u64) \<Rightarrow> clock \<Rightarrow> bytes \<Rightarrow> 'tx db \<Rightarrow> frame" where
  "get h c key db = get_in (c 0) key (shard_for h key db)"

definition strlen_in :: "u128 \<Rightarrow> bytes \<Rightarrow> shard \<Rightarrow> frame" where
  "strlen_in now key s = (case unexpired now key s of
      Some e \<Rightarrow> (case evalue e of VString b \<Rightarrow> Integer (i64_of_usize (length b)) | _ \<Rightarrow> WRONGTYPE)
    | None \<Rightarrow> Integer 0)"

definition strlen :: "(bytes \<Rightarrow> u64) \<Rightarrow> clock \<Rightarrow> bytes \<Rightarrow> 'tx db \<Rightarrow> frame" where
  "strlen h c key db = strlen_in (c 0) key (shard_for h key db)"

definition set_at_in :: "bytes \<Rightarrow> bytes \<Rightarrow> u128 option \<Rightarrow> shard \<Rightarrow> frame \<times> shard" where
  "set_at_in key val exp s =
     (OK, index_entry exp key (put_entry key (string_entry val exp) (unindex_old key s)))"

definition set_at ::
  "(bytes \<Rightarrow> u64) \<Rightarrow> bytes \<Rightarrow> bytes \<Rightarrow> u128 option \<Rightarrow> 'tx db \<Rightarrow> frame \<times> 'tx db" where
  "set_at h key val exp db =
     (if \<not> bulk_response_fits (length val) then (response_too_large, db)
      else with_shard h key (set_at_in key val exp) db)"

definition incr_in :: "u128 \<Rightarrow> bytes \<Rightarrow> i64 \<Rightarrow> shard \<Rightarrow> frame \<times> shard" where
  "incr_in now key delta s =
     (let (_, s) = expire_if_stale now key s;
          (e, s) = entry_or_insert key (string_entry ''0'' None) s
      in case evalue e of
           VString b \<Rightarrow> (case parse_i64_bytes b of
               None \<Rightarrow> (NOT_INT, s)
             | Some current \<Rightarrow> (case checked_add_i64 current delta of
                   None \<Rightarrow> (OVERFLOW, s)
                 | Some new \<Rightarrow> (Integer new, put_entry key (e\<lparr>evalue := VString (show_i64 new)\<rparr>) s)))
         | _ \<Rightarrow> (WRONGTYPE, s))"

definition incr :: "(bytes \<Rightarrow> u64) \<Rightarrow> clock \<Rightarrow> bytes \<Rightarrow> i64 \<Rightarrow> 'tx db \<Rightarrow> frame \<times> 'tx db" where
  "incr h c key delta db = with_shard h key (incr_in (c 0) key delta) db"

definition append_in :: "u128 \<Rightarrow> bytes \<Rightarrow> bytes \<Rightarrow> shard \<Rightarrow> frame \<times> shard" where
  "append_in now key suffix s =
     (let (_, s) = expire_if_stale now key s;
          (e, s) = entry_or_insert key (string_entry [] None) s
      in case evalue e of
           VString b \<Rightarrow> (case checked_add_usize (length b) (length suffix) of
               None \<Rightarrow> (response_too_large, s)
             | Some new_len \<Rightarrow>
                 if \<not> bulk_response_fits new_len then (response_too_large, s)
                 else (Integer (i64_of_usize (length (b @ suffix))),
                       put_entry key (e\<lparr>evalue := VString (b @ suffix)\<rparr>) s))
         | _ \<Rightarrow> (WRONGTYPE, s))"

definition append_cmd :: "(bytes \<Rightarrow> u64) \<Rightarrow> clock \<Rightarrow> bytes \<Rightarrow> bytes \<Rightarrow> 'tx db \<Rightarrow> frame \<times> 'tx db" where
  "append_cmd h c key suffix db = with_shard h key (append_in (c 0) key suffix) db"

text \<open>\<open>expire_at\<close> reads the clock twice: in \<open>expire_if_stale\<close> and for the deadline.\<close>

definition expire_at_in :: "clock \<Rightarrow> bytes \<Rightarrow> u128 \<Rightarrow> shard \<Rightarrow> frame \<times> shard" where
  "expire_at_in c key deadline s =
     (let (stale, s) = expire_if_stale (c 0) key s in
      if stale then (Integer 0, s)
      else if hm_get (entries s) key = None then (Integer 0, s)
      else if deadline \<le> c 1 then (Integer 1, snd (remove_entry key s))
      else
        let s = unindex_old key s;
            s = (case hm_get (entries s) key of
                   Some e \<Rightarrow> put_entry key (e\<lparr>expires_at := Some deadline\<rparr>) s | None \<Rightarrow> s)
        in (Integer 1, push_expiration deadline key s))"

definition expire_at :: "(bytes \<Rightarrow> u64) \<Rightarrow> clock \<Rightarrow> bytes \<Rightarrow> u128 \<Rightarrow> 'tx db \<Rightarrow> frame \<times> 'tx db" where
  "expire_at h c key deadline db = with_shard h key (expire_at_in c key deadline) db"

definition i64_try_from :: "u128 \<Rightarrow> i64 option" where
  "i64_try_from n = (if unat n < 2 ^ 63 then Some (word_of_nat (unat n)) else None)"

definition i64_MAX :: i64 where "i64_MAX = word_of_int i64_max"

definition ttl_in :: "u128 \<Rightarrow> bytes \<Rightarrow> bool \<Rightarrow> shard \<Rightarrow> frame" where
  "ttl_in now key in_ms s = (case hm_get (entries s) key of
      None \<Rightarrow> Integer (-2)
    | Some e \<Rightarrow> (case expires_at e of
          None \<Rightarrow> Integer (-1)
        | Some t \<Rightarrow>
            if t \<le> now then Integer (-2)
            else if in_ms then Integer (case i64_try_from (t - now) of Some n \<Rightarrow> n | None \<Rightarrow> i64_MAX)
            else Integer (case i64_try_from ((t - now) div 1000) of Some n \<Rightarrow> n | None \<Rightarrow> i64_MAX)))"

definition ttl :: "(bytes \<Rightarrow> u64) \<Rightarrow> clock \<Rightarrow> bytes \<Rightarrow> bool \<Rightarrow> 'tx db \<Rightarrow> frame" where
  "ttl h c key in_ms db = ttl_in (c 0) key in_ms (shard_for h key db)"

definition persist_in :: "u128 \<Rightarrow> bytes \<Rightarrow> shard \<Rightarrow> frame \<times> shard" where
  "persist_in now key s =
     (let (stale, s) = expire_if_stale now key s in
      if stale then (Integer 0, s)
      else (case hm_get (entries s) key of
          Some e \<Rightarrow> (case expires_at e of
              Some old \<Rightarrow>
                (Integer 1, unindex_expiration old key (put_entry key (e\<lparr>expires_at := None\<rparr>) s))
            | None \<Rightarrow> (Integer 0, s))
        | None \<Rightarrow> (Integer 0, s)))"

definition persist :: "(bytes \<Rightarrow> u64) \<Rightarrow> clock \<Rightarrow> bytes \<Rightarrow> 'tx db \<Rightarrow> frame \<times> 'tx db" where
  "persist h c key db = with_shard h key (persist_in (c 0) key) db"

section \<open>Commands on several keys\<close>

text \<open>The bodies of the loops of \<open>del\<close>, \<open>exists\<close>, \<open>mget\<close> and \<open>mset\<close>.\<close>

definition del_key :: "u128 \<Rightarrow> bytes \<Rightarrow> shard \<Rightarrow> i64 \<times> shard" where
  "del_key now key s =
     (let (stale, s) = expire_if_stale now key s in
      if stale then (0, s)
      else case remove_entry key s of (Some _, s) \<Rightarrow> (1, s) | (None, s) \<Rightarrow> (0, s))"

fun del_loop :: "(bytes \<Rightarrow> u64) \<Rightarrow> clock \<Rightarrow> nat \<Rightarrow> i64 \<Rightarrow> bytes list \<Rightarrow> 'tx db \<Rightarrow> i64 \<times> 'tx db" where
  "del_loop h c i removed [] db = (removed, db)"
| "del_loop h c i removed (key # keys) db =
     (let (n, db) = with_shard h key (del_key (c i) key) db
      in del_loop h c (Suc i) (removed + n) keys db)"

definition del :: "(bytes \<Rightarrow> u64) \<Rightarrow> clock \<Rightarrow> bytes list \<Rightarrow> 'tx db \<Rightarrow> frame \<times> 'tx db" where
  "del h c keys db = (case del_loop h c 0 0 keys db of (removed, db) \<Rightarrow> (Integer removed, db))"

fun exists_loop :: "(bytes \<Rightarrow> u64) \<Rightarrow> clock \<Rightarrow> nat \<Rightarrow> i64 \<Rightarrow> bytes list \<Rightarrow> 'tx db \<Rightarrow> i64" where
  "exists_loop h c i n [] db = n"
| "exists_loop h c i n (key # keys) db =
     exists_loop h c (Suc i)
       (if unexpired (c i) key (shard_for h key db) \<noteq> None then n + 1 else n) keys db"

definition exists :: "(bytes \<Rightarrow> u64) \<Rightarrow> clock \<Rightarrow> bytes list \<Rightarrow> 'tx db \<Rightarrow> frame" where
  "exists h c keys db = Integer (exists_loop h c 0 0 keys db)"

definition mget_key :: "u128 \<Rightarrow> nat \<Rightarrow> bytes \<Rightarrow> shard \<Rightarrow> (nat \<times> frame) option" where
  "mget_key now response_len key s =
     (case unexpired now key s of
        Some e \<Rightarrow> (case evalue e of
            VString b \<Rightarrow>
              Option.bind (resp_bulk_len (length b)) (\<lambda>bulk_len.
              map_option (\<lambda>l. (l, Bulk b)) (checked_add_response_len response_len bulk_len))
          | _ \<Rightarrow> map_option (\<lambda>l. (l, Null)) (checked_add_response_len response_len 5))
      | None \<Rightarrow> map_option (\<lambda>l. (l, Null)) (checked_add_response_len response_len 5))"

fun mget_loop ::
  "(bytes \<Rightarrow> u64) \<Rightarrow> clock \<Rightarrow> nat \<Rightarrow> nat \<Rightarrow> bytes list \<Rightarrow> 'tx db \<Rightarrow> frame list option" where
  "mget_loop h c i response_len [] db = Some []"
| "mget_loop h c i response_len (k # keys) db =
     (case mget_key (c i) response_len k (shard_for h k db) of
        None \<Rightarrow> None
      | Some (response_len, frame) \<Rightarrow>
          map_option (\<lambda>frames. frame # frames) (mget_loop h c (Suc i) response_len keys db))"

definition mget :: "(bytes \<Rightarrow> u64) \<Rightarrow> clock \<Rightarrow> bytes list \<Rightarrow> 'tx db \<Rightarrow> frame" where
  "mget h c keys db = (case resp_array_header_len (length keys) of
      None \<Rightarrow> response_too_large
    | Some response_len \<Rightarrow> (case mget_loop h c 0 response_len keys db of
          None \<Rightarrow> response_too_large
        | Some frames \<Rightarrow> Array frames))"

definition mset_key :: "bytes \<Rightarrow> bytes \<Rightarrow> shard \<Rightarrow> unit \<times> shard" where
  "mset_key k v s = ((), put_entry k (string_entry v None) (unindex_old k s))"

definition mset_cmd :: "(bytes \<Rightarrow> u64) \<Rightarrow> (bytes \<times> bytes) list \<Rightarrow> 'tx db \<Rightarrow> frame \<times> 'tx db" where
  "mset_cmd h pairs db =
     (if \<exists>p \<in> set pairs. \<not> bulk_response_fits (length (snd p)) then (response_too_large, db)
      else (OK, fold (\<lambda>(k, v) db. snd (with_shard h k (mset_key k v) db)) pairs db))"

section \<open>The Duration-based entry points\<close>

text \<open>
  \<open>string::set\<close> and \<open>string::expire\<close> take a \<open>Duration\<close>; its \<open>as_millis()\<close> is the parameter. The
  addition to \<open>now_millis()\<close> is unchecked in the source and wraps here.
\<close>

definition set_ex ::
  "(bytes \<Rightarrow> u64) \<Rightarrow> clock \<Rightarrow> bytes \<Rightarrow> bytes \<Rightarrow> u128 option \<Rightarrow> 'tx db \<Rightarrow> frame \<times> 'tx db" where
  "set_ex h c key val ex db = set_at h key val (map_option (\<lambda>ms. c 0 + ms) ex) db"

definition expire :: "(bytes \<Rightarrow> u64) \<Rightarrow> clock \<Rightarrow> bytes \<Rightarrow> u128 \<Rightarrow> 'tx db \<Rightarrow> frame \<times> 'tx db" where
  "expire h c key ms db = expire_at h (\<lambda>i. c (Suc i)) key (c 0 + ms) db"

section \<open>The commands through their contract\<close>

text \<open>
  The two ways a mutating command opens an entry: \<open>expire_if_stale\<close> (or the equivalent removal of
  an expired entry) followed by a lookup, or by \<open>or_insert\<close> of a default without a deadline.
\<close>

lemma open_entry:
  assumes "shard_wf s" "expires_at d = None" "entry_or_insert k d (drop_stale now k s) = (e, s')"
  shows "shard_wf s'" "entry_at s' = (entry_at s)(k \<mapsto> e)" "\<not> entry_expired now e"
    "e = (case live now (entry_at s k) of Some e \<Rightarrow> e | None \<Rightarrow> d)"
proof -
  note v = drop_stale_view [OF assms(1), of now k]
  have at: "hm_get (entries (drop_stale now k s)) = entry_at (drop_stale now k s)"
    by (simp add: entry_at_def)
  have "shard_wf s' \<and> entry_at s' = (entry_at s)(k \<mapsto> e) \<and> \<not> entry_expired now e \<and>
    e = (case live now (entry_at s k) of Some e \<Rightarrow> e | None \<Rightarrow> d)"
  proof (cases "live now (entry_at s k)")
    case None
    then have "e = d" "s' = put_entry k d (drop_stale now k s)"
      using assms(3) v(2) by (auto simp: entry_or_insert_def at)
    then show ?thesis
      using v None assms(2) by (simp add: wf_put_fresh entry_at_put entry_expired_def)
  next
    case (Some x)
    then have "e = x" "s' = drop_stale now k s"
      using assms(3) v(2) by (auto simp: entry_or_insert_def at)
    moreover have "\<not> entry_expired now x" using Some by (simp add: live_Some)
    ultimately show ?thesis using v Some by simp
  qed
  then show "shard_wf s'" "entry_at s' = (entry_at s)(k \<mapsto> e)" "\<not> entry_expired now e"
    "e = (case live now (entry_at s k) of Some e \<Rightarrow> e | None \<Rightarrow> d)" by blast+
qed

lemma expired_update_value [simp]: "entry_expired now (e\<lparr>evalue := v\<rparr>) = entry_expired now e"
  by (simp add: entry_expired_def)

text \<open>After the opening, a command leaves the entry or stores a new value with the same deadline.\<close>

lemma opened_update:
  assumes "shard_wf s'" "entry_at s' = m(k \<mapsto> e)" "\<not> entry_expired now e"
  shows "shard_wf (put_entry k (e\<lparr>evalue := v\<rparr>) s')"
    "entry_at (put_entry k (e\<lparr>evalue := v\<rparr>) s') = m(k \<mapsto> e\<lparr>evalue := v\<rparr>)"
    "live now (Some (e\<lparr>evalue := v\<rparr>)) = Some (e\<lparr>evalue := v\<rparr>)"
    "live now (Some e) = Some e"
  using assms by (auto intro!: wf_update_value simp: entry_at_put live_Some)

lemma expire_if_stale_pair: "\<exists>b. expire_if_stale now k s = (b, drop_stale now k s)"
  by (metis expire_if_stale_drop prod.collapse)

lemma expire_if_stale_cases:
  obtains (stale) e where "expire_if_stale now k s = (True, drop_stale now k s)"
      "entry_at s k = Some e" "entry_expired now e" "live now (entry_at s k) = None"
    | (fresh) "expire_if_stale now k s = (False, s)" "live now (entry_at s k) = entry_at s k"
proof (cases "fst (expire_if_stale now k s)")
  case True
  then obtain e where e: "entry_at s k = Some e" "entry_expired now e"
    by (auto simp: expire_if_stale_fst)
  have "expire_if_stale now k s = (True, drop_stale now k s)"
    using True by (simp add: prod_eq_iff expire_if_stale_drop)
  with e show thesis by (intro stale) (simp_all add: live_def)
next
  case False
  then have "expire_if_stale now k s = (False, s)"
    by (auto simp: expire_if_stale_def split: option.splits if_splits)
  moreover have "live now (entry_at s k) = entry_at s k"
    using False by (auto simp: expire_if_stale_fst live_def split: option.splits)
  ultimately show thesis by (rule fresh)
qed

subsection \<open>GET, STRLEN, TTL\<close>

definition spec_get :: "entry option \<Rightarrow> frame" where
  "spec_get eo = (case eo of
      None \<Rightarrow> Null
    | Some e \<Rightarrow> (case evalue e of VString b \<Rightarrow> Bulk b | _ \<Rightarrow> WRONGTYPE))"

definition spec_strlen :: "entry option \<Rightarrow> frame" where
  "spec_strlen eo = (case eo of
      None \<Rightarrow> Integer 0
    | Some e \<Rightarrow> (case evalue e of VString b \<Rightarrow> Integer (i64_of_usize (length b)) | _ \<Rightarrow> WRONGTYPE))"

text \<open>The remaining time in milliseconds or whole seconds, saturated at the largest \<open>i64\<close>.\<close>

definition spec_ttl :: "u128 \<Rightarrow> bool \<Rightarrow> entry option \<Rightarrow> frame" where
  "spec_ttl now in_ms eo = (case eo of
      None \<Rightarrow> Integer (-2)
    | Some e \<Rightarrow> (case expires_at e of
          None \<Rightarrow> Integer (-1)
        | Some t \<Rightarrow>
            let left = unat t - unat now in
            Integer (word_of_nat (min (if in_ms then left else left div 1000) (2 ^ 63 - 1)))))"

interpretation get: read_op k now "get_in now k" spec_get for now k
  by unfold_locales (simp add: get_in_def spec_get_def unexpired_live split: option.splits)

interpretation strlen: read_op k now "strlen_in now k" spec_strlen for now k
  by unfold_locales (simp add: strlen_in_def spec_strlen_def unexpired_live split: option.splits)

lemma i64_saturate:
  "(case i64_try_from n of Some m \<Rightarrow> m | None \<Rightarrow> i64_MAX) = word_of_nat (min (unat n) (2 ^ 63 - 1))"
  by (simp add: i64_try_from_def i64_MAX_def i64_max_def min_def)

lemma unat_u128_diff: "now < t \<Longrightarrow> unat (t - now) = unat t - unat (now :: u128)"
  by (simp add: unat_sub_if_size word_less_nat_alt)

lemma unat_div_1000: "unat ((x :: u128) div 1000) = unat x div 1000"
  by (simp add: unat_div)

interpretation ttl: read_op k now "ttl_in now k ms" "spec_ttl now ms" for now k ms
proof unfold_locales
  fix s assume "shard_wf s"
  show "ttl_in now k ms s = spec_ttl now ms (live now (entry_at s k))"
    by (auto simp: ttl_in_def spec_ttl_def live_def entry_expired_def entry_at_def i64_saturate
        unat_u128_diff unat_div_1000 Let_def split: option.splits)
qed

subsection \<open>SET, INCR, APPEND\<close>

definition spec_set :: "u128 \<Rightarrow> bytes \<Rightarrow> u128 option \<Rightarrow> entry option \<Rightarrow> frame \<times> entry option" where
  "spec_set now val exp eo = (OK, live now (Some (string_entry val exp)))"

definition spec_incr :: "i64 \<Rightarrow> entry option \<Rightarrow> frame \<times> entry option" where
  "spec_incr delta eo = (case eo of
      None \<Rightarrow> (Integer delta, Some (string_entry (show_i64 delta) None))
    | Some e \<Rightarrow> (case evalue e of
          VString b \<Rightarrow> (case parse_i64_bytes b of
              None \<Rightarrow> (NOT_INT, eo)
            | Some n \<Rightarrow>
                if in_i64 (sint n + sint delta)
                then (Integer (n + delta), Some (e\<lparr>evalue := VString (show_i64 (n + delta))\<rparr>))
                else (OVERFLOW, eo))
        | _ \<Rightarrow> (WRONGTYPE, eo)))"

definition spec_append :: "bytes \<Rightarrow> entry option \<Rightarrow> frame \<times> entry option" where
  "spec_append suffix eo = (case eo of
      None \<Rightarrow>
        if bulk_response_fits (length suffix)
        then (Integer (i64_of_usize (length suffix)), Some (string_entry suffix None))
        else (response_too_large, Some (string_entry [] None))
    | Some e \<Rightarrow> (case evalue e of
          VString b \<Rightarrow>
            if bulk_response_fits (length b + length suffix)
            then (Integer (i64_of_usize (length b + length suffix)), Some (e\<lparr>evalue := VString (b @ suffix)\<rparr>))
            else (response_too_large, eo)
        | _ \<Rightarrow> (WRONGTYPE, eo)))"

lemma set_at_view:
  assumes "shard_wf s"
  shows "shard_wf (snd (set_at_in k val exp s))"
    "entry_at (snd (set_at_in k val exp s)) = (entry_at s)(k \<mapsto> string_entry val exp)"
  using wf_store [OF assms, of "string_entry val exp" k]
  by (simp_all add: set_at_in_def entry_at_index_entry entry_at_put entry_at_unindex_old)

interpretation set_at: key_op k "set_at_in k val exp" now "spec_set now val exp" for k val exp now
  by unfold_locales (simp_all add: set_at_view spec_set_def, simp add: set_at_in_def)

lemma parse_zero: "parse_i64_bytes ''0'' = Some 0"
  by code_simp

lemma checked_add_bound: "checked_add_usize a b = None \<Longrightarrow> \<not> bulk_response_fits (a + b)"
  by (auto simp: checked_add_usize_def bulk_response_fits_iff limits_values split: if_splits)

lemma incr_view:
  assumes wf: "shard_wf s"
  shows "shard_wf (snd (incr_in now k delta s))"
    "k' \<noteq> k \<Longrightarrow> entry_at (snd (incr_in now k delta s)) k' = entry_at s k'"
    "fst (incr_in now k delta s) = fst (spec_incr delta (live now (entry_at s k)))"
    "live now (entry_at (snd (incr_in now k delta s)) k) = snd (spec_incr delta (live now (entry_at s k)))"
proof -
  obtain e s' where o: "entry_or_insert k (string_entry ''0'' None) (drop_stale now k s) = (e, s')"
    by force
  obtain b where b: "expire_if_stale now k s = (b, drop_stale now k s)"
    using expire_if_stale_pair by blast
  note e = open_entry [OF wf _ o, simplified]
  note u = opened_update [OF e(1,2,3)]
  have eq: "incr_in now k delta s = (case evalue e of
           VString b \<Rightarrow> (case parse_i64_bytes b of
               None \<Rightarrow> (NOT_INT, s')
             | Some current \<Rightarrow> (case checked_add_i64 current delta of
                   None \<Rightarrow> (OVERFLOW, s')
                 | Some new \<Rightarrow> (Integer new, put_entry k (e\<lparr>evalue := VString (show_i64 new)\<rparr>) s')))
         | _ \<Rightarrow> (WRONGTYPE, s'))"
    by (simp add: incr_in_def b o)
  show "shard_wf (snd (incr_in now k delta s))"
    "k' \<noteq> k \<Longrightarrow> entry_at (snd (incr_in now k delta s)) k' = entry_at s k'"
    using u e(1,2) by (auto simp: eq split: rvalue.splits option.splits)
  show "fst (incr_in now k delta s) = fst (spec_incr delta (live now (entry_at s k)))"
    "live now (entry_at (snd (incr_in now k delta s)) k) = snd (spec_incr delta (live now (entry_at s k)))"
    using u e(2,4) sint_i64_range [of delta]
    by (auto simp: eq spec_incr_def checked_add_i64_def parse_zero split: rvalue.splits option.splits)
qed

interpretation incr: key_op k "incr_in now k delta" now "spec_incr delta" for k now delta
  by unfold_locales (simp_all add: incr_view)

lemma append_view:
  assumes wf: "shard_wf s"
  shows "shard_wf (snd (append_in now k suffix s))"
    "k' \<noteq> k \<Longrightarrow> entry_at (snd (append_in now k suffix s)) k' = entry_at s k'"
    "fst (append_in now k suffix s) = fst (spec_append suffix (live now (entry_at s k)))"
    "live now (entry_at (snd (append_in now k suffix s)) k) = snd (spec_append suffix (live now (entry_at s k)))"
proof -
  obtain e s' where o: "entry_or_insert k (string_entry [] None) (drop_stale now k s) = (e, s')"
    by force
  obtain b where b: "expire_if_stale now k s = (b, drop_stale now k s)"
    using expire_if_stale_pair by blast
  note e = open_entry [OF wf _ o, simplified]
  note u = opened_update [OF e(1,2,3)]
  have eq: "append_in now k suffix s = (case evalue e of
      VString b \<Rightarrow>
        if bulk_response_fits (length b + length suffix)
        then (Integer (i64_of_usize (length b + length suffix)), put_entry k (e\<lparr>evalue := VString (b @ suffix)\<rparr>) s')
        else (response_too_large, s')
    | _ \<Rightarrow> (WRONGTYPE, s'))"
    using checked_add_bound
    by (auto simp: append_in_def b o split: rvalue.splits option.splits)
  show "shard_wf (snd (append_in now k suffix s))"
    "k' \<noteq> k \<Longrightarrow> entry_at (snd (append_in now k suffix s)) k' = entry_at s k'"
    using u e(1,2) by (auto simp: eq split: rvalue.splits)
  show "fst (append_in now k suffix s) = fst (spec_append suffix (live now (entry_at s k)))"
    "live now (entry_at (snd (append_in now k suffix s)) k) = snd (spec_append suffix (live now (entry_at s k)))"
    using u e(2,4) by (auto simp: eq spec_append_def split: rvalue.splits option.splits)
qed

interpretation append: key_op k "append_in now k suffix" now "spec_append suffix" for k now suffix
  by unfold_locales (simp_all add: append_view)

subsection \<open>EXPIRE, PERSIST, DEL, MSET\<close>

definition spec_expire_at :: "u128 \<Rightarrow> u128 \<Rightarrow> entry option \<Rightarrow> frame \<times> entry option" where
  "spec_expire_at now deadline eo = (case eo of
      None \<Rightarrow> (Integer 0, None)
    | Some e \<Rightarrow>
        if deadline \<le> now then (Integer 1, None)
        else (Integer 1, Some (e\<lparr>expires_at := Some deadline\<rparr>)))"

definition spec_persist :: "entry option \<Rightarrow> frame \<times> entry option" where
  "spec_persist eo = (case eo of
      None \<Rightarrow> (Integer 0, None)
    | Some e \<Rightarrow>
        if expires_at e = None then (Integer 0, eo) else (Integer 1, Some (e\<lparr>expires_at := None\<rparr>)))"

definition spec_del :: "entry option \<Rightarrow> i64 \<times> entry option" where
  "spec_del eo = ((if eo = None then 0 else 1), None)"

definition spec_mset :: "bytes \<Rightarrow> entry option \<Rightarrow> unit \<times> entry option" where
  "spec_mset v eo = ((), Some (string_entry v None))"

lemma expire_at_view:
  assumes wf: "shard_wf s"
  shows "shard_wf (snd (expire_at_in c k d s))"
    "k' \<noteq> k \<Longrightarrow> entry_at (snd (expire_at_in c k d s)) k' = entry_at s k'"
    "fst (expire_at_in (\<lambda>_. now) k d s) = fst (spec_expire_at now d (live now (entry_at s k)))"
    "live now (entry_at (snd (expire_at_in (\<lambda>_. now) k d s)) k) = snd (spec_expire_at now d (live now (entry_at s k)))"
proof -
  have eq: "expire_at_in c k d s =
      (if fst (expire_if_stale (c 0) k s) then (Integer 0, drop_stale (c 0) k s)
       else case entry_at s k of
           None \<Rightarrow> (Integer 0, s)
         | Some e \<Rightarrow>
             if d \<le> c 1 then (Integer 1, snd (remove_entry k s))
             else (Integer 1, index_entry (Some d) k (put_entry k (e\<lparr>expires_at := Some d\<rparr>) (unindex_old k s))))"
    for c
  proof (cases rule: expire_if_stale_cases [of "c 0" k s])
    case (stale e)
    then show ?thesis by (simp add: expire_at_in_def)
  next
    case fresh
    have "hm_get (entries (unindex_old k s)) = entry_at s"
      using entry_at_unindex_old [of k s] by (simp add: entry_at_def)
    with fresh show ?thesis
      by (simp add: expire_at_in_def index_entry_def entry_at_def split: option.splits)
  qed
  note v = drop_stale_view [OF wf, of "c 0" k] remove_entry_view [OF wf, of k]
  have st: "shard_wf (index_entry (Some d) k (put_entry k (e\<lparr>expires_at := Some d\<rparr>) (unindex_old k s)))" for e
    using wf_store [OF wf, of "e\<lparr>expires_at := Some d\<rparr>" k] by simp
  show "shard_wf (snd (expire_at_in c k d s))"
    "k' \<noteq> k \<Longrightarrow> entry_at (snd (expire_at_in c k d s)) k' = entry_at s k'"
    using v st wf by (auto simp: eq shard_view split: option.splits)
  note v' = drop_stale_view [OF wf, of now k] remove_entry_view [OF wf, of k]
  show "fst (expire_at_in (\<lambda>_. now) k d s) = fst (spec_expire_at now d (live now (entry_at s k)))"
    "live now (entry_at (snd (expire_at_in (\<lambda>_. now) k d s)) k) = snd (spec_expire_at now d (live now (entry_at s k)))"
    using v' by (auto simp: eq shard_view spec_expire_at_def expire_if_stale_fst live_def
        entry_expired_def split: option.splits)
qed

interpretation expire_at_local: local_op k "expire_at_in c k d" for k c d
  by unfold_locales (simp_all add: expire_at_view)

interpretation expire_at: key_op k "expire_at_in (\<lambda>_. now) k d" now "spec_expire_at now d" for k d now
  by unfold_locales (simp_all add: expire_at_view)

lemma wf_persist:
  assumes wf: "shard_wf s" and e: "entry_at s k = Some e" and old: "expires_at e = Some old"
  shows "shard_wf (unindex_expiration old k (put_entry k (e\<lparr>expires_at := None\<rparr>) s))"
proof -
  have sh: "shard_shape (put_entry k (e\<lparr>expires_at := None\<rparr>) s)"
    using wf_shape [OF wf] by (simp add: shape_put shape_hm_ok)
  then show ?thesis
    using wf_indexed [OF wf] e old
    by (auto simp: shard_wf_iff shape_unindex indexed_unindex entry_at_unindex entry_at_put indexed_put)
qed

lemma persist_view:
  assumes wf: "shard_wf s"
  shows "shard_wf (snd (persist_in now k s)) \<and>
    (k' \<noteq> k \<longrightarrow> entry_at (snd (persist_in now k s)) k' = entry_at s k') \<and>
    fst (persist_in now k s) = fst (spec_persist (live now (entry_at s k))) \<and>
    live now (entry_at (snd (persist_in now k s)) k) = snd (spec_persist (live now (entry_at s k)))"
proof (cases rule: expire_if_stale_cases [of now k s])
  case (stale e)
  then show ?thesis
    using drop_stale_view [OF wf, of now k] by (auto simp: persist_in_def spec_persist_def)
next
  case fresh
  have at: "hm_get (entries s) = entry_at s" by (simp add: entry_at_def)
  show ?thesis
  proof (cases "entry_at s k")
    case None
    then show ?thesis using fresh wf by (simp add: persist_in_def spec_persist_def at)
  next
    case (Some e)
    then show ?thesis using fresh wf wf_persist [OF wf Some]
      by (cases "expires_at e")
         (simp_all add: persist_in_def spec_persist_def at entry_at_unindex entry_at_put)
  qed
qed

interpretation persist: key_op k "persist_in now k" now spec_persist for k now
  using persist_view by unfold_locales blast+

lemma del_key_view:
  assumes wf: "shard_wf s"
  shows "shard_wf (snd (del_key now k s)) \<and>
    entry_at (snd (del_key now k s)) = (entry_at s)(k := None) \<and>
    fst (del_key now k s) = fst (spec_del (live now (entry_at s k)))"
proof -
  have eq: "(case remove_entry k s of (Some _, s) \<Rightarrow> (1, s) | (None, s) \<Rightarrow> (0, s)) =
      (if entry_at s k = None then 0 else 1 :: i64, snd (remove_entry k s))"
    using remove_entry_view(3) [OF wf, of k] by (cases "remove_entry k s") (auto split: option.splits)
  show ?thesis
  proof (cases rule: expire_if_stale_cases [of now k s])
    case (stale e)
    then show ?thesis using drop_stale_view [OF wf, of now k] by (simp add: del_key_def spec_del_def)
  next
    case fresh
    then show ?thesis using remove_entry_view [OF wf, of k]
      by (simp add: del_key_def eq spec_del_def)
  qed
qed

interpretation del: key_op k "del_key now k" now spec_del for k now
  using del_key_view by unfold_locales (auto simp: spec_del_def)

interpretation mset: key_op k "mset_key k v" now "spec_mset v" for k v now
proof unfold_locales
  fix s assume wf: "shard_wf s"
  show "shard_wf (snd (mset_key k v s))"
    using wf_store [OF wf, of "string_entry v None" k] by (simp add: mset_key_def index_entry_def)
qed (simp_all add: mset_key_def shard_view spec_mset_def)

section \<open>Commands on several keys, on the live key space\<close>

text \<open>
  At one instant (the clock reads \<open>now\<close> throughout) the loops compute set operations on the map
  of live entries: \<open>DEL\<close> restricts it and counts the distinct keys it removed, \<open>EXISTS\<close> counts
  with repetitions, \<open>MGET\<close> looks every key up, and \<open>MSET\<close> overrides the map.
\<close>

lemma del_step:
  assumes "db_wf h db"
  shows "db_wf h (snd (with_shard h k (del_key now k) db))"
    "db_at h (snd (with_shard h k (del_key now k) db)) = (db_at h db)(k := None)"
    "fst (with_shard h k (del_key now k) db) = (if db_live h now db k = None then 0 else 1)"
  using del.db_wf_with_shard [OF assms] del.db_at_with_shard [OF assms]
    del_key_view [OF db_wf_shard [OF assms], of now k k]
  by (simp_all add: with_shard_fst spec_del_def db_live_def db_at_def)

lemma del_loop_wf:
  "db_wf h db \<Longrightarrow>
   db_wf h (snd (del_loop h c i n keys db)) \<and>
   db_at h (snd (del_loop h c i n keys db)) = db_at h db |` (- set keys)"
proof (induction keys arbitrary: i n db)
  case (Cons k keys)
  then show ?case
    using Cons.IH [OF del_step(1) [OF Cons.prems, of k "c i"]] del_step(2) [OF Cons.prems, of k "c i"]
    by (auto simp: case_prod_beta Let_def restrict_map_def fun_eq_iff)
qed (simp add: restrict_map_def)

lemma del_loop_count:
  "db_wf h db \<Longrightarrow>
   fst (del_loop h (\<lambda>_. now) i n keys db) =
     n + of_nat (card (set keys \<inter> dom (db_live h now db)))"
proof (induction keys arbitrary: i n db)
  case (Cons k keys)
  let ?db = "snd (with_shard h k (del_key now k) db)"
  note st = del_step [OF Cons.prems, of k now]
  have dom: "dom (db_live h now ?db) = dom (db_live h now db) - {k}"
    using st(2) by (auto simp: db_live_def dom_def)
  have "card (set (k # keys) \<inter> dom (db_live h now db)) =
      (if db_live h now db k = None then 0 else 1) + card (set keys \<inter> dom (db_live h now ?db))"
  proof (cases "db_live h now db k")
    case None
    then have "set (k # keys) \<inter> dom (db_live h now db) = set keys \<inter> dom (db_live h now ?db)"
      using dom by auto
    then show ?thesis using None by simp
  next
    case (Some e)
    then have "set (k # keys) \<inter> dom (db_live h now db) = insert k (set keys \<inter> dom (db_live h now ?db))"
      using dom by auto
    then show ?thesis using Some dom by simp
  qed
  then show ?case
    using Cons.IH [OF st(1), of "Suc i" "n + fst (with_shard h k (del_key now k) db)"] st(3)
    by (simp add: case_prod_beta Let_def)
qed simp

lemma exists_loop_count:
  "db_wf h db \<Longrightarrow>
   exists_loop h (\<lambda>_. now) i n keys db =
     n + of_nat (length (filter (\<lambda>k. db_live h now db k \<noteq> None) keys))"
  by (induction keys arbitrary: i n) (auto simp: unexpired_live db_live_def db_at_def)

definition spec_mget :: "(bytes \<Rightarrow> entry option) \<Rightarrow> bytes \<Rightarrow> frame" where
  "spec_mget m k = (case m k of
      Some e \<Rightarrow> (case evalue e of VString b \<Rightarrow> Bulk b | _ \<Rightarrow> Null)
    | None \<Rightarrow> Null)"

lemma mget_key_eq:
  assumes "len \<le> MAX_RESPONSE_FRAME_BYTES"
  shows "mget_key now len k s =
    (let f = spec_mget (\<lambda>_. live now (entry_at s k)) k in
     if len + length (encode f) \<le> MAX_RESPONSE_FRAME_BYTES then Some (len + length (encode f), f) else None)"
proof -
  have five: "checked_add_response_len len 5 =
      (if len + 5 \<le> MAX_RESPONSE_FRAME_BYTES then Some (len + 5) else None)"
    using checked_add_response_len_Some [of len 5] checked_add_response_len_None [of len 5] by auto
  have null: "length (encode Null) = 5" by simp
  have bulk: "Option.bind (resp_bulk_len n) (\<lambda>x. map_option f (checked_add_response_len len x)) =
      map_option f (Option.bind (resp_bulk_len n) (checked_add_response_len len))" for n and f :: "nat \<Rightarrow> nat \<times> frame"
    by (cases "resp_bulk_len n") auto
  show ?thesis
    by (auto simp: mget_key_def unexpired_live spec_mget_def Let_def five null bulk collect_step [OF assms]
        length_encode_Bulk simp del: encode.simps split: option.splits rvalue.splits)
qed

lemma mget_loop_eq:
  "len \<le> MAX_RESPONSE_FRAME_BYTES \<Longrightarrow>
   mget_loop h (\<lambda>_. now) i len keys db =
     (let fs = map (spec_mget (db_live h now db)) keys in
      if len + length (concat (map encode fs)) \<le> MAX_RESPONSE_FRAME_BYTES then Some fs else None)"
proof (induction keys arbitrary: i len)
  case (Cons k keys)
  have "spec_mget (\<lambda>_. live now (entry_at (shard_for h k db) k)) k = spec_mget (db_live h now db) k"
    by (simp add: spec_mget_def db_live_def db_at_def)
  with Cons show ?case
    by (auto simp: mget_key_eq Let_def add.assoc simp del: encode.simps)
qed simp

lemma mset_step:
  assumes "db_wf h db"
  shows "db_wf h (snd (with_shard h k (mset_key k v) db))"
    "db_at h (snd (with_shard h k (mset_key k v) db)) = (db_at h db)(k \<mapsto> string_entry v None)"
  using mset.db_wf_with_shard [OF assms] mset.db_at_with_shard [OF assms]
  by (simp_all add: mset_key_def shard_view)

lemma mset_fold_view:
  "db_wf h db \<Longrightarrow>
   db_wf h (fold (\<lambda>(k, v) db. snd (with_shard h k (mset_key k v) db)) ps db) \<and>
   db_at h (fold (\<lambda>(k, v) db. snd (with_shard h k (mset_key k v) db)) ps db) =
     db_at h db ++ map_of (rev (map (\<lambda>(k, v). (k, string_entry v None)) ps)) \<and>
   pubsub (fold (\<lambda>(k, v) db. snd (with_shard h k (mset_key k v) db)) ps db) = pubsub db"
proof (induction ps arbitrary: db)
  case (Cons p ps)
  obtain k v where p: "p = (k, v)" by (cases p)
  show ?case
    using Cons.IH [OF mset_step(1) [OF Cons.prems, of k v]] mset_step(2) [OF Cons.prems, of k v]
    by (auto simp: p with_shard_pubsub map_add_def fun_eq_iff split: option.splits)
qed simp

end
