(* ===== verification/ListCmd.thy ===== *)
theory ListCmd
  imports StringCmd
begin

text \<open>
  The list commands of \<^verbatim>\<open>src/src/cmd/list.rs\<close>. A \<open>VecDeque\<close> is a list, its front first.
  \<open>push\<close> and \<open>pop\<close> are one function each, with the side as an argument, as in the source;
  \<open>LRANGE\<close> and \<open>LINDEX\<close> keep the source's signed 64-bit index arithmetic.
\<close>

section \<open>Pushing\<close>

datatype side = LeftSide | RightSide

abbreviation list_entry :: "bytes list \<Rightarrow> u128 option \<Rightarrow> entry" where
  "list_entry l d \<equiv> \<lparr>evalue = VList l, expires_at = d\<rparr>"

text \<open>The loop \<open>for v in values\<close> over \<open>push_front\<close> or \<open>push_back\<close>.\<close>

definition push_values :: "side \<Rightarrow> bytes list \<Rightarrow> bytes list \<Rightarrow> bytes list" where
  "push_values sd vs l =
     fold (\<lambda>v l. case sd of LeftSide \<Rightarrow> v # l | RightSide \<Rightarrow> l @ [v]) vs l"

definition push_in :: "u128 \<Rightarrow> bytes \<Rightarrow> bytes list \<Rightarrow> side \<Rightarrow> shard \<Rightarrow> frame \<times> shard" where
  "push_in now key vs sd s =
     (let s = drop_stale now key s;
          (e, s) = entry_or_insert key (list_entry [] None) s
      in case evalue e of
           VList l \<Rightarrow>
             let l = push_values sd vs l
             in (Integer (i64_of_usize (length l)), put_entry key (e\<lparr>evalue := VList l\<rparr>) s)
         | _ \<Rightarrow> (WRONGTYPE, s))"

definition push :: "(bytes \<Rightarrow> u64) \<Rightarrow> clock \<Rightarrow> bytes \<Rightarrow> bytes list \<Rightarrow> side \<Rightarrow> 'tx db \<Rightarrow> frame \<times> 'tx db" where
  "push h c key vs sd db = with_shard h key (push_in (c 0) key vs sd) db"

definition lpush :: "(bytes \<Rightarrow> u64) \<Rightarrow> clock \<Rightarrow> bytes \<Rightarrow> bytes list \<Rightarrow> 'tx db \<Rightarrow> frame \<times> 'tx db" where
  "lpush h c key vs db = push h c key vs LeftSide db"

definition rpush :: "(bytes \<Rightarrow> u64) \<Rightarrow> clock \<Rightarrow> bytes \<Rightarrow> bytes list \<Rightarrow> 'tx db \<Rightarrow> frame \<times> 'tx db" where
  "rpush h c key vs db = push h c key vs RightSide db"

section \<open>Popping\<close>

text \<open>The loop that pops \<open>n\<close> times and collects what it gets.\<close>

fun pop_values :: "side \<Rightarrow> nat \<Rightarrow> bytes list \<Rightarrow> bytes list \<times> bytes list" where
  "pop_values sd 0 l = ([], l)"
| "pop_values sd (Suc n) l =
     (case l of
        [] \<Rightarrow> pop_values sd n l
      | _ # _ \<Rightarrow>
          let (v, l') = (case sd of LeftSide \<Rightarrow> (hd l, tl l) | RightSide \<Rightarrow> (last l, butlast l));
              (popped, l'') = pop_values sd n l'
          in (v # popped, l''))"

definition pop_array_response_too_large :: "bytes list \<Rightarrow> nat \<Rightarrow> side \<Rightarrow> bool" where
  "pop_array_response_too_large l n sd = (case resp_array_header_len n of
      None \<Rightarrow> True
    | Some response_len \<Rightarrow>
        collect_bulks response_len (case sd of LeftSide \<Rightarrow> take n l | RightSide \<Rightarrow> take n (rev l)) = None)"

text \<open>
  The \<open>unwrap\<close> of the popped element is reached only with a popped element: \<open>n\<close> is positive and
  at most the length of the list (lemma \<open>pop_values_eq\<close>).
\<close>

definition pop_in :: "u128 \<Rightarrow> bytes \<Rightarrow> nat option \<Rightarrow> side \<Rightarrow> shard \<Rightarrow> frame \<times> shard" where
  "pop_in now key cnt sd s =
     (let s = drop_stale now key s in
      case hm_get (entries s) key of
        None \<Rightarrow> (case cnt of None \<Rightarrow> Null | Some _ \<Rightarrow> NullArray, s)
      | Some e \<Rightarrow> (case evalue e of
          VList l \<Rightarrow>
            let n = min (case cnt of Some c \<Rightarrow> c | None \<Rightarrow> 1) (length l) in
            if n = 0 then (case cnt of None \<Rightarrow> Null | Some _ \<Rightarrow> Array [], s)
            else if cnt \<noteq> None \<and> pop_array_response_too_large l n sd then (response_too_large, s)
            else
              let (popped, l) = pop_values sd n l;
                  s = put_entry key (e\<lparr>evalue := VList l\<rparr>) s;
                  s = (if l = [] then snd (remove_entry key s) else s)
              in (case cnt of None \<Rightarrow> Bulk (hd popped) | Some _ \<Rightarrow> Array (map Bulk popped), s)
        | _ \<Rightarrow> (WRONGTYPE, s)))"

definition pop :: "(bytes \<Rightarrow> u64) \<Rightarrow> clock \<Rightarrow> bytes \<Rightarrow> nat option \<Rightarrow> side \<Rightarrow> 'tx db \<Rightarrow> frame \<times> 'tx db" where
  "pop h c key cnt sd db = with_shard h key (pop_in (c 0) key cnt sd) db"

definition lpop :: "(bytes \<Rightarrow> u64) \<Rightarrow> clock \<Rightarrow> bytes \<Rightarrow> nat option \<Rightarrow> 'tx db \<Rightarrow> frame \<times> 'tx db" where
  "lpop h c key cnt db = pop h c key cnt LeftSide db"

definition rpop :: "(bytes \<Rightarrow> u64) \<Rightarrow> clock \<Rightarrow> bytes \<Rightarrow> nat option \<Rightarrow> 'tx db \<Rightarrow> frame \<times> 'tx db" where
  "rpop h c key cnt db = pop h c key cnt RightSide db"

section \<open>Reading\<close>

definition resolve_index :: "i64 \<Rightarrow> nat \<Rightarrow> nat option" where
  "resolve_index idx len =
     (if sint idx \<ge> 0 then
        let u = nat (sint idx) in if u < len then Some u else None
      else
        let from_end = nat (- sint idx) in
        if from_end = 0 \<or> from_end > len then None else Some (len - from_end))"

text \<open>The body of \<open>lrange\<close> once the list is found.\<close>

definition lrange_list :: "i64 \<Rightarrow> i64 \<Rightarrow> bytes list \<Rightarrow> frame" where
  "lrange_list start stop l =
     (let len = i64_of_usize (length l) in
      if len = 0 then Array []
      else
        let resolve = (\<lambda>i :: i64. if sint i < 0 then len + i else i);
            start_r = resolve start;
            stop_r = resolve stop
        in if sint start_r \<ge> sint len \<or> sint stop_r < 0 then Array []
           else
             let start_idx = nat (max (sint start_r) 0);
                 stop_idx = nat (min (sint stop_r) (sint len - 1))
             in if start_idx > stop_idx then Array []
                else let cnt = stop_idx - start_idx + 1
                     in bulk_array cnt (take cnt (drop start_idx l)))"

definition lrange_in :: "u128 \<Rightarrow> bytes \<Rightarrow> i64 \<Rightarrow> i64 \<Rightarrow> shard \<Rightarrow> frame" where
  "lrange_in now key start stop s = (case unexpired now key s of
      None \<Rightarrow> Array []
    | Some e \<Rightarrow> (case evalue e of VList l \<Rightarrow> lrange_list start stop l | _ \<Rightarrow> WRONGTYPE))"

definition lrange :: "(bytes \<Rightarrow> u64) \<Rightarrow> clock \<Rightarrow> bytes \<Rightarrow> i64 \<Rightarrow> i64 \<Rightarrow> 'tx db \<Rightarrow> frame" where
  "lrange h c key start stop db = lrange_in (c 0) key start stop (shard_for h key db)"

definition llen_in :: "u128 \<Rightarrow> bytes \<Rightarrow> shard \<Rightarrow> frame" where
  "llen_in now key s = (case unexpired now key s of
      None \<Rightarrow> Integer 0
    | Some e \<Rightarrow> (case evalue e of VList l \<Rightarrow> Integer (i64_of_usize (length l)) | _ \<Rightarrow> WRONGTYPE))"

definition llen :: "(bytes \<Rightarrow> u64) \<Rightarrow> clock \<Rightarrow> bytes \<Rightarrow> 'tx db \<Rightarrow> frame" where
  "llen h c key db = llen_in (c 0) key (shard_for h key db)"

definition lindex_in :: "u128 \<Rightarrow> bytes \<Rightarrow> i64 \<Rightarrow> shard \<Rightarrow> frame" where
  "lindex_in now key idx s = (case unexpired now key s of
      None \<Rightarrow> Null
    | Some e \<Rightarrow> (case evalue e of
        VList l \<Rightarrow> (case resolve_index idx (length l) of Some u \<Rightarrow> Bulk (l ! u) | None \<Rightarrow> Null)
      | _ \<Rightarrow> WRONGTYPE))"

definition lindex :: "(bytes \<Rightarrow> u64) \<Rightarrow> clock \<Rightarrow> bytes \<Rightarrow> i64 \<Rightarrow> 'tx db \<Rightarrow> frame" where
  "lindex h c key idx db = lindex_in (c 0) key idx (shard_for h key db)"

section \<open>The commands through their contract\<close>

lemma push_values_eq:
  "push_values sd vs l = (case sd of LeftSide \<Rightarrow> rev vs @ l | RightSide \<Rightarrow> l @ vs)"
  by (cases sd; induction vs arbitrary: l) (auto simp: push_values_def)

lemma pop_values_eq:
  "n \<le> length l \<Longrightarrow> pop_values sd n l =
     (case sd of LeftSide \<Rightarrow> (take n l, drop n l)
               | RightSide \<Rightarrow> (take n (rev l), take (length l - n) l))"
proof (induction sd n l rule: pop_values.induct)
  case (2 sd n l)
  show ?case
  proof (cases sd)
    case LeftSide
    with 2 show ?thesis by (cases l) auto
  next
    case RightSide
    from "2.prems" obtain xs x where l: "l = xs @ [x]" by (cases l rule: rev_cases) auto
    from "2.prems" obtain y ys where c: "l = y # ys" by (cases l) auto
    have "pop_values sd n xs = (take n (rev xs), take (length xs - n) xs)"
      using "2.IH"(2) [OF c, of "(last l, butlast l)" "last l" "butlast l"] "2.prems" RightSide l by simp
    moreover have "pop_values sd (Suc n) l =
        (case pop_values sd n (butlast l) of (popped, l'') \<Rightarrow> (last l # popped, l''))"
      by (simp add: c RightSide)
    ultimately show ?thesis using RightSide "2.prems" by (simp add: l)
  qed
qed (simp split: side.split)

text \<open>The elements a pop takes, in the order it returns them, and what it leaves.\<close>

definition popped :: "side \<Rightarrow> nat \<Rightarrow> bytes list \<Rightarrow> bytes list" where
  "popped sd n l = (case sd of LeftSide \<Rightarrow> take n l | RightSide \<Rightarrow> take n (rev l))"

definition unpopped :: "side \<Rightarrow> nat \<Rightarrow> bytes list \<Rightarrow> bytes list" where
  "unpopped sd n l = (case sd of LeftSide \<Rightarrow> drop n l | RightSide \<Rightarrow> take (length l - n) l)"

definition spec_push :: "bytes list \<Rightarrow> side \<Rightarrow> entry option \<Rightarrow> frame \<times> entry option" where
  "spec_push vs sd eo =
     (let e = (case eo of Some e \<Rightarrow> e | None \<Rightarrow> list_entry [] None) in
      case evalue e of
        VList l \<Rightarrow>
          let l' = (case sd of LeftSide \<Rightarrow> rev vs @ l | RightSide \<Rightarrow> l @ vs)
          in (Integer (i64_of_usize (length l')), Some (e\<lparr>evalue := VList l'\<rparr>))
      | _ \<Rightarrow> (WRONGTYPE, eo))"

definition spec_pop :: "nat option \<Rightarrow> side \<Rightarrow> entry option \<Rightarrow> frame \<times> entry option" where
  "spec_pop cnt sd eo = (case eo of
      None \<Rightarrow> (case cnt of None \<Rightarrow> Null | Some _ \<Rightarrow> NullArray, None)
    | Some e \<Rightarrow> (case evalue e of
        VList l \<Rightarrow>
          let n = min (case cnt of Some c \<Rightarrow> c | None \<Rightarrow> 1) (length l);
              reply = (case cnt of None \<Rightarrow> Bulk (hd (popped sd n l)) | Some _ \<Rightarrow> Array (map Bulk (popped sd n l)))
          in if n = 0 then (case cnt of None \<Rightarrow> Null | Some _ \<Rightarrow> Array [], eo)
             else if cnt \<noteq> None \<and> \<not> fits_response reply then (response_too_large, eo)
             else (reply, if n = length l then None else Some (e\<lparr>evalue := VList (unpopped sd n l)\<rparr>))
      | _ \<Rightarrow> (WRONGTYPE, eo)))"

definition spec_lrange :: "i64 \<Rightarrow> i64 \<Rightarrow> entry option \<Rightarrow> frame" where
  "spec_lrange start stop eo = (case eo of
      None \<Rightarrow> Array []
    | Some e \<Rightarrow> (case evalue e of VList l \<Rightarrow> lrange_list start stop l | _ \<Rightarrow> WRONGTYPE))"

definition spec_llen :: "entry option \<Rightarrow> frame" where
  "spec_llen eo = (case eo of
      None \<Rightarrow> Integer 0
    | Some e \<Rightarrow> (case evalue e of VList l \<Rightarrow> Integer (i64_of_usize (length l)) | _ \<Rightarrow> WRONGTYPE))"

definition spec_lindex :: "i64 \<Rightarrow> entry option \<Rightarrow> frame" where
  "spec_lindex idx eo = (case eo of
      None \<Rightarrow> Null
    | Some e \<Rightarrow> (case evalue e of
        VList l \<Rightarrow> (case resolve_index idx (length l) of Some u \<Rightarrow> Bulk (l ! u) | None \<Rightarrow> Null)
      | _ \<Rightarrow> WRONGTYPE))"

interpretation lrange: read_op k now "lrange_in now k start stop" "spec_lrange start stop" for now k start stop
  by unfold_locales (simp add: lrange_in_def spec_lrange_def unexpired_live)

interpretation llen: read_op k now "llen_in now k" spec_llen for now k
  by unfold_locales (simp add: llen_in_def spec_llen_def unexpired_live)

interpretation lindex: read_op k now "lindex_in now k idx" "spec_lindex idx" for now k idx
  by unfold_locales (simp add: lindex_in_def spec_lindex_def unexpired_live)

lemma push_view:
  assumes wf: "shard_wf s"
  shows "shard_wf (snd (push_in now k vs sd s))"
    "k' \<noteq> k \<Longrightarrow> entry_at (snd (push_in now k vs sd s)) k' = entry_at s k'"
    "fst (push_in now k vs sd s) = fst (spec_push vs sd (live now (entry_at s k)))"
    "live now (entry_at (snd (push_in now k vs sd s)) k) = snd (spec_push vs sd (live now (entry_at s k)))"
proof -
  obtain e s' where o: "entry_or_insert k (list_entry [] None) (drop_stale now k s) = (e, s')"
    by force
  note e = open_entry [OF wf _ o, simplified]
  note u = opened_update [OF e(1,2,3)]
  have eq: "push_in now k vs sd s = (case evalue e of
           VList l \<Rightarrow> (Integer (i64_of_usize (length (push_values sd vs l))),
                       put_entry k (e\<lparr>evalue := VList (push_values sd vs l)\<rparr>) s')
         | _ \<Rightarrow> (WRONGTYPE, s'))"
    by (simp add: push_in_def o Let_def split: rvalue.splits)
  show "shard_wf (snd (push_in now k vs sd s))"
    "k' \<noteq> k \<Longrightarrow> entry_at (snd (push_in now k vs sd s)) k' = entry_at s k'"
    using u e(1,2) by (auto simp: eq split: rvalue.splits)
  show "fst (push_in now k vs sd s) = fst (spec_push vs sd (live now (entry_at s k)))"
    "live now (entry_at (snd (push_in now k vs sd s)) k) = snd (spec_push vs sd (live now (entry_at s k)))"
    using u e(2,4)
    by (auto simp: eq spec_push_def push_values_eq Let_def split: rvalue.splits option.splits)
qed

interpretation push: key_op k "push_in now k vs sd" now "spec_push vs sd" for k now vs sd
  by unfold_locales (simp_all add: push_view)

lemma pop_too_large_eq:
  "n \<le> length l \<Longrightarrow>
   pop_array_response_too_large l n sd = (\<not> fits_response (Array (map Bulk (popped sd n l))))"
proof -
  assume n: "n \<le> length l"
  let ?bs = "popped sd n l"
  have len: "length ?bs = n" using n by (simp add: popped_def split: side.splits)
  have "pop_array_response_too_large l n sd = (case resp_array_header_len (length ?bs) of
      None \<Rightarrow> True | Some m \<Rightarrow> collect_bulks m ?bs = None)"
    by (simp add: pop_array_response_too_large_def len) (simp add: popped_def split: option.splits side.splits)
  also have "\<dots> = (\<not> fits_response (Array (map Bulk ?bs)))"
    by (rule collect_none_iff)
  finally show ?thesis .
qed

lemma popped_unpopped:
  "n \<le> length l \<Longrightarrow> pop_values sd n l = (popped sd n l, unpopped sd n l)"
  "n \<le> length l \<Longrightarrow> unpopped sd n l = [] \<longleftrightarrow> n = length l"
  by (auto simp: pop_values_eq popped_def unpopped_def split: side.splits)

lemma pop_view:
  assumes wf: "shard_wf s"
  shows "shard_wf (snd (pop_in now k cnt sd s)) \<and>
    (k' \<noteq> k \<longrightarrow> entry_at (snd (pop_in now k cnt sd s)) k' = entry_at s k') \<and>
    fst (pop_in now k cnt sd s) = fst (spec_pop cnt sd (live now (entry_at s k))) \<and>
    live now (entry_at (snd (pop_in now k cnt sd s)) k) = snd (spec_pop cnt sd (live now (entry_at s k)))"
proof -
  define t where "t = drop_stale now k s"
  note v = drop_stale_view [OF wf, of now k, folded t_def]
  have at: "hm_get (entries t) = entry_at t" by (simp add: entry_at_def)
  show ?thesis
  proof (cases "live now (entry_at s k)")
    case None
    then show ?thesis using v by (simp add: pop_in_def spec_pop_def t_def [symmetric] at)
  next
    case (Some e)
    then have e: "entry_at t k = Some e" "\<not> entry_expired now e" using v(2) by (simp_all add: live_Some)
    have le: "live now (Some e) = Some e" using e(2) by (simp add: live_Some)
    show ?thesis
    proof (cases "evalue e")
      case (VList l)
      define n where "n = min (case cnt of Some c \<Rightarrow> c | None \<Rightarrow> 1) (length l)"
      have n: "n \<le> length l" by (simp add: n_def)
      define e' where "e' = e\<lparr>evalue := VList (unpopped sd n l)\<rparr>"
      define t1 where "t1 = put_entry k e' t"
      have t1: "shard_wf t1" "entry_at t1 = (entry_at s)(k \<mapsto> e')" "\<not> entry_expired now e'"
        unfolding t1_def e'_def using v e by (auto intro!: wf_update_value simp: entry_at_put)
      have live_e': "live now (Some e') = Some e'" "live now (Some e) = Some e"
        using t1(3) e(2) by (simp_all add: live_Some)
      define t2 where "t2 = (if n = length l then snd (remove_entry k t1) else t1)"
      have t2: "shard_wf t2" "entry_at t2 = (entry_at s)(k := if n = length l then None else Some e')"
        using t1 remove_entry_view [OF t1(1), of k] by (simp_all add: t2_def)
      have eq: "pop_in now k cnt sd s =
          (if n = 0 then (case cnt of None \<Rightarrow> Null | Some _ \<Rightarrow> Array [], t)
           else if cnt \<noteq> None \<and> \<not> fits_response (Array (map Bulk (popped sd n l))) then (response_too_large, t)
           else (case cnt of None \<Rightarrow> Bulk (hd (popped sd n l)) | Some _ \<Rightarrow> Array (map Bulk (popped sd n l)), t2))"
        unfolding pop_in_def t_def [symmetric] at e option.case VList rvalue.case n_def [symmetric] Let_def
          pop_too_large_eq [OF n] popped_unpopped(1) [OF n] prod.case e'_def [symmetric] t1_def [symmetric]
          popped_unpopped(2) [OF n] t2_def [symmetric] ..
      show ?thesis
        unfolding eq spec_pop_def Some option.case VList rvalue.case Let_def n_def [symmetric] e'_def [symmetric]
        using v t2 live_e' Some
        by (cases cnt; cases "n = 0"; cases "n = length l";
            cases "fits_response (Array (map Bulk (popped sd n l)))") simp_all
    qed (use v Some e le in \<open>simp_all add: pop_in_def spec_pop_def t_def [symmetric] at\<close>)
  qed
qed

interpretation pop: key_op k "pop_in now k cnt sd" now "spec_pop cnt sd" for k now cnt sd
  using pop_view by unfold_locales blast+

section \<open>Index arithmetic\<close>

text \<open>
  On a list whose length is an \<open>i64\<close>, no signed addition of \<open>LRANGE\<close> overflows, and the reply is
  the slice between the two positions, negative ones counted from the end.
\<close>

definition list_position :: "nat \<Rightarrow> int \<Rightarrow> int" where
  "list_position n i = (if i < 0 then int n + i else i)"

definition list_slice :: "int \<Rightarrow> int \<Rightarrow> 'a list \<Rightarrow> 'a list" where
  "list_slice start stop l =
     (let lo = nat (max 0 (list_position (length l) start));
          hi = nat (list_position (length l) stop + 1)
      in drop lo (take hi l))"

lemma sint_i64_of_usize: "n < 2 ^ 63 \<Longrightarrow> sint (i64_of_usize n) = int n"
  using sint_i64_of_int [of "int n"] by (simp add: i64_of_usize_def in_i64_def i64_min_def i64_max_def)

lemma sint_resolve:
  assumes "n < 2 ^ 63"
  shows "sint (if sint i < 0 then i64_of_usize n + i else i) = list_position n (sint i)"
proof (cases "sint i < 0")
  case True
  have "in_i64 (sint (i64_of_usize n) + sint i)"
    using assms True sint_i64_range [of i]
    by (auto simp: sint_i64_of_usize in_i64_def i64_min_def i64_max_def)
  then have "sint (i64_of_usize n + i) = sint (i64_of_usize n) + sint i"
    by (intro checked_add_i64_Some) (simp add: checked_add_i64_def)
  with True assms show ?thesis by (simp add: list_position_def sint_i64_of_usize)
qed (simp add: list_position_def)

lemma lrange_list_eq:
  assumes "length l < 2 ^ 63"
  shows "lrange_list start stop l = or_too_large (Array (map Bulk (list_slice (sint start) (sint stop) l)))"
proof -
  define p where "p = list_position (length l) (sint start)"
  define q where "q = list_position (length l) (sint stop)"
  have p: "sint (if sint start < 0 then i64_of_usize (length l) + start else start) = p"
    and q: "sint (if sint stop < 0 then i64_of_usize (length l) + stop else stop) = q"
    and n: "sint (i64_of_usize (length l)) = int (length l)"
    using sint_resolve [OF assms] sint_i64_of_usize [OF assms] by (simp_all add: p_def q_def)
  have zero: "i64_of_usize (length l) = 0 \<longleftrightarrow> l = []" using n by (auto simp: i64_of_usize_def)
  have small: "or_too_large (Array []) = Array []"
    by (simp add: or_too_large_def fits_response_def limits_values show_nat.simps)
  have slice: "list_slice (sint start) (sint stop) l = drop (nat (max 0 p)) (take (nat (q + 1)) l)"
    by (simp add: list_slice_def p_def q_def)
  define a where "a = nat (max p 0)"
  define b where "b = nat (min q (int (length l) - 1))"
  have eq: "lrange_list start stop l =
     (if l = [] \<or> p \<ge> int (length l) \<or> q < 0 \<or> a > b then Array []
      else bulk_array (b - a + 1) (take (b - a + 1) (drop a l)))"
    unfolding lrange_list_def Let_def zero p q n a_def [symmetric] b_def [symmetric] by auto
  show ?thesis
  proof (cases "l = [] \<or> p \<ge> int (length l) \<or> q < 0 \<or> a > b")
    case True
    then have "drop (nat (max 0 p)) (take (nat (q + 1)) l) = []"
      by (auto simp: a_def b_def)
    with True show ?thesis by (simp add: eq slice small)
  next
    case False
    have n: "0 < length l" "\<not> q < 0" "a \<le> b" "a = nat (max 0 p)" using False by (auto simp: a_def)
    have "b < length l" using n(1,2) unfolding b_def by linarith
    moreover have "Suc b = min (nat (q + 1)) (length l)" using n(1,2) unfolding b_def by linarith
    ultimately have bs: "Suc b = min (nat (q + 1)) (length l)" "a = nat (max 0 p)" "b < length l" "a \<le> b"
      using n by simp_all
    then have take: "take (b - a + 1) (drop a l) = drop (nat (max 0 p)) (take (nat (q + 1)) l)"
      by (simp add: take_drop Suc_diff_le [symmetric] min_def split: if_splits)
    have "length (take (b - a + 1) (drop a l)) = b - a + 1" using bs(3) n(3) by auto
    with False take bulk_array_eq [of "take (b - a + 1) (drop a l)"] show ?thesis
      by (simp add: eq slice)
  qed
qed

lemma resolve_index_eq:
  "resolve_index idx n =
     (let p = list_position n (sint idx) in if 0 \<le> p \<and> p < int n then Some (nat p) else None)"
  by (auto simp: resolve_index_def list_position_def Let_def nat_less_iff)

end
