(* ===== verification/HashCmd.thy ===== *)
theory HashCmd
  imports ListCmd
begin

text \<open>
  The hash commands of \<^verbatim>\<open>src/src/cmd/hash.rs\<close>. The order in which Rust iterates over a
  \<open>HashMap\<close> is not specified; the commands that iterate take it as a parameter \<open>ord\<close>, which
  rearranges the pairs of a map.
\<close>

section \<open>The commands\<close>

type_synonym hash_order = "(bytes \<times> bytes) list \<Rightarrow> (bytes \<times> bytes) list"

definition HASH_NOT_INT :: frame where
  "HASH_NOT_INT = Error ''ERR hash value is not an integer''"

abbreviation hash_entry :: "(bytes, bytes) hash_map \<Rightarrow> u128 option \<Rightarrow> entry" where
  "hash_entry m d \<equiv> \<lparr>evalue = VHash m, expires_at = d\<rparr>"

text \<open>The loops over \<open>map.insert(f, v)\<close> and \<open>map.remove(f)\<close> with their counters.\<close>

definition hset_pairs :: "(bytes \<times> bytes) list \<Rightarrow> (bytes, bytes) hash_map \<Rightarrow> (bytes, bytes) hash_map \<times> i64" where
  "hset_pairs pairs m =
     fold (\<lambda>(f, v) (m, added). (hm_insert f v m, if hm_get m f = None then added + 1 else added))
       pairs (m, 0)"

definition hdel_fields :: "bytes list \<Rightarrow> (bytes, bytes) hash_map \<Rightarrow> (bytes, bytes) hash_map \<times> i64" where
  "hdel_fields fs m =
     fold (\<lambda>f (m, removed). (hm_remove f m, if hm_get m f = None then removed else removed + 1))
       fs (m, 0)"

definition hset_in :: "u128 \<Rightarrow> bytes \<Rightarrow> (bytes \<times> bytes) list \<Rightarrow> shard \<Rightarrow> frame \<times> shard" where
  "hset_in now key pairs s =
     (let s = drop_stale now key s;
          (e, s) = entry_or_insert key (hash_entry [] None) s
      in case evalue e of
           VHash m \<Rightarrow>
             let (m, added) = hset_pairs pairs m
             in (Integer added, put_entry key (e\<lparr>evalue := VHash m\<rparr>) s)
         | _ \<Rightarrow> (WRONGTYPE, s))"

definition hset :: "(bytes \<Rightarrow> u64) \<Rightarrow> clock \<Rightarrow> bytes \<Rightarrow> (bytes \<times> bytes) list \<Rightarrow> 'tx db \<Rightarrow> frame \<times> 'tx db" where
  "hset h c key pairs db = with_shard h key (hset_in (c 0) key pairs) db"

definition hdel_in :: "u128 \<Rightarrow> bytes \<Rightarrow> bytes list \<Rightarrow> shard \<Rightarrow> frame \<times> shard" where
  "hdel_in now key fs s =
     (let s = drop_stale now key s in
      case hm_get (entries s) key of
        None \<Rightarrow> (Integer 0, s)
      | Some e \<Rightarrow> (case evalue e of
          VHash m \<Rightarrow>
            let (m, removed) = hdel_fields fs m;
                s = put_entry key (e\<lparr>evalue := VHash m\<rparr>) s;
                s = (if m = [] then snd (remove_entry key s) else s)
            in (Integer removed, s)
        | _ \<Rightarrow> (WRONGTYPE, s)))"

definition hdel :: "(bytes \<Rightarrow> u64) \<Rightarrow> clock \<Rightarrow> bytes \<Rightarrow> bytes list \<Rightarrow> 'tx db \<Rightarrow> frame \<times> 'tx db" where
  "hdel h c key fs db = with_shard h key (hdel_in (c 0) key fs) db"

definition hincrby_in :: "u128 \<Rightarrow> bytes \<Rightarrow> bytes \<Rightarrow> i64 \<Rightarrow> shard \<Rightarrow> frame \<times> shard" where
  "hincrby_in now key field delta s =
     (let s = drop_stale now key s;
          (e, s) = entry_or_insert key (hash_entry [] None) s
      in case evalue e of
           VHash m \<Rightarrow>
             let m = hm_or_insert field ''0'' m;
                 current_v = (case hm_get m field of Some v \<Rightarrow> v | None \<Rightarrow> []);
                 s = put_entry key (e\<lparr>evalue := VHash m\<rparr>) s
             in (case parse_i64_bytes current_v of
                   None \<Rightarrow> (HASH_NOT_INT, s)
                 | Some current \<Rightarrow> (case checked_add_i64 current delta of
                       None \<Rightarrow> (OVERFLOW, s)
                     | Some new \<Rightarrow>
                         (Integer new, put_entry key (e\<lparr>evalue := VHash (hm_insert field (show_i64 new) m)\<rparr>) s)))
         | _ \<Rightarrow> (WRONGTYPE, s))"

definition hincrby :: "(bytes \<Rightarrow> u64) \<Rightarrow> clock \<Rightarrow> bytes \<Rightarrow> bytes \<Rightarrow> i64 \<Rightarrow> 'tx db \<Rightarrow> frame \<times> 'tx db" where
  "hincrby h c key field delta db = with_shard h key (hincrby_in (c 0) key field delta) db"

text \<open>What the reading commands do with the hash they find (\<open>None\<close>: no live entry).\<close>

definition spec_hash :: "frame \<Rightarrow> ((bytes, bytes) hash_map \<Rightarrow> frame) \<Rightarrow> entry option \<Rightarrow> frame" where
  "spec_hash absent f eo = (case eo of
      None \<Rightarrow> absent
    | Some e \<Rightarrow> (case evalue e of VHash m \<Rightarrow> f m | _ \<Rightarrow> WRONGTYPE))"

definition hget_in :: "u128 \<Rightarrow> bytes \<Rightarrow> bytes \<Rightarrow> shard \<Rightarrow> frame" where
  "hget_in now key field s = (case unexpired now key s of
      None \<Rightarrow> Null
    | Some e \<Rightarrow> (case evalue e of
        VHash m \<Rightarrow> (case hm_get m field of Some v \<Rightarrow> Bulk v | None \<Rightarrow> Null)
      | _ \<Rightarrow> WRONGTYPE))"

definition hget :: "(bytes \<Rightarrow> u64) \<Rightarrow> clock \<Rightarrow> bytes \<Rightarrow> bytes \<Rightarrow> 'tx db \<Rightarrow> frame" where
  "hget h c key field db = hget_in (c 0) key field (shard_for h key db)"

definition hkeys_in :: "hash_order \<Rightarrow> u128 \<Rightarrow> bytes \<Rightarrow> shard \<Rightarrow> frame" where
  "hkeys_in ord now key s = (case unexpired now key s of
      None \<Rightarrow> Array []
    | Some e \<Rightarrow> (case evalue e of
        VHash m \<Rightarrow> bulk_array (length m) (map fst (ord m)) | _ \<Rightarrow> WRONGTYPE))"

definition hkeys :: "(bytes \<Rightarrow> u64) \<Rightarrow> clock \<Rightarrow> hash_order \<Rightarrow> bytes \<Rightarrow> 'tx db \<Rightarrow> frame" where
  "hkeys h c ord key db = hkeys_in ord (c 0) key (shard_for h key db)"

definition hvals_in :: "hash_order \<Rightarrow> u128 \<Rightarrow> bytes \<Rightarrow> shard \<Rightarrow> frame" where
  "hvals_in ord now key s = (case unexpired now key s of
      None \<Rightarrow> Array []
    | Some e \<Rightarrow> (case evalue e of
        VHash m \<Rightarrow> bulk_array (length m) (map snd (ord m)) | _ \<Rightarrow> WRONGTYPE))"

definition hvals :: "(bytes \<Rightarrow> u64) \<Rightarrow> clock \<Rightarrow> hash_order \<Rightarrow> bytes \<Rightarrow> 'tx db \<Rightarrow> frame" where
  "hvals h c ord key db = hvals_in ord (c 0) key (shard_for h key db)"

text \<open>
  \<open>HGETALL\<close> checks the two lengths of a pair, one after the other, and then pushes both frames:
  the same replies as pushing each frame after its check.
\<close>

definition hgetall_hash :: "hash_order \<Rightarrow> (bytes, bytes) hash_map \<Rightarrow> frame" where
  "hgetall_hash ord m = (case checked_mul_usize (length m) 2 of
      None \<Rightarrow> response_too_large
    | Some item_count \<Rightarrow> bulk_array item_count (concat (map (\<lambda>(k, v). [k, v]) (ord m))))"

definition hgetall_in :: "hash_order \<Rightarrow> u128 \<Rightarrow> bytes \<Rightarrow> shard \<Rightarrow> frame" where
  "hgetall_in ord now key s = (case unexpired now key s of
      None \<Rightarrow> Array []
    | Some e \<Rightarrow> (case evalue e of VHash m \<Rightarrow> hgetall_hash ord m | _ \<Rightarrow> WRONGTYPE))"

definition hgetall :: "(bytes \<Rightarrow> u64) \<Rightarrow> clock \<Rightarrow> hash_order \<Rightarrow> bytes \<Rightarrow> 'tx db \<Rightarrow> frame" where
  "hgetall h c ord key db = hgetall_in ord (c 0) key (shard_for h key db)"

definition hexists_in :: "u128 \<Rightarrow> bytes \<Rightarrow> bytes \<Rightarrow> shard \<Rightarrow> frame" where
  "hexists_in now key field s = (case unexpired now key s of
      None \<Rightarrow> Integer 0
    | Some e \<Rightarrow> (case evalue e of
        VHash m \<Rightarrow> Integer (if hm_get m field \<noteq> None then 1 else 0) | _ \<Rightarrow> WRONGTYPE))"

definition hexists :: "(bytes \<Rightarrow> u64) \<Rightarrow> clock \<Rightarrow> bytes \<Rightarrow> bytes \<Rightarrow> 'tx db \<Rightarrow> frame" where
  "hexists h c key field db = hexists_in (c 0) key field (shard_for h key db)"

definition hlen_in :: "u128 \<Rightarrow> bytes \<Rightarrow> shard \<Rightarrow> frame" where
  "hlen_in now key s = (case unexpired now key s of
      None \<Rightarrow> Integer 0
    | Some e \<Rightarrow> (case evalue e of VHash m \<Rightarrow> Integer (i64_of_usize (length m)) | _ \<Rightarrow> WRONGTYPE))"

definition hlen :: "(bytes \<Rightarrow> u64) \<Rightarrow> clock \<Rightarrow> bytes \<Rightarrow> 'tx db \<Rightarrow> frame" where
  "hlen h c key db = hlen_in (c 0) key (shard_for h key db)"

section \<open>The reading commands through their contract\<close>

lemmas hash_read_defs = hget_in_def hkeys_in_def hvals_in_def hgetall_in_def hexists_in_def
  hlen_in_def spec_hash_def unexpired_live

interpretation hget: read_op k now "hget_in now k field"
  "spec_hash Null (\<lambda>m. case hm_get m field of Some v \<Rightarrow> Bulk v | None \<Rightarrow> Null)" for now k field
  by unfold_locales (simp add: hash_read_defs)

interpretation hkeys: read_op k now "hkeys_in ord now k"
  "spec_hash (Array []) (\<lambda>m. bulk_array (length m) (map fst (ord m)))" for ord now k
  by unfold_locales (simp add: hash_read_defs)

interpretation hvals: read_op k now "hvals_in ord now k"
  "spec_hash (Array []) (\<lambda>m. bulk_array (length m) (map snd (ord m)))" for ord now k
  by unfold_locales (simp add: hash_read_defs)

interpretation hgetall: read_op k now "hgetall_in ord now k"
  "spec_hash (Array []) (hgetall_hash ord)" for ord now k
  by unfold_locales (simp add: hash_read_defs)

interpretation hexists: read_op k now "hexists_in now k field"
  "spec_hash (Integer 0) (\<lambda>m. Integer (if hm_get m field \<noteq> None then 1 else 0))" for now k field
  by unfold_locales (simp only: hash_read_defs)

interpretation hlen: read_op k now "hlen_in now k"
  "spec_hash (Integer 0) (\<lambda>m. Integer (i64_of_usize (length m)))" for now k
  by unfold_locales (simp add: hash_read_defs)

section \<open>The mutating commands through their contract\<close>

definition spec_hset :: "(bytes \<times> bytes) list \<Rightarrow> entry option \<Rightarrow> frame \<times> entry option" where
  "spec_hset pairs eo =
     (let e = (case eo of Some e \<Rightarrow> e | None \<Rightarrow> hash_entry [] None) in
      case evalue e of
        VHash m \<Rightarrow> (Integer (snd (hset_pairs pairs m)), Some (e\<lparr>evalue := VHash (fst (hset_pairs pairs m))\<rparr>))
      | _ \<Rightarrow> (WRONGTYPE, eo))"

definition spec_hdel :: "bytes list \<Rightarrow> entry option \<Rightarrow> frame \<times> entry option" where
  "spec_hdel fs eo = (case eo of
      None \<Rightarrow> (Integer 0, None)
    | Some e \<Rightarrow> (case evalue e of
        VHash m \<Rightarrow>
          let m' = fst (hdel_fields fs m)
          in (Integer (snd (hdel_fields fs m)),
              if m' = [] then None else Some (e\<lparr>evalue := VHash m'\<rparr>))
      | _ \<Rightarrow> (WRONGTYPE, eo)))"

definition spec_hincrby :: "bytes \<Rightarrow> i64 \<Rightarrow> entry option \<Rightarrow> frame \<times> entry option" where
  "spec_hincrby field delta eo =
     (let e = (case eo of Some e \<Rightarrow> e | None \<Rightarrow> hash_entry [] None) in
      case evalue e of
        VHash m \<Rightarrow> (case hm_get m field of
            None \<Rightarrow> (Integer delta, Some (e\<lparr>evalue := VHash (hm_insert field (show_i64 delta) m)\<rparr>))
          | Some v \<Rightarrow> (case parse_i64_bytes v of
              None \<Rightarrow> (HASH_NOT_INT, eo)
            | Some n \<Rightarrow>
                if in_i64 (sint n + sint delta)
                then (Integer (n + delta), Some (e\<lparr>evalue := VHash (hm_insert field (show_i64 (n + delta)) m)\<rparr>))
                else (OVERFLOW, eo)))
      | _ \<Rightarrow> (WRONGTYPE, eo))"

lemma hset_view:
  assumes wf: "shard_wf s"
  shows "shard_wf (snd (hset_in now k pairs s))"
    "k' \<noteq> k \<Longrightarrow> entry_at (snd (hset_in now k pairs s)) k' = entry_at s k'"
    "fst (hset_in now k pairs s) = fst (spec_hset pairs (live now (entry_at s k)))"
    "live now (entry_at (snd (hset_in now k pairs s)) k) = snd (spec_hset pairs (live now (entry_at s k)))"
proof -
  obtain e s' where o: "entry_or_insert k (hash_entry [] None) (drop_stale now k s) = (e, s')"
    by force
  note e = open_entry [OF wf _ o, simplified]
  note u = opened_update [OF e(1,2,3)]
  have eq: "hset_in now k pairs s = (case evalue e of
           VHash m \<Rightarrow> (Integer (snd (hset_pairs pairs m)),
                       put_entry k (e\<lparr>evalue := VHash (fst (hset_pairs pairs m))\<rparr>) s')
         | _ \<Rightarrow> (WRONGTYPE, s'))"
    by (simp add: hset_in_def o Let_def case_prod_beta split: rvalue.splits)
  show "shard_wf (snd (hset_in now k pairs s))"
    "k' \<noteq> k \<Longrightarrow> entry_at (snd (hset_in now k pairs s)) k' = entry_at s k'"
    using u e(1,2) by (auto simp: eq split: rvalue.splits)
  show "fst (hset_in now k pairs s) = fst (spec_hset pairs (live now (entry_at s k)))"
    "live now (entry_at (snd (hset_in now k pairs s)) k) = snd (spec_hset pairs (live now (entry_at s k)))"
    using u e(2,4) by (auto simp: eq spec_hset_def Let_def split: rvalue.splits option.splits)
qed

interpretation hset: key_op k "hset_in now k pairs" now "spec_hset pairs" for k now pairs
  by unfold_locales (simp_all add: hset_view)

lemma hdel_view:
  assumes wf: "shard_wf s"
  shows "shard_wf (snd (hdel_in now k fs s)) \<and>
    (k' \<noteq> k \<longrightarrow> entry_at (snd (hdel_in now k fs s)) k' = entry_at s k') \<and>
    fst (hdel_in now k fs s) = fst (spec_hdel fs (live now (entry_at s k))) \<and>
    live now (entry_at (snd (hdel_in now k fs s)) k) = snd (spec_hdel fs (live now (entry_at s k)))"
proof -
  define t where "t = drop_stale now k s"
  note v = drop_stale_view [OF wf, of now k, folded t_def]
  have at: "hm_get (entries t) = entry_at t" by (simp add: entry_at_def)
  show ?thesis
  proof (cases "live now (entry_at s k)")
    case None
    then show ?thesis using v by (simp add: hdel_in_def spec_hdel_def t_def [symmetric] at)
  next
    case (Some e)
    then have e: "entry_at t k = Some e" "\<not> entry_expired now e" using v(2) by (simp_all add: live_Some)
    have le: "live now (Some e) = Some e" using e(2) by (simp add: live_Some)
    show ?thesis
    proof (cases "evalue e")
      case (VHash m)
      define m' where "m' = fst (hdel_fields fs m)"
      define r where "r = snd (hdel_fields fs m)"
      have res: "hdel_fields fs m = (m', r)" by (simp add: m'_def r_def)
      define e' where "e' = e\<lparr>evalue := VHash m'\<rparr>"
      define t1 where "t1 = put_entry k e' t"
      have t1: "shard_wf t1" "entry_at t1 = (entry_at s)(k \<mapsto> e')" "live now (Some e') = Some e'"
        unfolding t1_def e'_def using v e
        by (auto intro!: wf_update_value simp: entry_at_put live_Some entry_expired_def)
      define t2 where "t2 = (if m' = [] then snd (remove_entry k t1) else t1)"
      have t2: "shard_wf t2" "entry_at t2 = (entry_at s)(k := if m' = [] then None else Some e')"
        using t1 remove_entry_view [OF t1(1), of k] by (simp_all add: t2_def)
      have eq: "hdel_in now k fs s = (Integer r, t2)"
        unfolding hdel_in_def t_def [symmetric] at e option.case VHash rvalue.case Let_def res prod.case
          e'_def [symmetric] t1_def [symmetric] t2_def [symmetric] ..
      show ?thesis
        unfolding eq spec_hdel_def Some option.case VHash rvalue.case Let_def res fst_conv snd_conv
          e'_def [symmetric]
        using t2 t1(3) by simp
    qed (use v Some e le in \<open>simp_all add: hdel_in_def spec_hdel_def t_def [symmetric] at\<close>)
  qed
qed

interpretation hdel: key_op k "hdel_in now k fs" now "spec_hdel fs" for k now fs
  using hdel_view by unfold_locales blast+

lemma hm_update_twice: "hm_insert f x (hm_insert f y m) = hm_insert f x m"
  by (induction m) auto

lemma put_entry_twice: "put_entry k e2 (put_entry k e1 s) = put_entry k e2 s"
  by (simp add: put_entry_def hm_update_twice)

lemma hm_update_same: "hm_get m f = Some v \<Longrightarrow> hm_insert f v m = m"
  by (induction m) auto

lemma hincrby_view:
  assumes wf: "shard_wf s"
  shows "shard_wf (snd (hincrby_in now k field delta s)) \<and>
    (k' \<noteq> k \<longrightarrow> entry_at (snd (hincrby_in now k field delta s)) k' = entry_at s k') \<and>
    fst (hincrby_in now k field delta s) = fst (spec_hincrby field delta (live now (entry_at s k))) \<and>
    live now (entry_at (snd (hincrby_in now k field delta s)) k) =
      snd (spec_hincrby field delta (live now (entry_at s k)))"
proof -
  obtain e s' where o: "entry_or_insert k (hash_entry [] None) (drop_stale now k s) = (e, s')"
    by force
  note e = open_entry [OF wf _ o, simplified]
  note u = opened_update [OF e(1,2,3)]
  let ?set = "\<lambda>m. put_entry k (e\<lparr>evalue := VHash m\<rparr>) s'"
  show ?thesis
  proof (cases "evalue e")
    case (VHash m)
    have same: "?set m = s'" if "live now (entry_at s k) = Some e"
    proof -
      have "e\<lparr>evalue := VHash m\<rparr> = e" using VHash by simp
      moreover have "hm_get (entries s') k = Some e" using e(2) by (simp add: entry_at_def)
      ultimately show ?thesis by (simp add: put_entry_def hm_update_same)
    qed
    show ?thesis
    proof (cases "hm_get m field")
      case None
      then have eq: "hincrby_in now k field delta s =
          (Integer delta, ?set (hm_insert field (show_i64 delta) m))"
        using sint_i64_range [of delta]
        by (simp add: hincrby_in_def o Let_def VHash hm_or_insert_def update_conv' parse_zero
            checked_add_i64_def put_entry_twice hm_update_twice)
      show ?thesis using u e(2,4) VHash None
        by (auto simp: eq spec_hincrby_def Let_def split: option.splits)
    next
      case (Some x)
      then have stored: "live now (entry_at s k) = Some e"
        using e(4) VHash by (auto split: option.splits)
      have eq: "hincrby_in now k field delta s = (case parse_i64_bytes x of
           None \<Rightarrow> (HASH_NOT_INT, s')
         | Some n \<Rightarrow> (case checked_add_i64 n delta of
              None \<Rightarrow> (OVERFLOW, s')
            | Some n' \<Rightarrow> (Integer n', ?set (hm_insert field (show_i64 n') m))))"
        using Some same [OF stored]
        by (simp add: hincrby_in_def o Let_def VHash hm_or_insert_def put_entry_twice
            split: option.splits)
      show ?thesis using u e(1,2) VHash Some stored
        by (simp add: eq spec_hincrby_def checked_add_i64_def split: option.splits)
    qed
  qed (use u e in \<open>auto simp: hincrby_in_def o spec_hincrby_def Let_def split: option.splits\<close>)
qed

interpretation hincrby: key_op k "hincrby_in now k field delta" now "spec_hincrby field delta"
  for k now field delta
  using hincrby_view by unfold_locales blast+

section \<open>What the loops over fields do\<close>

text \<open>The map after \<open>HSET\<close> is the old one overridden by the pairs, the last pair for a field
  winning, and the count is the number of fields that were not there before.\<close>

lemma hset_fold:
  "fold (\<lambda>(f, v) (m, added). (hm_insert f v m, if hm_get m f = None then added + 1 else added)) pairs (m, n)
   = (fold (\<lambda>(f, v). hm_insert f v) pairs m,
      n + word_of_nat (card (fst ` set pairs - dom (hm_get m))))"
proof (induction pairs arbitrary: m n)
  case (Cons p pairs)
  obtain f v where p: "p = (f, v)" by (cases p)
  let ?F = "fst ` set pairs" and ?D = "dom (hm_get m)"
  have dom: "dom (hm_get (hm_insert f v m)) = Set.insert f ?D" by (auto simp: update_conv')
  show ?case
  proof (cases "f \<in> ?D")
    case True
    then have "Set.insert f ?F - ?D = ?F - Set.insert f ?D" by auto
    then have "card (fst ` set (p # pairs) - ?D) = card (?F - Set.insert f ?D)" by (simp add: p)
    moreover have "hm_get m f \<noteq> None" using True by (simp add: domIff)
    ultimately show ?thesis by (simp only: p Cons.IH dom fold_simps o_apply prod.case if_False)
  next
    case False
    then have "Set.insert f ?F - ?D = Set.insert f (?F - Set.insert f ?D)" by auto
    then have "card (Set.insert f ?F - ?D) = Suc (card (?F - Set.insert f ?D))" by simp
    then have "card (fst ` set (p # pairs) - ?D) = Suc (card (?F - Set.insert f ?D))" by (simp add: p)
    moreover have "hm_get m f = None" using False by (simp add: domIff)
    ultimately show ?thesis by (simp add: p Cons.IH dom del: List.list.set)
  qed
qed simp

lemma hm_get_inserts:
  "hm_get (fold (\<lambda>(f, v). hm_insert f v) pairs m) = hm_get m ++ map_of (rev pairs)"
proof (induction pairs arbitrary: m)
  case (Cons p pairs)
  obtain f v where "p = (f, v)" by (cases p)
  with Cons show ?case
    by (auto simp: update_conv' map_add_def fun_eq_iff split: option.splits)
qed simp

lemma hset_pairs_eq:
  "hset_pairs pairs m = (fold (\<lambda>(f, v). hm_insert f v) pairs m,
     i64_of_usize (card (fst ` set pairs - dom (hm_get m))))"
  by (simp add: hset_pairs_def hset_fold i64_of_usize_def)

lemma hdel_fold:
  "hm_ok m \<Longrightarrow>
   fold (\<lambda>f (m, removed). (hm_remove f m, if hm_get m f = None then removed else removed + 1)) fs (m, n)
   = (fold hm_remove fs m, n + word_of_nat (card (set fs \<inter> dom (hm_get m))))"
proof (induction fs arbitrary: m n)
  case (Cons f fs)
  let ?D = "dom (hm_get m)"
  have dom: "dom (hm_get (hm_remove f m)) = ?D - {f}" by (auto simp: delete_conv' split: if_splits)
  have ok: "hm_ok (hm_remove f m)" using Cons.prems by (simp add: distinct_delete)
  show ?case
  proof (cases "f \<in> ?D")
    case True
    then have "Set.insert f (set fs) \<inter> ?D = Set.insert f (set fs \<inter> (?D - {f}))" by auto
    then have "card (Set.insert f (set fs) \<inter> ?D) = Suc (card (set fs \<inter> (?D - {f})))" by simp
    with True show ?thesis by (auto simp: Cons.IH [OF ok] dom domIff)
  next
    case False
    then have "Set.insert f (set fs) \<inter> ?D = set fs \<inter> (?D - {f})" by auto
    with False show ?thesis by (auto simp: Cons.IH [OF ok] dom domIff)
  qed
qed simp

lemma hdel_fields_eq:
  "hm_ok m \<Longrightarrow> hdel_fields fs m =
     (fold hm_remove fs m, i64_of_usize (card (set fs \<inter> dom (hm_get m))))"
  by (simp add: hdel_fields_def hdel_fold i64_of_usize_def)

end
