(* ===== verification/Command.thy ===== *)
theory Command
  imports HashCmd Text
begin

text \<open>
  The commands of \<^verbatim>\<open>src/src/cmd/mod.rs\<close>: the type \<open>command\<close>, parsing a command from a frame
  (\<open>from_frame\<close>), the frame that is logged for a command that writes (\<open>aof_frame\<close>), and the keys it
  may change (\<open>mutated_keys\<close>). \<open>now\<close> is the one reading of the clock that parsing or logging a
  command makes, if it makes any: a command has at most one expiry.
\<close>

section \<open>The commands\<close>

datatype command =
    Ping "bytes option"
  | Echo bytes
  | Get bytes
  | Set bytes bytes "u128 option"
  | Del "bytes list"
  | Exists "bytes list"
  | Incr bytes
  | Decr bytes
  | IncrBy bytes i64
  | DecrBy bytes i64
  | Append bytes bytes
  | Strlen bytes
  | MGet "bytes list"
  | MSet "(bytes \<times> bytes) list"
  | Expire bytes u128
  | PExpire bytes u128
  | PExpireAt bytes u128
  | Ttl bytes
  | PTtl bytes
  | Persist bytes
  | LPush bytes "bytes list"
  | RPush bytes "bytes list"
  | LPop bytes "nat option"
  | RPop bytes "nat option"
  | LRange bytes i64 i64
  | LLen bytes
  | LIndex bytes i64
  | HSet bytes "(bytes \<times> bytes) list"
  | HGet bytes bytes
  | HDel bytes "bytes list"
  | HKeys bytes
  | HVals bytes
  | HGetAll bytes
  | HExists bytes bytes
  | HLen bytes
  | HIncrBy bytes bytes i64
  | Subscribe "bytes list"
  | Unsubscribe "bytes list option"
  | Publish bytes bytes
  | Info_cmd "bytes option"
  | BgRewriteAof
  | Unknown bytes

fun is_write :: "command \<Rightarrow> bool" where
  "is_write (Set _ _ _) = True"
| "is_write (Del _) = True"
| "is_write (Incr _) = True"
| "is_write (Decr _) = True"
| "is_write (IncrBy _ _) = True"
| "is_write (DecrBy _ _) = True"
| "is_write (Append _ _) = True"
| "is_write (MSet _) = True"
| "is_write (Expire _ _) = True"
| "is_write (PExpire _ _) = True"
| "is_write (PExpireAt _ _) = True"
| "is_write (Persist _) = True"
| "is_write (LPush _ _) = True"
| "is_write (RPush _ _) = True"
| "is_write (LPop _ _) = True"
| "is_write (RPop _ _) = True"
| "is_write (HSet _ _) = True"
| "is_write (HDel _ _) = True"
| "is_write (HIncrBy _ _ _) = True"
| "is_write _ = False"

fun mutated_keys :: "command \<Rightarrow> bytes list" where
  "mutated_keys (Set key _ _) = [key]"
| "mutated_keys (Incr key) = [key]"
| "mutated_keys (Decr key) = [key]"
| "mutated_keys (IncrBy key _) = [key]"
| "mutated_keys (DecrBy key _) = [key]"
| "mutated_keys (Append key _) = [key]"
| "mutated_keys (Expire key _) = [key]"
| "mutated_keys (PExpire key _) = [key]"
| "mutated_keys (PExpireAt key _) = [key]"
| "mutated_keys (Persist key) = [key]"
| "mutated_keys (LPush key _) = [key]"
| "mutated_keys (RPush key _) = [key]"
| "mutated_keys (LPop key _) = [key]"
| "mutated_keys (RPop key _) = [key]"
| "mutated_keys (HSet key _) = [key]"
| "mutated_keys (HDel key _) = [key]"
| "mutated_keys (HIncrBy key _ _) = [key]"
| "mutated_keys (Del keys) = keys"
| "mutated_keys (MSet pairs) = map fst pairs"
| "mutated_keys _ = []"

section \<open>Deadlines\<close>

definition MAX_EXPIRE_AT_MS :: u128 where "MAX_EXPIRE_AT_MS = 2 ^ 63 - 1"
definition MILLIS_PER_SECOND :: u128 where "MILLIS_PER_SECOND = 1000"

datatype parse_error =
    NotArray
  | EmptyCommand
  | NotBulk nat
  | Arity bytes
  | BadName
  | NotInt
  | InvalidExpireTime bytes
  | OutOfRangePositive
  | SyntaxError

definition is_protocol_error :: "parse_error \<Rightarrow> bool" where
  "is_protocol_error e = (case e of NotArray \<Rightarrow> True | NotBulk _ \<Rightarrow> True | _ \<Rightarrow> False)"

definition show_parse_error :: "parse_error \<Rightarrow> bytes" where
  "show_parse_error e = (case e of
      NotArray \<Rightarrow> ''not an array''
    | EmptyCommand \<Rightarrow> ''empty command''
    | NotBulk i \<Rightarrow> ''argument '' @ show_nat i @ '' must be a bulk string''
    | Arity name \<Rightarrow> ''wrong number of arguments for '' @ [CHR 0x27] @ name @ [CHR 0x27]
    | BadName \<Rightarrow> ''invalid utf8 in command name''
    | NotInt \<Rightarrow> ''value is not an integer or out of range''
    | InvalidExpireTime name \<Rightarrow> ''invalid expire time in '' @ [CHR 0x27] @ name @ [CHR 0x27] @ '' command''
    | OutOfRangePositive \<Rightarrow> ''value is out of range, must be positive''
    | SyntaxError \<Rightarrow> ''syntax error'')"

type_synonym 'a parsed = "(parse_error, 'a) result"

definition ok_or :: "'e \<Rightarrow> 'a option \<Rightarrow> ('e, 'a) result" where
  "ok_or e x = (case x of Some a \<Rightarrow> Inr a | None \<Rightarrow> Inl e)"

definition parse_i64 :: "bytes \<Rightarrow> i64 parsed" where
  "parse_i64 b = ok_or NotInt (parse_i64_bytes b)"

definition invalid_expire_time :: "bytes \<Rightarrow> parse_error" where
  "invalid_expire_time name = InvalidExpireTime (to_ascii_lowercase name)"

definition duration_millis :: "i64 \<Rightarrow> bool \<Rightarrow> bytes \<Rightarrow> u128 parsed" where
  "duration_millis n ms name =
     (if ms then Inr (u128_of_i64 n)
      else ok_or (invalid_expire_time name) (checked_mul_u128 (u128_of_i64 n) MILLIS_PER_SECOND))"

definition absolute_deadline :: "i64 \<Rightarrow> bool \<Rightarrow> bytes \<Rightarrow> u128 parsed" where
  "absolute_deadline n ms name =
     bind_result (duration_millis n ms name) (\<lambda>deadline.
       if deadline \<le> MAX_EXPIRE_AT_MS then Inr deadline else Inl (invalid_expire_time name))"

definition relative_deadline :: "u128 \<Rightarrow> i64 \<Rightarrow> bool \<Rightarrow> bytes \<Rightarrow> u128 parsed" where
  "relative_deadline now n ms name =
     bind_result (duration_millis n ms name) (\<lambda>delta.
       case checked_add_u128 now delta of
         Some deadline \<Rightarrow>
           if deadline \<le> MAX_EXPIRE_AT_MS then Inr deadline else Inl (invalid_expire_time name)
       | None \<Rightarrow> Inl (invalid_expire_time name))"

definition set_relative_deadline :: "u128 \<Rightarrow> i64 \<Rightarrow> bool \<Rightarrow> bytes \<Rightarrow> u128 parsed" where
  "set_relative_deadline now n ms name =
     (if sint n \<le> 0 then Inl (invalid_expire_time name)
      else bind_result (duration_millis n ms name) (\<lambda>delta.
        if delta > MAX_EXPIRE_AT_MS then Inl (invalid_expire_time name)
        else ok_or (invalid_expire_time name) (checked_add_u128 now delta)))"

definition expire_relative_deadline :: "u128 \<Rightarrow> i64 \<Rightarrow> bool \<Rightarrow> bytes \<Rightarrow> u128 parsed" where
  "expire_relative_deadline now n ms name =
     (if sint n \<le> 0 then Inr 0 else relative_deadline now n ms name)"

definition set_absolute_deadline :: "i64 \<Rightarrow> bool \<Rightarrow> bytes \<Rightarrow> u128 parsed" where
  "set_absolute_deadline n ms name =
     (if sint n \<le> 0 then Inl (invalid_expire_time name) else absolute_deadline n ms name)"

definition expire_absolute_deadline :: "i64 \<Rightarrow> bool \<Rightarrow> bytes \<Rightarrow> u128 parsed" where
  "expire_absolute_deadline n ms name =
     (if sint n \<le> 0 then Inr 0 else absolute_deadline n ms name)"

section \<open>Parsing the arguments\<close>

definition one_arg :: "bytes list \<Rightarrow> bytes \<Rightarrow> bytes parsed" where
  "one_arg rest name = (case rest of [a] \<Rightarrow> Inr a | _ \<Rightarrow> Inl (Arity name))"

text \<open>The loop of \<open>parse_set\<close> over the options; \<open>exp\<close> and \<open>seen\<close> are its two variables.\<close>

fun parse_set_options ::
  "u128 \<Rightarrow> bytes \<Rightarrow> u128 option \<Rightarrow> bool \<Rightarrow> bytes list \<Rightarrow> u128 option parsed" where
  "parse_set_options now name exp seen [] = Inr exp"
| "parse_set_options now name exp seen (opt # it) =
     (if \<not> utf8_valid opt then Inl SyntaxError
      else
        let opt_upper = to_ascii_uppercase opt;
            deadline =
              (if opt_upper = ''EX'' then Some (\<lambda>n. set_relative_deadline now n False name)
               else if opt_upper = ''PX'' then Some (\<lambda>n. set_relative_deadline now n True name)
               else if opt_upper = ''EXAT'' then Some (\<lambda>n. set_absolute_deadline n False name)
               else if opt_upper = ''PXAT'' then Some (\<lambda>n. set_absolute_deadline n True name)
               else None)
        in (case deadline of
              None \<Rightarrow> Inl SyntaxError
            | Some to_deadline \<Rightarrow>
                if seen then Inl SyntaxError
                else (case it of
                    [] \<Rightarrow> Inl SyntaxError
                  | n_bytes # it' \<Rightarrow>
                      bind_result (parse_i64 n_bytes) (\<lambda>n.
                      bind_result (to_deadline n) (\<lambda>d.
                        parse_set_options now name (Some d) True it')))))"

definition parse_set :: "u128 \<Rightarrow> bytes list \<Rightarrow> bytes \<Rightarrow> command parsed" where
  "parse_set now rest name = (case rest of
      key # val # it \<Rightarrow>
        map_result (Set key val) (parse_set_options now name None False it)
    | _ \<Rightarrow> Inl (Arity name))"

definition parse_expire :: "u128 \<Rightarrow> bytes list \<Rightarrow> bytes \<Rightarrow> bool \<Rightarrow> (bytes \<times> u128) parsed" where
  "parse_expire now rest name ms = (case rest of
      [key, n] \<Rightarrow>
        bind_result (parse_i64 n) (\<lambda>n.
          map_result (Pair key) (expire_relative_deadline now n ms name))
    | _ \<Rightarrow> Inl (Arity name))"

definition parse_expire_at :: "bytes list \<Rightarrow> bytes \<Rightarrow> bool \<Rightarrow> (bytes \<times> u128) parsed" where
  "parse_expire_at rest name ms = (case rest of
      [key, n] \<Rightarrow>
        bind_result (parse_i64 n) (\<lambda>n.
          map_result (Pair key) (expire_absolute_deadline n ms name))
    | _ \<Rightarrow> Inl (Arity name))"

definition parse_push :: "bytes list \<Rightarrow> bytes \<Rightarrow> (bytes \<times> bytes list) parsed" where
  "parse_push rest name = (case rest of
      key # v # vs \<Rightarrow> Inr (key, v # vs)
    | _ \<Rightarrow> Inl (Arity name))"

definition parse_pop :: "bytes list \<Rightarrow> bytes \<Rightarrow> (bytes \<times> nat option) parsed" where
  "parse_pop rest name = (case rest of
      [key] \<Rightarrow> Inr (key, None)
    | [key, n] \<Rightarrow>
        bind_result (parse_i64 n) (\<lambda>n.
          if sint n < 0 then Inl OutOfRangePositive else Inr (key, Some (nat (sint n))))
    | _ \<Rightarrow> Inl (Arity name))"

text \<open>The loop \<open>while let (Some(k), Some(v)) = (it.next(), it.next())\<close>.\<close>

fun take_pairs :: "bytes list \<Rightarrow> (bytes \<times> bytes) list" where
  "take_pairs (k # v # it) = (k, v) # take_pairs it"
| "take_pairs _ = []"

definition expect_bulk :: "frame \<Rightarrow> nat \<Rightarrow> bytes parsed" where
  "expect_bulk f idx = (case f of Bulk b \<Rightarrow> Inr b | _ \<Rightarrow> Inl (NotBulk idx))"

text \<open>\<open>collect::<Result<_, _>>()\<close> over the arguments, which stops at the first error.\<close>

fun expect_bulks :: "nat \<Rightarrow> frame list \<Rightarrow> bytes list parsed" where
  "expect_bulks idx [] = Inr []"
| "expect_bulks idx (f # fs) =
     bind_result (expect_bulk f idx) (\<lambda>b. map_result ((#) b) (expect_bulks (Suc idx) fs))"

end
