(* ===== verification/Request.thy ===== *)
theory Request
  imports Command
begin

text \<open>
  From a frame to a command and back: \<open>Command::from_frame\<close>, \<open>Command::aof_frame\<close> and the lemma
  that what is logged for a command that writes is read back as a command with the same effect.
\<close>

section \<open>Command::from_frame\<close>

text \<open>
  The last arms of the match on the name: the commands that the connection handles itself, and every
  other name.
\<close>

definition parse_connection_command :: "bytes \<Rightarrow> bytes list \<Rightarrow> command parsed" where
  "parse_connection_command name rest =
     (let arity_err = Inl (Arity name);
          two = (\<lambda>f. case rest of [a, b] \<Rightarrow> f a b | _ \<Rightarrow> arity_err)
      in
      if name = ''SUBSCRIBE'' then if rest = [] then arity_err else Inr (Subscribe rest)
      else if name = ''UNSUBSCRIBE'' then
        Inr (Unsubscribe (if rest = [] then None else Some rest))
      else if name = ''PUBLISH'' then two (\<lambda>ch msg. Inr (Publish ch msg))
      else if name = ''INFO'' then
        (case rest of
           [] \<Rightarrow> Inr (Info_cmd None)
         | [s] \<Rightarrow> if utf8_valid s then Inr (Info_cmd (Some (to_ascii_lowercase s))) else Inl SyntaxError
         | _ \<Rightarrow> arity_err)
      else if name = ''BGREWRITEAOF'' then if rest = [] then Inr BgRewriteAof else arity_err
      else Inr (Unknown name))"

text \<open>The match on the name, in upper case, with the arguments in \<open>rest\<close>.\<close>

definition parse_command :: "u128 \<Rightarrow> bytes \<Rightarrow> bytes list \<Rightarrow> command parsed" where
  "parse_command now name rest =
     (let arity_err = Inl (Arity name);
          one = (\<lambda>f. map_result f (one_arg rest name));
          at_least_one = (\<lambda>f. if rest = [] then arity_err else Inr (f rest));
          two = (\<lambda>f. case rest of [a, b] \<Rightarrow> f a b | _ \<Rightarrow> arity_err)
      in
      if name = ''PING'' then
        (case rest of [] \<Rightarrow> Inr (Ping None) | [a] \<Rightarrow> Inr (Ping (Some a)) | _ \<Rightarrow> arity_err)
      else if name = ''ECHO'' then one Echo
      else if name = ''GET'' then one Get
      else if name = ''SET'' then parse_set now rest name
      else if name = ''DEL'' then at_least_one Del
      else if name = ''EXISTS'' then at_least_one Exists
      else if name = ''INCR'' then one Incr
      else if name = ''DECR'' then one Decr
      else if name = ''INCRBY'' then two (\<lambda>key n. map_result (IncrBy key) (parse_i64 n))
      else if name = ''DECRBY'' then two (\<lambda>key n. map_result (DecrBy key) (parse_i64 n))
      else if name = ''APPEND'' then two (\<lambda>key v. Inr (Append key v))
      else if name = ''STRLEN'' then one Strlen
      else if name = ''MGET'' then at_least_one MGet
      else if name = ''MSET'' then
        if rest = [] \<or> length rest mod 2 \<noteq> 0 then arity_err else Inr (MSet (take_pairs rest))
      else if name = ''EXPIRE'' then
        map_result (\<lambda>(k, d). Expire k d) (parse_expire now rest name False)
      else if name = ''PEXPIRE'' then
        map_result (\<lambda>(k, d). PExpire k d) (parse_expire now rest name True)
      else if name = ''EXPIREAT'' then
        map_result (\<lambda>(k, d). PExpireAt k d) (parse_expire_at rest name False)
      else if name = ''PEXPIREAT'' then
        map_result (\<lambda>(k, d). PExpireAt k d) (parse_expire_at rest name True)
      else if name = ''TTL'' then one Ttl
      else if name = ''PTTL'' then one PTtl
      else if name = ''PERSIST'' then one Persist
      else if name = ''LPUSH'' then map_result (\<lambda>(k, v). LPush k v) (parse_push rest name)
      else if name = ''RPUSH'' then map_result (\<lambda>(k, v). RPush k v) (parse_push rest name)
      else if name = ''LPOP'' then map_result (\<lambda>(k, n). LPop k n) (parse_pop rest name)
      else if name = ''RPOP'' then map_result (\<lambda>(k, n). RPop k n) (parse_pop rest name)
      else if name = ''LRANGE'' then
        (case rest of
           [key, a, b] \<Rightarrow>
             bind_result (parse_i64 a) (\<lambda>start. map_result (LRange key start) (parse_i64 b))
         | _ \<Rightarrow> arity_err)
      else if name = ''LLEN'' then one LLen
      else if name = ''LINDEX'' then two (\<lambda>key n. map_result (LIndex key) (parse_i64 n))
      else if name = ''HSET'' then
        (case rest of
           key # it \<Rightarrow>
             if length rest < 3 \<or> (length rest - 1) mod 2 \<noteq> 0 then arity_err
             else Inr (HSet key (take_pairs it))
         | [] \<Rightarrow> arity_err)
      else if name = ''HGET'' then two (\<lambda>key f. Inr (HGet key f))
      else if name = ''HDEL'' then
        (case rest of key # f # fs \<Rightarrow> Inr (HDel key (f # fs)) | _ \<Rightarrow> arity_err)
      else if name = ''HKEYS'' then one HKeys
      else if name = ''HVALS'' then one HVals
      else if name = ''HGETALL'' then one HGetAll
      else if name = ''HEXISTS'' then two (\<lambda>key f. Inr (HExists key f))
      else if name = ''HLEN'' then one HLen
      else if name = ''HINCRBY'' then
        (case rest of
           [key, f, n] \<Rightarrow> map_result (HIncrBy key f) (parse_i64 n)
         | _ \<Rightarrow> arity_err)
      else parse_connection_command name rest)"

definition from_frame :: "u128 \<Rightarrow> frame \<Rightarrow> command parsed" where
  "from_frame now f = (case f of
      Array [] \<Rightarrow> Inl EmptyCommand
    | Array (name_frame # items) \<Rightarrow>
        bind_result (expect_bulk name_frame 0) (\<lambda>name_bytes.
          if \<not> utf8_valid name_bytes then Inl BadName
          else bind_result (expect_bulks 1 items)
                 (parse_command now (to_ascii_uppercase name_bytes)))
    | _ \<Rightarrow> Inl NotArray)"

section \<open>Command::aof\_frame\<close>

definition bulk_string_i64 :: "i64 \<Rightarrow> frame" where "bulk_string_i64 n = Bulk (show_i64 n)"
definition bulk_string_usize :: "nat \<Rightarrow> frame" where "bulk_string_usize n = Bulk (show_nat n)"
definition bulk_string_u128 :: "u128 \<Rightarrow> frame" where "bulk_string_u128 n = Bulk (show_u128 n)"

definition command_with_keys :: "bytes \<Rightarrow> bytes list \<Rightarrow> frame" where
  "command_with_keys name keys = Array (Bulk name # map Bulk keys)"

definition command_one :: "bytes \<Rightarrow> bytes \<Rightarrow> frame" where
  "command_one name key = Array [Bulk name, Bulk key]"

definition command_with_values :: "bytes \<Rightarrow> bytes \<Rightarrow> bytes list \<Rightarrow> frame" where
  "command_with_values name key vals = Array (Bulk name # Bulk key # map Bulk vals)"

definition relative_millis_for_aof :: "u128 \<Rightarrow> u128 \<Rightarrow> u128" where
  "relative_millis_for_aof now deadline =
     max 1 (min MAX_EXPIRE_AT_MS (saturating_sub_u128 deadline now))"

definition push_set_expiry :: "u128 \<Rightarrow> u128 \<Rightarrow> frame list" where
  "push_set_expiry now deadline =
     (if deadline \<le> MAX_EXPIRE_AT_MS then [Bulk ''PXAT'', bulk_string_u128 deadline]
      else [Bulk ''PX'', bulk_string_u128 (relative_millis_for_aof now deadline)])"

definition pexpireat_frame :: "bytes \<Rightarrow> u128 \<Rightarrow> frame" where
  "pexpireat_frame key deadline = Array [Bulk ''PEXPIREAT'', Bulk key, bulk_string_u128 deadline]"

definition pair_frames :: "(bytes \<times> bytes) list \<Rightarrow> frame list" where
  "pair_frames pairs = concat (map (\<lambda>(a, b). [Bulk a, Bulk b]) pairs)"

fun aof_frame :: "u128 \<Rightarrow> command \<Rightarrow> frame option" where
  "aof_frame now (Set key val exp) =
     Some (Array ([Bulk ''SET'', Bulk key, Bulk val]
       @ (case exp of Some deadline \<Rightarrow> push_set_expiry now deadline | None \<Rightarrow> [])))"
| "aof_frame now (Del keys) = Some (command_with_keys ''DEL'' keys)"
| "aof_frame now (Incr key) = Some (command_one ''INCR'' key)"
| "aof_frame now (Decr key) = Some (command_one ''DECR'' key)"
| "aof_frame now (IncrBy key n) = Some (Array [Bulk ''INCRBY'', Bulk key, bulk_string_i64 n])"
| "aof_frame now (DecrBy key n) = Some (Array [Bulk ''DECRBY'', Bulk key, bulk_string_i64 n])"
| "aof_frame now (Append key val) = Some (Array [Bulk ''APPEND'', Bulk key, Bulk val])"
| "aof_frame now (MSet pairs) = Some (Array (Bulk ''MSET'' # pair_frames pairs))"
| "aof_frame now (Expire key deadline) = Some (pexpireat_frame key deadline)"
| "aof_frame now (PExpire key deadline) = Some (pexpireat_frame key deadline)"
| "aof_frame now (PExpireAt key deadline) = Some (pexpireat_frame key deadline)"
| "aof_frame now (Persist key) = Some (command_one ''PERSIST'' key)"
| "aof_frame now (LPush key vals) = Some (command_with_values ''LPUSH'' key vals)"
| "aof_frame now (RPush key vals) = Some (command_with_values ''RPUSH'' key vals)"
| "aof_frame now (LPop key None) = Some (command_one ''LPOP'' key)"
| "aof_frame now (LPop key (Some n)) = Some (Array [Bulk ''LPOP'', Bulk key, bulk_string_usize n])"
| "aof_frame now (RPop key None) = Some (command_one ''RPOP'' key)"
| "aof_frame now (RPop key (Some n)) = Some (Array [Bulk ''RPOP'', Bulk key, bulk_string_usize n])"
| "aof_frame now (HSet key pairs) = Some (Array (Bulk ''HSET'' # Bulk key # pair_frames pairs))"
| "aof_frame now (HDel key fs) = Some (Array (Bulk ''HDEL'' # Bulk key # map Bulk fs))"
| "aof_frame now (HIncrBy key field n) =
     Some (Array [Bulk ''HINCRBY'', Bulk key, Bulk field, bulk_string_i64 n])"
| "aof_frame now _ = None"

lemma aof_frame_is_write: "aof_frame now cmd \<noteq> None \<longleftrightarrow> is_write cmd"
  by (induction now cmd rule: aof_frame.induct) simp_all

section \<open>What a parsed command looks like\<close>

text \<open>
  The commands \<open>from_frame\<close> can return: no empty list of keys, values, fields, pairs or channels, a pop count below \<open>2 ^ 63\<close>, and deadlines that the log can express.
\<close>

definition aof_deadline :: "u128 \<Rightarrow> bool" where
  "aof_deadline d \<longleftrightarrow> d \<le> MAX_EXPIRE_AT_MS"

fun command_wf :: "command \<Rightarrow> bool" where
  "command_wf (Set _ _ (Some d)) \<longleftrightarrow> 0 < d"
| "command_wf (Del keys) \<longleftrightarrow> keys \<noteq> []"
| "command_wf (MSet pairs) \<longleftrightarrow> pairs \<noteq> []"
| "command_wf (Expire _ d) \<longleftrightarrow> aof_deadline d"
| "command_wf (PExpire _ d) \<longleftrightarrow> aof_deadline d"
| "command_wf (PExpireAt _ d) \<longleftrightarrow> aof_deadline d"
| "command_wf (LPush _ vals) \<longleftrightarrow> vals \<noteq> []"
| "command_wf (RPush _ vals) \<longleftrightarrow> vals \<noteq> []"
| "command_wf (LPop _ (Some n)) \<longleftrightarrow> n < 2 ^ 63"
| "command_wf (RPop _ (Some n)) \<longleftrightarrow> n < 2 ^ 63"
| "command_wf (HSet _ pairs) \<longleftrightarrow> pairs \<noteq> []"
| "command_wf (HDel _ fs) \<longleftrightarrow> fs \<noteq> []"
| "command_wf (Exists keys) \<longleftrightarrow> keys \<noteq> []"
| "command_wf (MGet keys) \<longleftrightarrow> keys \<noteq> []"
| "command_wf (Subscribe chs) \<longleftrightarrow> chs \<noteq> []"
| "command_wf (Unsubscribe (Some chs)) \<longleftrightarrow> chs \<noteq> []"
| "command_wf _ \<longleftrightarrow> True"

section \<open>Reading a logged command back\<close>

lemma expect_bulks_map [simp]: "expect_bulks i (map Bulk bs) = Inr bs"
  by (induction bs arbitrary: i) (simp_all add: expect_bulk_def)

definition flat_pairs :: "(bytes \<times> bytes) list \<Rightarrow> bytes list" where
  "flat_pairs pairs = concat (map (\<lambda>(a, b). [a, b]) pairs)"

lemma pair_frames_flat: "pair_frames pairs = map Bulk (flat_pairs pairs)"
  by (induction pairs) (auto simp: pair_frames_def flat_pairs_def)

lemma length_flat_pairs [simp]: "length (flat_pairs pairs) = 2 * length pairs"
  by (induction pairs) (auto simp: flat_pairs_def)

lemma flat_pairs_empty [simp]: "flat_pairs pairs = [] \<longleftrightarrow> pairs = []"
  using length_flat_pairs [of pairs] by (metis length_0_conv mult_is_0 zero_neq_numeral)

lemma take_pairs_flat [simp]: "take_pairs (flat_pairs pairs) = pairs"
  by (induction pairs) (auto simp: flat_pairs_def)

lemma parse_i64_show [simp]: "parse_i64 (show_i64 n) = Inr n"
  by (simp add: parse_i64_def ok_or_def)

text \<open>A frame whose name is a literal in upper case reaches the branch of that name.\<close>

lemma from_frame_bulks:
  "from_frame now (Array (Bulk name # map Bulk args)) =
     (if utf8_valid name then parse_command now (to_ascii_uppercase name) args else Inl BadName)"
  by (simp add: from_frame_def expect_bulk_def)

definition is_command_name :: "bytes \<Rightarrow> bool" where
  "is_command_name name \<longleftrightarrow> utf8_valid name \<and> to_ascii_uppercase name = name"

lemma from_frame_name:
  "is_command_name name \<Longrightarrow>
   from_frame now (Array (Bulk name # map Bulk args)) = parse_command now name args"
  by (simp add: from_frame_bulks is_command_name_def)

lemma write_names [simp]:
  "is_command_name ''SET''" "is_command_name ''DEL''" "is_command_name ''INCR''"
  "is_command_name ''DECR''" "is_command_name ''INCRBY''" "is_command_name ''DECRBY''"
  "is_command_name ''APPEND''" "is_command_name ''MSET''" "is_command_name ''PEXPIREAT''"
  "is_command_name ''PERSIST''" "is_command_name ''LPUSH''" "is_command_name ''RPUSH''"
  "is_command_name ''LPOP''" "is_command_name ''RPOP''" "is_command_name ''HSET''"
  "is_command_name ''HDEL''" "is_command_name ''HINCRBY''"
  by (simp_all add: is_command_name_def to_ascii_uppercase_def to_upper_def byte_in_def)

lemma option_names [simp]:
  "utf8_valid ''PX''" "utf8_valid ''PXAT''"
  "to_ascii_uppercase ''PX'' = ''PX''" "to_ascii_uppercase ''PXAT'' = ''PXAT''"
  by (simp_all add: to_ascii_uppercase_def to_upper_def byte_in_def)

text \<open>Deadlines up to the largest \<open>i64\<close> are printed and read back unchanged.\<close>

lemma unat_max_expire: "unat MAX_EXPIRE_AT_MS = 2 ^ 63 - 1"
  by (simp add: MAX_EXPIRE_AT_MS_def)

lemma aof_deadline_iff: "aof_deadline d \<longleftrightarrow> unat d < 2 ^ 63"
  unfolding aof_deadline_def word_le_nat_alt unat_max_expire by auto

lemma parse_i64_show_u128:
  assumes "aof_deadline d"
  obtains n where "parse_i64 (show_u128 d) = Inr n" "sint n = int (unat d)" "u128_of_i64 n = d"
proof -
  let ?n = "word_of_int (int (unat d)) :: i64"
  have lt: "unat d < 2 ^ 63" using assms by (simp only: aof_deadline_iff)
  have s: "sint ?n = int (unat d)"
    by (rule sint_i64_of_int) (use lt in \<open>simp add: in_i64_def i64_min_def i64_max_def del: of_nat_unat\<close>)
  moreover have "u128_of_i64 ?n = d" unfolding u128_of_i64_def s by simp
  moreover have "parse_i64 (show_u128 d) = Inr ?n"
    using parse_i64_bytes_show_nat [OF lt]
    by (simp only: parse_i64_def ok_or_def show_u128_def option.case of_int_of_nat_eq)
  ultimately show thesis by (intro that)
qed

text \<open>
  What the logged frame of a command is read back as, at time \<open>now'\<close>: \<open>EXPIRE\<close> and \<open>PEXPIRE\<close>
  become \<open>PEXPIREAT\<close> with the deadline they computed. A \<open>SET\<close> with a deadline beyond the largest
  \<open>i64\<close> is logged with the remaining time instead, which counts from the time of reading.
\<close>

fun read_back :: "u128 \<Rightarrow> u128 \<Rightarrow> command \<Rightarrow> command" where
  "read_back now now' (Expire key d) = PExpireAt key d"
| "read_back now now' (PExpire key d) = PExpireAt key d"
| "read_back now now' (Set key val (Some d)) =
     Set key val (Some (if d \<le> MAX_EXPIRE_AT_MS then d else now' + relative_millis_for_aof now d))"
| "read_back now now' cmd = cmd"

lemma relative_millis_range:
  "0 < relative_millis_for_aof now d" "relative_millis_for_aof now d \<le> MAX_EXPIRE_AT_MS"
proof -
  have "(1 :: u128) \<le> MAX_EXPIRE_AT_MS" by (simp add: MAX_EXPIRE_AT_MS_def)
  then show "relative_millis_for_aof now d \<le> MAX_EXPIRE_AT_MS"
    by (simp add: relative_millis_for_aof_def)
  have "(1 :: u128) \<le> relative_millis_for_aof now d" by (simp add: relative_millis_for_aof_def)
  then show "0 < relative_millis_for_aof now d" by (auto simp: word_gt_0)
qed

lemma positive_deadline:
  assumes "sint n = int (unat d)" "u128_of_i64 n = d" "0 < d" "d \<le> MAX_EXPIRE_AT_MS"
  shows "set_absolute_deadline n True name = Inr d"
    "checked_add_u128 now d = Some d' \<Longrightarrow> set_relative_deadline now n True name = Inr d'"
proof -
  have pos: "\<not> sint n \<le> 0" using assms(1,3) by (simp add: word_less_nat_alt del: of_nat_unat)
  show "set_absolute_deadline n True name = Inr d"
    using pos assms(2,4)
    by (simp only: set_absolute_deadline_def absolute_deadline_def duration_millis_def if_True if_False
        bind_result_simps)
  show "checked_add_u128 now d = Some d' \<Longrightarrow> set_relative_deadline now n True name = Inr d'"
    using pos assms(2,4)
    by (simp only: set_relative_deadline_def duration_millis_def ok_or_def if_True if_False
        bind_result_simps linorder_not_less [symmetric] option.case)
qed

lemma parse_set_option_last:
  "parse_i64 b = Inr n \<Longrightarrow> set_absolute_deadline n True name = Inr d \<Longrightarrow>
   parse_set_options now name None False [''PXAT'', b] = Inr (Some d)"
  "parse_i64 b = Inr n \<Longrightarrow> set_relative_deadline now n True name = Inr d \<Longrightarrow>
   parse_set_options now name None False [''PX'', b] = Inr (Some d)"
  by (simp_all add: Let_def del: utf8_valid.simps)

lemma parse_set_expiry:
  assumes "0 < d" "unat now' + unat MAX_EXPIRE_AT_MS < 2 ^ 128"
  obtains bs where "push_set_expiry now d = map Bulk bs"
    "parse_set_options now' name None False bs =
       Inr (Some (if d \<le> MAX_EXPIRE_AT_MS then d else now' + relative_millis_for_aof now d))"
proof (cases "d \<le> MAX_EXPIRE_AT_MS")
  case True
  then have "aof_deadline d" by (simp add: aof_deadline_def)
  then obtain n where n: "parse_i64 (show_u128 d) = Inr n" "sint n = int (unat d)" "u128_of_i64 n = d"
    by (rule parse_i64_show_u128)
  note last = parse_set_option_last(1) [OF n(1) positive_deadline(1) [OF n(2,3) assms(1) True]]
  show thesis
    by (rule that [of "[''PXAT'', show_u128 d]"])
       (simp_all only: push_set_expiry_def bulk_string_u128_def True if_True last list.map)
next
  case False
  let ?r = "relative_millis_for_aof now d"
  note r = relative_millis_range [of now d]
  then have "aof_deadline ?r" by (simp only: aof_deadline_def)
  then obtain n where n: "parse_i64 (show_u128 ?r) = Inr n" "sint n = int (unat ?r)" "u128_of_i64 n = ?r"
    by (rule parse_i64_show_u128)
  have "unat ?r \<le> unat MAX_EXPIRE_AT_MS" using r by (simp only: word_le_nat_alt)
  then have "checked_add_u128 now' ?r = Some (now' + ?r)"
    using assms(2) unfolding checked_add_u128_def by (simp only: if_P)
  note last = parse_set_option_last(2) [OF n(1) positive_deadline(2) [OF n(2,3) r this]]
  show thesis
    by (rule that [of "[''PX'', show_u128 ?r]"])
       (simp_all only: push_set_expiry_def bulk_string_u128_def False if_False last list.map)
qed

text \<open>One evaluation of \<open>parse_command\<close> per name that is logged.\<close>

lemma parse_command_writes:
  "parse_command now ''SET'' rest = parse_set now rest ''SET''"
  "parse_command now ''INCR'' [key] = Inr (Incr key)"
  "parse_command now ''DECR'' [key] = Inr (Decr key)"
  "parse_command now ''INCRBY'' [key, n] = map_result (IncrBy key) (parse_i64 n)"
  "parse_command now ''DECRBY'' [key, n] = map_result (DecrBy key) (parse_i64 n)"
  "parse_command now ''APPEND'' [key, v] = Inr (Append key v)"
  "parse_command now ''PERSIST'' [key] = Inr (Persist key)"
  "parse_command now ''PEXPIREAT'' rest =
     map_result (\<lambda>(k, d). PExpireAt k d) (parse_expire_at rest ''PEXPIREAT'' True)"
  "parse_command now ''LPOP'' rest = map_result (\<lambda>(k, n). LPop k n) (parse_pop rest ''LPOP'')"
  "parse_command now ''RPOP'' rest = map_result (\<lambda>(k, n). RPop k n) (parse_pop rest ''RPOP'')"
  "parse_command now ''HINCRBY'' [key, field, n] = map_result (HIncrBy key field) (parse_i64 n)"
  by (simp_all add: parse_command_def one_arg_def Let_def)

lemma parse_command_lists:
  "keys \<noteq> [] \<Longrightarrow> parse_command now ''DEL'' keys = Inr (Del keys)"
  "pairs \<noteq> [] \<Longrightarrow> parse_command now ''MSET'' (flat_pairs pairs) = Inr (MSet pairs)"
  "vals \<noteq> [] \<Longrightarrow> parse_command now ''LPUSH'' (key # vals) = Inr (LPush key vals)"
  "vals \<noteq> [] \<Longrightarrow> parse_command now ''RPUSH'' (key # vals) = Inr (RPush key vals)"
  "pairs \<noteq> [] \<Longrightarrow> parse_command now ''HSET'' (key # flat_pairs pairs) = Inr (HSet key pairs)"
  "vals \<noteq> [] \<Longrightarrow> parse_command now ''HDEL'' (key # vals) = Inr (HDel key vals)"
  by (auto simp: parse_command_def Let_def parse_push_def neq_Nil_conv [of vals]
      split: list.split) (cases pairs; simp)?

lemma parse_expire_at_show:
  assumes "aof_deadline d"
  shows "parse_expire_at [key, show_u128 d] name True = Inr (key, d)"
proof -
  obtain n where n: "parse_i64 (show_u128 d) = Inr n" "sint n = int (unat d)" "u128_of_i64 n = d"
    using assms by (rule parse_i64_show_u128)
  show ?thesis
  proof (cases "0 < d")
    case True
    have "set_absolute_deadline n True name = Inr d"
      by (rule positive_deadline(1) [OF n(2,3) True]) (use assms in \<open>simp only: aof_deadline_def\<close>)
    then show ?thesis
      using n(1) by (simp add: parse_expire_at_def expire_absolute_deadline_def set_absolute_deadline_def
          split: if_splits)
  next
    case False
    then have "d = 0" by (simp add: word_gt_0)
    with n show ?thesis by (simp add: parse_expire_at_def expire_absolute_deadline_def)
  qed
qed

lemma parse_pop_show: "n < 2 ^ 63 \<Longrightarrow> parse_pop [key, show_nat n] name = Inr (key, Some n)"
  using sint_i64_of_usize [of n]
  by (simp add: parse_pop_def parse_i64_def ok_or_def parse_i64_bytes_show_nat i64_of_usize_def)

lemma from_frame_words:
  assumes "is_command_name name"
  shows "from_frame now (Array [Bulk name, Bulk a]) = parse_command now name [a]"
    "from_frame now (Array [Bulk name, Bulk a, Bulk b]) = parse_command now name [a, b]"
    "from_frame now (Array [Bulk name, Bulk a, Bulk b, Bulk x]) = parse_command now name [a, b, x]"
    "from_frame now (Array (Bulk name # map Bulk bs)) = parse_command now name bs"
    "from_frame now (Array (Bulk name # Bulk a # map Bulk bs)) = parse_command now name (a # bs)"
    "from_frame now (Array (Bulk name # Bulk a # Bulk b # map Bulk bs)) = parse_command now name (a # b # bs)"
  using from_frame_name [OF assms, of now "[a]"] from_frame_name [OF assms, of now "[a, b]"]
    from_frame_name [OF assms, of now "[a, b, x]"] from_frame_name [OF assms, of now bs]
    from_frame_name [OF assms, of now "a # bs"] from_frame_name [OF assms, of now "a # b # bs"]
  by simp_all

lemma parse_pop_one: "parse_pop [key] name = Inr (key, None)"
  by (simp add: parse_pop_def)

lemmas logged_frames = parse_pop_one command_with_keys_def command_one_def command_with_values_def
  pexpireat_frame_def bulk_string_i64_def bulk_string_usize_def bulk_string_u128_def pair_frames_flat
  from_frame_words parse_command_writes parse_command_lists parse_expire_at_show parse_pop_show

lemma read_back_ok:
  assumes "command_wf cmd" "aof_frame now cmd = Some f" "unat now' + unat MAX_EXPIRE_AT_MS < 2 ^ 128"
  shows "from_frame now' f = Inr (read_back now now' cmd)"
proof (cases cmd)
  case (Set key val exp)
  show ?thesis
  proof (cases exp)
    case None
    with Set assms(2) show ?thesis by (auto simp: logged_frames parse_set_def)
  next
    case (Some d)
    then have "0 < d" using Set assms(1) by simp
    from parse_set_expiry [OF this assms(3)] obtain bs where bs:
      "push_set_expiry now d = map Bulk bs"
      "parse_set_options now' ''SET'' None False bs =
         Inr (Some (if d \<le> MAX_EXPIRE_AT_MS then d else now' + relative_millis_for_aof now d))"
      by metis
    with Set Some assms(2) show ?thesis by (auto simp: logged_frames parse_set_def)
  qed
next
  case (LPop key n)
  then show ?thesis using assms(1,2) by (cases n) (auto simp: logged_frames)
next
  case (RPop key n)
  then show ?thesis using assms(1,2) by (cases n) (auto simp: logged_frames)
qed (use assms(1,2) in \<open>auto simp: logged_frames\<close>)

section \<open>What from\_frame accepts is well-formed\<close>

definition parsed_wf :: "command parsed \<Rightarrow> bool" where
  "parsed_wf r \<longleftrightarrow> (case r of Inr cmd \<Rightarrow> command_wf cmd | Inl _ \<Rightarrow> True)"

lemma parsed_wf_intros:
  "(b \<Longrightarrow> parsed_wf x) \<Longrightarrow> (\<not> b \<Longrightarrow> parsed_wf y) \<Longrightarrow> parsed_wf (if b then x else y)"
  "parsed_wf (Inl e)"
  "command_wf cmd \<Longrightarrow> parsed_wf (Inr cmd)"
  "(\<And>a. r = Inr a \<Longrightarrow> parsed_wf (g a)) \<Longrightarrow> parsed_wf (bind_result r g)"
  "(\<And>a. r' = Inr a \<Longrightarrow> command_wf (f a)) \<Longrightarrow> parsed_wf (map_result f r')"
  "(l = [] \<Longrightarrow> parsed_wf x) \<Longrightarrow> (\<And>a as. l = a # as \<Longrightarrow> parsed_wf (h a as)) \<Longrightarrow>
   parsed_wf (case l of [] \<Rightarrow> x | a # as \<Rightarrow> h a as)"
  by (auto simp: parsed_wf_def result_cases split: list.splits sum.splits)

lemma duration_positive:
  assumes "duration_millis n ms name = Inr d" "\<not> sint n \<le> 0"
  shows "0 < d"
proof -
  have n: "unat (u128_of_i64 n) = nat (sint n)" using assms(2) by (intro unat_u128_of_i64) simp
  have "unat d = nat (sint n) * (if ms then 1 else 1000)"
    using assms(1) n
    by (auto simp: duration_millis_def ok_or_def MILLIS_PER_SECOND_def dest: checked_mul_u128_Some
        split: if_splits option.splits)
  with assms(2) show ?thesis by (simp add: word_less_nat_alt)
qed

lemma deadline_bounds:
  "set_relative_deadline now n ms name = Inr d \<Longrightarrow> 0 < d"
  "set_absolute_deadline n ms name = Inr d \<Longrightarrow> 0 < d"
  "expire_relative_deadline now n ms name = Inr d \<Longrightarrow> aof_deadline d"
  "expire_absolute_deadline n ms name = Inr d \<Longrightarrow> aof_deadline d"
proof -
  assume "set_relative_deadline now n ms name = Inr d"
  then obtain delta where "duration_millis n ms name = Inr delta" "\<not> sint n \<le> 0"
      "checked_add_u128 now delta = Some d"
    by (auto simp: set_relative_deadline_def ok_or_def bind_result_Inr split: if_splits option.splits)
  then show "0 < d" using duration_positive checked_add_u128_Some by (fastforce simp: word_less_nat_alt)
next
  assume "set_absolute_deadline n ms name = Inr d"
  then show "0 < d"
    by (auto simp: set_absolute_deadline_def absolute_deadline_def bind_result_Inr
        split: if_splits dest: duration_positive)
qed (auto simp: expire_relative_deadline_def relative_deadline_def expire_absolute_deadline_def
      absolute_deadline_def aof_deadline_def bind_result_Inr split: if_splits option.splits)

lemma parse_set_options_positive:
  "parse_set_options now name exp seen it = Inr (Some d) \<Longrightarrow> (\<And>e. exp = Some e \<Longrightarrow> 0 < e) \<Longrightarrow> 0 < d"
proof (induction now name exp seen it rule: parse_set_options.induct)
  case (2 now name exp seen opt it)
  then show ?case
    by (auto simp del: utf8_valid.simps simp: Let_def bind_result_Inr dest: deadline_bounds(1,2)
        split: if_splits list.splits)
qed simp

lemma take_pairs_Nil: "take_pairs it = [] \<longleftrightarrow> length it < 2"
  by (cases it rule: take_pairs.cases) auto

lemma command_wf_Set: "command_wf (Set key val exp) \<longleftrightarrow> (\<forall>d. exp = Some d \<longrightarrow> 0 < d)"
  by (cases exp) auto

lemma sint_i64_less: "sint (n :: i64) < 9223372036854775808"
  using sint_i64_range [of n] by (simp add: in_i64_def i64_max_def)

lemma parse_command_wf: "parsed_wf (parse_command now name rest)"
  unfolding parse_command_def parse_connection_command_def Let_def one_arg_def parse_set_def parse_expire_def parse_expire_at_def
    parse_push_def parse_pop_def
  by (intro parsed_wf_intros)
     (auto simp: take_pairs_Nil result_cases nat_less_iff command_wf_Set sint_i64_less
        
        dest: deadline_bounds parse_set_options_positive
        split: list.splits if_splits option.splits)

lemma from_frame_wf: "from_frame now f = Inr cmd \<Longrightarrow> command_wf cmd"
  using parse_command_wf
  by (auto simp: from_frame_def parsed_wf_def bind_result_Inr split: frame.splits list.splits if_splits)
     (metis sum.simps(6))

section \<open>The logged frame is within the parser's limits\<close>

text \<open>
  The frame that is logged is an array of as many bulk strings as the frame that arrived.
\<close>

fun logged_size :: "command \<Rightarrow> nat" where
  "logged_size (Set key val exp) = (if exp = None then 3 else 5)"
| "logged_size (Del keys) = Suc (length keys)"
| "logged_size (MSet pairs) = Suc (2 * length pairs)"
| "logged_size (LPush key vals) = length vals + 2"
| "logged_size (RPush key vals) = length vals + 2"
| "logged_size (HSet key pairs) = 2 * length pairs + 2"
| "logged_size (HDel key fs) = length fs + 2"
| "logged_size (LPop key n) = (if n = None then 2 else 3)"
| "logged_size (RPop key n) = (if n = None then 2 else 3)"
| "logged_size (HIncrBy _ _ _) = 4"
| "logged_size (Incr _) = 2"
| "logged_size (Decr _) = 2"
| "logged_size (Persist _) = 2"
| "logged_size _ = 3"

lemma push_set_expiry_bulks: "\<exists>a b. push_set_expiry now d = [Bulk a, Bulk b]"
  by (simp add: push_set_expiry_def bulk_string_u128_def)

lemma map_Bulk_eq [simp]: "map Bulk xs = map Bulk ys \<longleftrightarrow> xs = ys"
  by (rule inj_map_eq_map) (simp add: inj_def)

lemma aof_frame_bulks:
  "aof_frame now cmd = Some g \<Longrightarrow> \<exists>bs. g = Array (map Bulk bs) \<and> length bs = logged_size cmd"
proof (induction now cmd rule: aof_frame.induct)
  case (1 now key val exp)
  obtain tail where t: "(case exp of Some d \<Rightarrow> push_set_expiry now d | None \<Rightarrow> []) = map Bulk tail"
    "length tail = (if exp = None then 0 else 2)"
  proof (cases exp)
    case (Some d)
    obtain a b where "push_set_expiry now d = [Bulk a, Bulk b]" using push_set_expiry_bulks by blast
    with Some show thesis by (intro that [of "[a, b]"]) simp_all
  qed (use that [of "[]"] in simp)
  with 1 show ?case by (intro exI [of _ "''SET'' # key # val # tail"]) (auto split: option.splits)
qed (auto simp: command_with_keys_def command_one_def command_with_values_def pexpireat_frame_def
      bulk_string_i64_def bulk_string_usize_def bulk_string_u128_def pair_frames_flat
      map_eq_Cons_conv Cons_eq_map_conv)

definition same_size :: "nat \<Rightarrow> command parsed \<Rightarrow> bool" where
  "same_size n r \<longleftrightarrow> (case r of Inr cmd \<Rightarrow> is_write cmd \<longrightarrow> logged_size cmd = Suc n | Inl _ \<Rightarrow> True)"

lemma same_size_intros:
  "(b \<Longrightarrow> same_size n x) \<Longrightarrow> (\<not> b \<Longrightarrow> same_size n y) \<Longrightarrow> same_size n (if b then x else y)"
  "same_size n (Inl e)"
  "(is_write cmd \<Longrightarrow> logged_size cmd = Suc n) \<Longrightarrow> same_size n (Inr cmd)"
  "(\<And>a. r = Inr a \<Longrightarrow> same_size n (g a)) \<Longrightarrow> same_size n (bind_result r g)"
  "(\<And>a. r' = Inr a \<Longrightarrow> is_write (f a) \<Longrightarrow> logged_size (f a) = Suc n) \<Longrightarrow> same_size n (map_result f r')"
  "(l = [] \<Longrightarrow> same_size n x) \<Longrightarrow> (\<And>a as. l = a # as \<Longrightarrow> same_size n (h a as)) \<Longrightarrow>
   same_size n (case l of [] \<Rightarrow> x | a # as \<Rightarrow> h a as)"
  by (auto simp: same_size_def result_cases split: list.splits sum.splits)

lemma parse_set_options_seen: "parse_set_options now name exp True it = Inr d \<Longrightarrow> it = [] \<and> d = exp"
  by (cases it) (auto simp del: utf8_valid.simps simp: Let_def split: if_splits option.splits)

lemma parse_set_options_size:
  "parse_set_options now name None False it = Inr d \<Longrightarrow>
   length it = (if d = None then 0 else 2)"
  by (cases it)
     (auto simp del: utf8_valid.simps simp: Let_def bind_result_Inr split: if_splits list.splits
       dest: parse_set_options_seen)

lemma length_take_pairs: "2 * length (take_pairs it) = length it - length it mod 2"
  by (induction it rule: take_pairs.induct) auto

lemma parse_command_size: "same_size (length rest) (parse_command now name rest)"
  unfolding parse_command_def parse_connection_command_def Let_def one_arg_def parse_set_def parse_expire_def parse_expire_at_def
    parse_push_def parse_pop_def
  by (intro same_size_intros)
     (auto simp: result_cases length_take_pairs dest: parse_set_options_size
        split: list.splits if_splits option.splits)

lemma expect_bulks_length: "expect_bulks i fs = Inr bs \<Longrightarrow> length bs = length fs"
  by (induction i fs arbitrary: bs rule: expect_bulks.induct) (auto simp: result_cases)

lemma logged_size_eq:
  assumes "from_frame now (Array items) = Inr cmd" "is_write cmd"
  shows "logged_size cmd = length items"
proof -
  obtain f fs where items: "items = f # fs"
    using assms(1) by (cases items) (auto simp: from_frame_def)
  with assms(1) obtain name bs where "expect_bulks 1 fs = Inr bs" "parse_command now name bs = Inr cmd"
    by (auto simp: from_frame_def bind_result_Inr split: if_splits)
  with assms(2) parse_command_size [of bs now name] show ?thesis
    by (simp add: items same_size_def expect_bulks_length)
qed

lemma encode_part_le:
  assumes "f \<in> set fs" shows "length (encode f) \<le> length (encode (Array fs))"
proof -
  have "length (encode f) \<le> length (concat (map encode fs))"
    using assms by (induction fs) auto
  then show ?thesis by simp
qed

lemma logged_wire_frame:
  assumes "from_frame now f = Inr cmd" "frame_wf 0 f" "aof_frame now' cmd = Some g"
    "length (encode g) \<le> MAX_BUFFERED_FRAME_BYTES"
  shows "wire_frame g"
proof -
  obtain items where f: "f = Array items"
    using assms(1) by (cases f) (auto simp: from_frame_def)
  have w: "is_write cmd" using assms(3) aof_frame_is_write by force
  obtain bs where g: "g = Array (map Bulk bs)" "length bs = logged_size cmd"
    using aof_frame_bulks [OF assms(3)] by blast
  have "length bs \<le> MAX_ARRAY_LEN"
    using g(2) logged_size_eq [OF _ w] assms(1,2) by (simp add: f)
  moreover have "bulk_response_fits (length b)" if "b \<in> set bs" for b
  proof -
    have "length (encode (Bulk b)) \<le> length (encode g)"
      unfolding g(1) using that by (intro encode_part_le) simp
    then show ?thesis
      using assms(4) fits_Bulk [of b] by (simp add: fits_response_def limits_values)
  qed
  ultimately show ?thesis
    using assms(4) by (auto simp: wire_frame_def g(1) parser_limits)
qed

end
