(* ===== verification/Snapshot.thy ===== *)
theory Snapshot
  imports Db
begin

text \<open>
  The whole-database operations of \<^verbatim>\<open>src/src/db/mod.rs\<close>: the snapshot of the keys a command
  may change and its restoration (the rollback of a write the append-only file refused), the
  statistics of \<open>INFO\<close>, and the sorted snapshot of the live entries an AOF rewrite starts from.
\<close>

section \<open>Snapshot and rollback of some keys\<close>

definition snapshot_entries ::
  "(bytes \<Rightarrow> u64) \<Rightarrow> bytes list \<Rightarrow> 'tx db \<Rightarrow> (bytes \<times> entry option) list" where
  "snapshot_entries h keys db =
     map (\<lambda>key. (key, hm_get (entries (shard_for h key db)) key)) (remdups_adj (sort keys))"

definition restore_entry :: "bytes \<Rightarrow> entry option \<Rightarrow> shard \<Rightarrow> unit \<times> shard" where
  "restore_entry key snapshot s =
     (let s = snd (remove_entry key s) in
      case snapshot of
        None \<Rightarrow> ((), s)
      | Some e \<Rightarrow> ((), put_entry key e (index_entry (expires_at e) key s)))"

definition restore_entries ::
  "(bytes \<Rightarrow> u64) \<Rightarrow> (bytes \<times> entry option) list \<Rightarrow> 'tx db \<Rightarrow> 'tx db" where
  "restore_entries h snapshots db =
     fold (\<lambda>(key, snapshot) db. snd (with_shard h key (restore_entry key snapshot) db)) snapshots db"

lemma restore_entry_view:
  assumes "shard_wf s"
  shows "shard_wf (snd (restore_entry k eo s))"
    and "entry_at (snd (restore_entry k eo s)) = (entry_at s)(k := eo)"
proof -
  let ?s = "snd (remove_entry k s)"
  note r = remove_entry_view [OF assms, of k]
  have nix: "k \<notin> set (indexed ?s t)" for t
    using wf_indexed [OF r(1), of k t] r(2) by simp
  show "entry_at (snd (restore_entry k eo s)) = (entry_at s)(k := eo)"
    by (auto simp: restore_entry_def Let_def r(2) shard_view split: option.splits)
  show "shard_wf (snd (restore_entry k eo s))"
  proof (cases eo)
    case None
    then show ?thesis by (simp add: restore_entry_def r(1))
  next
    case (Some e)
    have sh: "shard_shape (index_entry (expires_at e) k ?s)"
      using wf_shape [OF r(1)] nix by (auto simp: index_entry_def shape_push split: option.splits)
    moreover have "set (indexed (index_entry (expires_at e) k ?s) t) =
        set (indexed ?s t) \<union> (if expires_at e = Some t then {k} else {})" for t
      using wf_shape [OF r(1)] by (auto simp: index_entry_def indexed_push split: option.splits)
    ultimately show ?thesis
      using Some nix wf_indexed [OF r(1)]
      by (auto simp: restore_entry_def shard_wf_iff indexed_put shape_put shape_hm_ok
          entry_at_put entry_at_index_entry)
  qed
qed

interpretation restore: local_op k "restore_entry k eo" for k eo
  by unfold_locales (simp_all add: restore_entry_view)

lemma restore_entries_view:
  "db_wf h db \<Longrightarrow> distinct (map fst snaps) \<Longrightarrow>
   db_wf h (restore_entries h snaps db) \<and>
   db_at h (restore_entries h snaps db) =
     (\<lambda>k. case map_of snaps k of None \<Rightarrow> db_at h db k | Some eo \<Rightarrow> eo) \<and>
   pubsub (restore_entries h snaps db) = pubsub db"
proof (induction snaps arbitrary: db)
  case (Cons p snaps)
  obtain k eo where p: "p = (k, eo)" by (cases p)
  let ?db = "snd (with_shard h k (restore_entry k eo) db)"
  have step: "restore_entries h (p # snaps) db = restore_entries h snaps ?db"
    by (simp add: restore_entries_def p)
  have wf: "db_wf h ?db" using Cons.prems(1) by (rule restore.db_wf_with_shard)
  have at: "db_at h ?db = (db_at h db)(k := eo)"
    using restore.db_at_with_shard [OF Cons.prems(1)] restore_entry_view(2) [OF db_wf_shard [OF Cons.prems(1)]]
    by simp
  have fresh: "map_of snaps k = None" and d: "distinct (map fst snaps)"
    using Cons.prems(2) p by (auto simp: map_of_eq_None_notin)
  show ?case
    unfolding step using Cons.IH [OF wf d] fresh
    by (auto simp: with_shard_pubsub at p fun_eq_iff split: option.splits)
qed (simp add: restore_entries_def)

lemma snapshot_keys:
  "map fst (snapshot_entries h keys db) = remdups_adj (sort keys)"
  by (simp add: snapshot_entries_def comp_def)

lemma distinct_snapshot_keys: "distinct (map fst (snapshot_entries h keys db))"
  unfolding snapshot_keys by (rule sorted_remdups_adj_distinct) simp

lemma map_of_snapshot:
  "map_of (snapshot_entries h keys db) k = (if k \<in> set keys then Some (db_at h db k) else None)"
  by (simp add: snapshot_entries_def db_at_def entry_at_def map_of_map_pair)

section \<open>The sorted snapshot of the live entries\<close>

definition aof_snapshot_entries :: "u128 \<Rightarrow> 'tx db \<Rightarrow> (bytes \<times> entry) list" where
  "aof_snapshot_entries now db = sort_key fst (concat (map
     (\<lambda>s. filter (\<lambda>(key, e). \<not> (case expires_at e of Some deadline \<Rightarrow> deadline \<le> now | None \<Rightarrow> False))
                 (entries s))
     (shards db)))"

section \<open>Statistics\<close>

record db_stats =
  st_keys :: nat
  st_expiring_keys :: nat
  st_strings :: nat
  st_lists :: nat
  st_hashes :: nat
  st_list_items :: nat
  st_hash_fields :: nat
  st_approx_bytes :: nat

definition default_stats :: db_stats where
  "default_stats = \<lparr>st_keys = 0, st_expiring_keys = 0, st_strings = 0, st_lists = 0, st_hashes = 0,
     st_list_items = 0, st_hash_fields = 0, st_approx_bytes = 0\<rparr>"

text \<open>The body of the loop over the entries of a shard.\<close>

definition count_entry :: "u128 \<Rightarrow> bytes \<times> entry \<Rightarrow> db_stats \<Rightarrow> db_stats" where
  "count_entry now ke st = (case ke of (key, e) \<Rightarrow>
     if (case expires_at e of Some deadline \<Rightarrow> deadline \<le> now | None \<Rightarrow> False) then st
     else
       let st = st\<lparr>st_keys := st_keys st + 1, st_approx_bytes := st_approx_bytes st + length key\<rparr>;
           st = (if expires_at e \<noteq> None then st\<lparr>st_expiring_keys := st_expiring_keys st + 1\<rparr> else st)
       in (case evalue e of
            VString b \<Rightarrow> st\<lparr>st_strings := st_strings st + 1,
                             st_approx_bytes := st_approx_bytes st + length b\<rparr>
          | VList vs \<Rightarrow> st\<lparr>st_lists := st_lists st + 1, st_list_items := st_list_items st + length vs,
                            st_approx_bytes := st_approx_bytes st + sum_list (map length vs)\<rparr>
          | VHash m \<Rightarrow> st\<lparr>st_hashes := st_hashes st + 1, st_hash_fields := st_hash_fields st + length m,
                           st_approx_bytes := st_approx_bytes st
                             + sum_list (map (\<lambda>(field, v). length field + length v) m)\<rparr>))"

definition stats :: "u128 \<Rightarrow> 'tx db \<Rightarrow> db_stats" where
  "stats now db = fold (\<lambda>s st. fold (count_entry now) (entries s) st) (shards db) default_stats"

section \<open>What the snapshot holds\<close>

abbreviation all_entries :: "'tx db \<Rightarrow> (bytes \<times> entry) list" where
  "all_entries db \<equiv> concat (map entries (shards db))"

lemma db_at_all_entries:
  assumes "db_wf h db"
  shows "db_at h db k = Some e \<longleftrightarrow> (k, e) \<in> set (all_entries db)"
proof -
  have "hm_ok (entries (shard_for h k db))"
    using db_wf_shard [OF assms] by (simp add: wf_shape shape_hm_ok)
  then have "db_at h db k = Some e \<longleftrightarrow> (k, e) \<in> set (entries (shard_for h k db))"
    by (simp add: db_at_def entry_at_def)
  also have "\<dots> \<longleftrightarrow> (k, e) \<in> set (all_entries db)"
  proof
    assume "(k, e) \<in> set (entries (shard_for h k db))"
    moreover have "shard_for h k db \<in> set (shards db)"
      using db_wf_length [OF assms] by (simp add: shard_for_def)
    ultimately show "(k, e) \<in> set (all_entries db)" by auto
  next
    assume "(k, e) \<in> set (all_entries db)"
    then obtain i where i: "i < length (shards db)" "(k, e) \<in> set (entries (shards db ! i))"
      by (auto simp: in_set_conv_nth [of _ "shards db"])
    then have "shard_index h k = i" using assms by (auto simp: db_wf_def)
    with i show "(k, e) \<in> set (entries (shard_for h k db))" by (simp add: shard_for_def)
  qed
  finally show ?thesis .
qed

lemma distinct_all_keys:
  assumes "db_wf h db" shows "distinct (map fst (all_entries db))"
proof (rule distinct_keys_concat [where home = "shard_index h" and n = 0])
  show "\<forall>x \<in> set (map entries (shards db)). hm_ok x"
    using assms by (auto simp: in_set_conv_nth [of _ "shards db"] db_wf_def intro!: shape_hm_ok wf_shape)
  show "shard_index h (fst p) = 0 + i"
    if "i < length (map entries (shards db))" "p \<in> set (map entries (shards db) ! i)" for i p
    using assms that by (cases p) (fastforce simp: db_wf_def)
qed

lemma aof_snapshot_eq:
  "aof_snapshot_entries now db =
     sort_key fst (filter (\<lambda>(k, e). \<not> entry_expired now e) (all_entries db))"
  by (simp add: aof_snapshot_entries_def filter_concat comp_def entry_expired_def case_prod_beta)

lemma distinct_snapshot: "db_wf h db \<Longrightarrow> distinct (map fst (aof_snapshot_entries now db))"
  using distinct_map_filter [OF distinct_all_keys, of h db]
  unfolding aof_snapshot_eq by (simp add: distinct_map)

lemma map_of_aof_snapshot:
  assumes "db_wf h db" shows "map_of (aof_snapshot_entries now db) = db_live h now db"
proof
  fix k
  have "map_of (aof_snapshot_entries now db) k = Some e \<longleftrightarrow> db_live h now db k = Some e" for e
    using map_of_eq_Some_iff [OF distinct_snapshot [OF assms, of now]] db_at_all_entries [OF assms]
    by (auto simp: aof_snapshot_eq db_live_def live_Some)
  then show "map_of (aof_snapshot_entries now db) k = db_live h now db k"
    by (metis not_Some_eq)
qed

text \<open>The order in which the entries are stored does not show in the snapshot.\<close>

lemma aof_snapshot_order:
  assumes "db_wf h db" "db_wf h db'" "db_live h now db = db_live h now db'"
  shows "aof_snapshot_entries now db = aof_snapshot_entries now db'"
proof -
  let ?f = "filter (\<lambda>(k, e). \<not> entry_expired now e)"
  have d: "distinct (map fst (?f (all_entries db)))" "distinct (map fst (?f (all_entries db')))"
    using assms by (auto intro!: distinct_map_filter distinct_all_keys)
  moreover have "set (aof_snapshot_entries now db) = set (aof_snapshot_entries now db')"
    using assms(3) map_of_aof_snapshot [OF assms(1), of now] map_of_aof_snapshot [OF assms(2), of now]
      map_of_inject_set [OF distinct_snapshot [OF assms(1), of now] distinct_snapshot [OF assms(2), of now]]
    by simp
  then have "set (?f (all_entries db)) = set (?f (all_entries db'))"
    by (simp only: aof_snapshot_eq set_sort)
  ultimately show ?thesis
    unfolding aof_snapshot_eq by (intro sort_key_unique)
qed

end
