(* ===== verification/Pubsub.thy ===== *)
theory Pubsub
  imports Db
begin

text \<open>
  The publish/subscribe table of \<^verbatim>\<open>src/src/db/mod.rs\<close>: one broadcast channel per name.
  The channel itself is tokio's: its sender is the type parameter \<open>'tx\<close>, its receiver \<open>'rx\<close>,
  and the calls the source makes are the fields of the record \<open>broadcast\<close>. \<open>broadcast_ok\<close> states
  what tokio documents of them; it is a hypothesis of the lemmas that need it.
\<close>

section \<open>The table\<close>

definition PUBSUB_CHAN_CAP :: nat where "PUBSUB_CHAN_CAP = 1024"

record ('tx, 'rx) broadcast =
  bc_channel :: "nat \<Rightarrow> 'tx"
  bc_subscribe :: "'tx \<Rightarrow> 'rx \<times> 'tx"
  bc_send :: "bytes \<Rightarrow> 'tx \<Rightarrow> nat option \<times> 'tx"
  bc_receiver_count :: "'tx \<Rightarrow> nat"
  bc_drop :: "'rx \<Rightarrow> 'tx \<Rightarrow> 'tx"

definition pubsub_subscribe ::
  "('tx, 'rx) broadcast \<Rightarrow> bytes \<Rightarrow> 'tx db \<Rightarrow> 'rx \<times> 'tx db" where
  "pubsub_subscribe B channel db =
     (let ps = hm_or_insert channel (bc_channel B PUBSUB_CHAN_CAP) (pubsub db);
          tx = (case hm_get ps channel of Some tx \<Rightarrow> tx | None \<Rightarrow> bc_channel B PUBSUB_CHAN_CAP);
          (rx, tx) = bc_subscribe B tx
      in (rx, db\<lparr>pubsub := hm_insert channel tx ps\<rparr>))"

definition pubsub_publish ::
  "('tx, 'rx) broadcast \<Rightarrow> bytes \<Rightarrow> bytes \<Rightarrow> 'tx db \<Rightarrow> nat \<times> 'tx db" where
  "pubsub_publish B channel msg db = (case hm_get (pubsub db) channel of
      Some tx \<Rightarrow>
        let (sent, tx) = bc_send B msg tx;
            r = (case sent of Some n \<Rightarrow> n | None \<Rightarrow> 0)
        in if bc_receiver_count B tx = 0 then (r, db\<lparr>pubsub := hm_remove channel (pubsub db)\<rparr>)
           else (r, db\<lparr>pubsub := hm_insert channel tx (pubsub db)\<rparr>)
    | None \<Rightarrow> (0, db))"

definition pubsub_gc :: "('tx, 'rx) broadcast \<Rightarrow> bytes \<Rightarrow> 'tx db \<Rightarrow> 'tx db" where
  "pubsub_gc B channel db = (case hm_get (pubsub db) channel of
      Some tx \<Rightarrow>
        if bc_receiver_count B tx = 0 then db\<lparr>pubsub := hm_remove channel (pubsub db)\<rparr> else db
    | None \<Rightarrow> db)"

section \<open>What it promises\<close>

text \<open>
  A fresh sender has no receiver (the one \<open>channel()\<close> returns is dropped), each subscription adds
  one, a send reaches every receiver, failing only when there is none, and a receiver that is
  dropped is no longer counted.
\<close>

definition broadcast_ok :: "('tx, 'rx) broadcast \<Rightarrow> bool" where
  "broadcast_ok B \<longleftrightarrow>
     (\<forall>n. bc_receiver_count B (bc_channel B n) = 0) \<and>
     (\<forall>tx. bc_receiver_count B (snd (bc_subscribe B tx)) = Suc (bc_receiver_count B tx)) \<and>
     (\<forall>m tx. fst (bc_send B m tx) =
               (if bc_receiver_count B tx = 0 then None else Some (bc_receiver_count B tx)) \<and>
             bc_receiver_count B (snd (bc_send B m tx)) = bc_receiver_count B tx) \<and>
     (\<forall>rx tx. bc_receiver_count B (bc_drop B rx tx) = bc_receiver_count B tx - 1)"

text \<open>The number of receivers of a channel, 0 for a channel that is not in the table.\<close>

definition subscribers :: "('tx, 'rx) broadcast \<Rightarrow> 'tx db \<Rightarrow> bytes \<Rightarrow> nat" where
  "subscribers B db channel =
     (case hm_get (pubsub db) channel of Some tx \<Rightarrow> bc_receiver_count B tx | None \<Rightarrow> 0)"

text \<open>No channel without a receiver is left in the table.\<close>

definition no_orphans :: "('tx, 'rx) broadcast \<Rightarrow> 'tx db \<Rightarrow> bool" where
  "no_orphans B db \<longleftrightarrow> (\<forall>(channel, tx) \<in> set (pubsub db). bc_receiver_count B tx \<noteq> 0)"

lemma pubsub_shards [simp]:
  "shards (snd (pubsub_subscribe B ch db)) = shards db"
  "shards (snd (pubsub_publish B ch m db)) = shards db"
  "shards (pubsub_gc B ch db) = shards db"
  by (simp_all add: pubsub_subscribe_def pubsub_publish_def pubsub_gc_def Let_def case_prod_beta
      split: option.splits)

lemma db_wf_cong: "shards db = shards db' \<Longrightarrow> db_wf h db = db_wf h db'"
  by (simp add: db_wf_def)

lemma db_at_cong: "shards db = shards db' \<Longrightarrow> db_at h db = db_at h db'"
  by (simp add: db_at_def shard_for_def fun_eq_iff)

lemma pubsub_publish_keyspace:
  "db_wf h (snd (pubsub_publish B ch m db)) = db_wf h db"
  "db_at h (snd (pubsub_publish B ch m db)) = db_at h db"
  by (auto intro!: db_wf_cong db_at_cong)

lemma subscribers_subscribe:
  "broadcast_ok B \<Longrightarrow>
   subscribers B (snd (pubsub_subscribe B ch db)) =
     (subscribers B db)(ch := Suc (subscribers B db ch))"
  by (auto simp: fun_eq_iff subscribers_def pubsub_subscribe_def hm_or_insert_def broadcast_ok_def
      update_conv' Let_def case_prod_beta split: option.splits)

lemma publish_reaches:
  "broadcast_ok B \<Longrightarrow> fst (pubsub_publish B ch m db) = subscribers B db ch"
  by (auto simp: subscribers_def pubsub_publish_def broadcast_ok_def Let_def case_prod_beta
      split: option.splits)

lemma subscribers_publish:
  "broadcast_ok B \<Longrightarrow> subscribers B (snd (pubsub_publish B ch m db)) = subscribers B db"
  by (auto simp: fun_eq_iff subscribers_def pubsub_publish_def broadcast_ok_def update_conv'
      delete_conv' Let_def case_prod_beta split: option.splits)

lemma subscribers_gc: "subscribers B (pubsub_gc B ch db) = subscribers B db"
  by (auto simp: fun_eq_iff subscribers_def pubsub_gc_def delete_conv' split: option.splits)

lemma hm_insert_set: "p \<in> set (hm_insert k v m) \<Longrightarrow> p = (k, v) \<or> p \<in> set m"
  by (induction m) (auto split: if_splits)

lemma no_orphans_steps:
  assumes "broadcast_ok B" "no_orphans B db"
  shows "no_orphans B (snd (pubsub_subscribe B ch db))"
    "no_orphans B (snd (pubsub_publish B ch m db))"
    "no_orphans B (pubsub_gc B ch db)"
proof -
  have live: "(x, tx) \<in> set (pubsub db) \<Longrightarrow> bc_receiver_count B tx \<noteq> 0" for x tx
    using assms(2) by (auto simp: no_orphans_def)
  have upd: "hm_insert ch x (hm_insert ch y m) = hm_insert ch x m" for x y and m :: "(bytes, 'a) hash_map"
    by simp
  have sub: "pubsub (snd (pubsub_subscribe B ch db)) =
      hm_insert ch (snd (bc_subscribe B (case hm_get (pubsub db) ch of
        Some tx \<Rightarrow> tx | None \<Rightarrow> bc_channel B PUBSUB_CHAN_CAP))) (pubsub db)"
    by (simp add: pubsub_subscribe_def hm_or_insert_def Let_def case_prod_beta update_conv' split: option.splits)
  have pos: "bc_receiver_count B (snd (bc_subscribe B tx)) \<noteq> 0" for tx
    using assms(1) by (simp add: broadcast_ok_def)
  show "no_orphans B (snd (pubsub_subscribe B ch db))"
    using live pos unfolding no_orphans_def sub by (auto dest!: hm_insert_set)
  show "no_orphans B (snd (pubsub_publish B ch m db))"
    using live
    by (auto simp: no_orphans_def pubsub_publish_def Let_def case_prod_beta AList.delete_eq
        split: option.splits dest!: hm_insert_set)
  show "no_orphans B (pubsub_gc B ch db)"
    using live by (auto simp: no_orphans_def pubsub_gc_def AList.delete_eq split: option.splits)
qed

text \<open>
  When receivers of a channel have gone (which happens outside the table), the next publication on
  the channel or its garbage collection drops the entry.
\<close>

lemma gc_drops:
  "subscribers B db ch = 0 \<Longrightarrow> hm_get (pubsub (pubsub_gc B ch db)) ch = None"
  by (auto simp: subscribers_def pubsub_gc_def delete_conv' split: option.splits)

lemma publish_drops:
  "broadcast_ok B \<Longrightarrow> subscribers B db ch = 0 \<Longrightarrow>
   hm_get (pubsub (snd (pubsub_publish B ch m db))) ch = None"
  by (auto simp: subscribers_def pubsub_publish_def broadcast_ok_def delete_conv' Let_def case_prod_beta
      split: option.splits)

end
