(* ===== verification/Info.thy ===== *)
theory Info
  imports Snapshot Pubsub
begin

text \<open>
  The \<open>INFO\<close> report of \<^verbatim>\<open>src/src/server.rs\<close> and the statistics of the append-only file it
  prints (\<^verbatim>\<open>src/src/aof.rs\<close>). The process id is a parameter. The clock readings: \<open>c 0\<close> is
  the one of the uptime, \<open>c 1\<close> the one of \<open>Db::stats\<close>.
\<close>

section \<open>The fsync policy and the statistics\<close>

datatype fsync_policy = FsyncAlways | FsyncEverySec | FsyncNo

definition fsync_as_str :: "fsync_policy \<Rightarrow> bytes" where
  "fsync_as_str p = (case p of
      FsyncAlways \<Rightarrow> ''always'' | FsyncEverySec \<Rightarrow> ''everysec'' | FsyncNo \<Rightarrow> ''no'')"

text \<open>\<open>str::to_ascii_lowercase\<close>, then a match on the literals.\<close>

definition fsync_from_str :: "bytes \<Rightarrow> (bytes, fsync_policy) result" where
  "fsync_from_str s =
     (let s = to_ascii_lowercase s in
      if s = ''always'' then Inr FsyncAlways
      else if s = ''everysec'' then Inr FsyncEverySec
      else if s = ''no'' then Inr FsyncNo
      else Inl (''invalid fsync policy: '' @ s))"

record aof_stats =
  as_enabled :: bool
  as_path :: bytes
  as_fsync_policy :: fsync_policy
  as_current_size :: u64
  as_rewrite_in_progress :: bool
  as_rewrite_count :: u64
  as_last_rewrite_status :: bytes
  as_last_rewrite_finished_ms :: u64
  as_write_failed :: bool
  as_last_error :: "bytes option"

record server_state =
  ss_connected_clients :: nat
  ss_total_connections :: u64
  ss_started_at_ms :: u64

section \<open>The report\<close>

definition sanitize_info_value :: "bytes \<Rightarrow> bytes" where
  "sanitize_info_value s = map (\<lambda>c. if c = CR \<or> c = LF then CHR '' '' else c) s"

definition saturating_sub_u64 :: "u64 \<Rightarrow> u64 \<Rightarrow> u64" where
  "saturating_sub_u64 a b = (if a < b then 0 else a - b)"

definition show_u64 :: "u64 \<Rightarrow> bytes" where
  "show_u64 n = show_nat (unat n)"

definition info_line :: "bytes \<Rightarrow> bytes \<Rightarrow> bytes" where
  "info_line name val = name @ '':'' @ val @ crlf"

definition flag :: "bool \<Rightarrow> bytes" where
  "flag b = show_nat (if b then 1 else 0)"

definition info_server :: "bytes \<Rightarrow> clock \<Rightarrow> server_state option \<Rightarrow> bytes" where
  "info_server pid c state =
     ''# Server'' @ crlf
     @ info_line ''redis_version'' ''mini-redis-rs-0.1.0''
     @ info_line ''redis_mode'' ''standalone''
     @ info_line ''arch_bits'' ''64''
     @ info_line ''process_id'' pid
     @ (case state of
          Some st \<Rightarrow> info_line ''uptime_in_seconds''
                       (show_u64 (saturating_sub_u64 (ucast (c 0)) (ss_started_at_ms st) div 1000))
        | None \<Rightarrow> [])
     @ crlf"

definition info_clients :: "server_state option \<Rightarrow> bytes" where
  "info_clients state =
     ''# Clients'' @ crlf
     @ (case state of
          Some st \<Rightarrow> info_line ''connected_clients'' (show_nat (ss_connected_clients st))
                     @ info_line ''total_connections_received'' (show_u64 (ss_total_connections st))
        | None \<Rightarrow> info_line ''connected_clients'' ''0'' @ info_line ''total_connections_received'' ''0'')
     @ crlf"

definition info_memory :: "db_stats \<Rightarrow> bytes" where
  "info_memory st =
     ''# Memory'' @ crlf
     @ info_line ''used_memory'' (show_nat (st_approx_bytes st))
     @ info_line ''db_keys'' (show_nat (st_keys st))
     @ info_line ''db_expiring_keys'' (show_nat (st_expiring_keys st))
     @ info_line ''string_keys'' (show_nat (st_strings st))
     @ info_line ''list_keys'' (show_nat (st_lists st))
     @ info_line ''hash_keys'' (show_nat (st_hashes st))
     @ info_line ''list_items'' (show_nat (st_list_items st))
     @ info_line ''hash_fields'' (show_nat (st_hash_fields st))
     @ crlf"

definition info_persistence :: "aof_stats option \<Rightarrow> bytes" where
  "info_persistence aof =
     ''# Persistence'' @ crlf
     @ (case aof of
          Some st \<Rightarrow>
            info_line ''aof_enabled'' ''1''
            @ info_line ''aof_current_size'' (show_u64 (as_current_size st))
            @ info_line ''aof_fsync'' (fsync_as_str (as_fsync_policy st))
            @ info_line ''aof_rewrite_in_progress'' (flag (as_rewrite_in_progress st))
            @ info_line ''aof_rewrites'' (show_u64 (as_rewrite_count st))
            @ info_line ''aof_last_rewrite_status'' (as_last_rewrite_status st)
            @ info_line ''aof_last_rewrite_time_ms'' (show_u64 (as_last_rewrite_finished_ms st))
            @ info_line ''aof_write_failed'' (flag (as_write_failed st))
            @ (case as_last_error st of
                 Some err \<Rightarrow> info_line ''aof_last_error'' (sanitize_info_value err)
               | None \<Rightarrow> [])
            @ info_line ''aof_filename'' (sanitize_info_value (as_path st))
        | None \<Rightarrow> info_line ''aof_enabled'' ''0'' @ info_line ''aof_rewrite_in_progress'' ''0'')
     @ crlf"

definition info_frame ::
  "bytes \<Rightarrow> clock \<Rightarrow> 'tx db \<Rightarrow> aof_stats option \<Rightarrow> server_state option \<Rightarrow> bytes option \<Rightarrow> frame" where
  "info_frame pid c db aof state section =
     (let wants_all = (case section of Some s \<Rightarrow> s = ''default'' \<or> s = ''all'' | None \<Rightarrow> True);
          include = (\<lambda>name. wants_all \<or> section = Some name)
      in Bulk ((if include ''server'' then info_server pid c state else [])
             @ (if include ''clients'' then info_clients state else [])
             @ (if include ''memory'' then info_memory (stats (c 1) db) else [])
             @ (if include ''persistence'' then info_persistence aof else [])))"

section \<open>Facts\<close>

lemma fsync_round_trip: "fsync_from_str (fsync_as_str p) = Inr p"
  by (cases p) (simp_all add: fsync_as_str_def fsync_from_str_def to_ascii_lowercase_def to_lower_def)

lemma sanitize_info_value_one_line: "CR \<notin> set (sanitize_info_value s)" "LF \<notin> set (sanitize_info_value s)"
  by (auto simp: sanitize_info_value_def CR_def LF_def split: if_splits)

text \<open>The counters of the report are those of the live key space.\<close>

lemma count_entries_keys:
  "st_keys (fold (count_entry now) xs st) =
     st_keys st + length (filter (\<lambda>(k, e). \<not> entry_expired now e) xs)"
  by (induction xs arbitrary: st)
     (auto simp: count_entry_def entry_expired_def Let_def split: option.splits rvalue.splits)

lemma fold_concat_map: "fold f (concat (map g xs)) st = fold (\<lambda>x. fold f (g x)) xs st"
  by (induction xs arbitrary: st) simp_all

lemma stats_fold: "stats now db = fold (count_entry now) (all_entries db) default_stats"
  by (simp add: stats_def fold_concat_map)

lemma stats_keys:
  assumes "db_wf h db"
  shows "st_keys (stats now db) = card (dom (db_live h now db))"
proof -
  let ?xs = "filter (\<lambda>(k, e). \<not> entry_expired now e) (all_entries db)"
  have d: "distinct (map fst ?xs)"
    using distinct_all_keys [OF assms] by (rule distinct_map_filter)
  have "dom (db_live h now db) = fst ` set ?xs"
    using db_at_all_entries [OF assms] by (force simp: db_live_def dom_def live_Some image_def)
  then have "card (dom (db_live h now db)) = length ?xs"
    using distinct_card [OF d] by simp
  then show ?thesis
    by (simp add: stats_fold count_entries_keys default_stats_def)
qed

end
