(* ===== verification/Apply.thy ===== *)
theory Apply
  imports Request Info
begin

text \<open>
  \<open>Command::apply\<close> of \<^verbatim>\<open>src/src/cmd/mod.rs\<close>: every command on the database. The record \<open>env\<close>
  holds what is not under \<^verbatim>\<open>src\<close>: the hash function \<open>xxh64\<close>, the iteration order of a Rust
  \<open>HashMap\<close>, tokio's broadcast channels and the process id.

  \<open>spec_apply\<close> is the abstract specification: the key space is one map from keys to live entries,
  without shards, stale entries or an expiry index. The lemma \<open>apply_refines\<close> says that \<open>apply\<close>
  implements it.
\<close>

section \<open>Command::apply\<close>

record ('tx, 'rx) env =
  xxh :: "bytes \<Rightarrow> u64"
  hash_iter :: hash_order
  chans :: "('tx, 'rx) broadcast"
  process_id :: bytes

definition sanitize_name :: "bytes \<Rightarrow> bytes" where
  "sanitize_name name = map (\<lambda>c. if c = CR \<or> c = LF then CHR ''?'' else c) name"

abbreviation read_only :: "frame \<Rightarrow> 'tx db \<Rightarrow> frame \<times> 'tx db" where
  "read_only f db \<equiv> (f, db)"

fun apply_cmd :: "('tx, 'rx) env \<Rightarrow> clock \<Rightarrow> command \<Rightarrow> 'tx db \<Rightarrow> frame \<times> 'tx db" where
  "apply_cmd E c (Ping None) db = read_only (Simple ''PONG'') db"
| "apply_cmd E c (Ping (Some msg)) db = read_only (Bulk msg) db"
| "apply_cmd E c (Echo msg) db = read_only (Bulk msg) db"
| "apply_cmd E c (Get k) db = read_only (get (xxh E) c k db) db"
| "apply_cmd E c (Set key val exp) db = set_at (xxh E) key val exp db"
| "apply_cmd E c (Del keys) db = del (xxh E) c keys db"
| "apply_cmd E c (Exists keys) db = read_only (exists (xxh E) c keys db) db"
| "apply_cmd E c (Incr k) db = incr (xxh E) c k 1 db"
| "apply_cmd E c (Decr k) db = incr (xxh E) c k (-1) db"
| "apply_cmd E c (IncrBy k n) db = incr (xxh E) c k n db"
| "apply_cmd E c (DecrBy k n) db = (case checked_neg_i64 n of
      Some neg \<Rightarrow> incr (xxh E) c k neg db
    | None \<Rightarrow> (OVERFLOW, db))"
| "apply_cmd E c (Append k v) db = append_cmd (xxh E) c k v db"
| "apply_cmd E c (Strlen k) db = read_only (strlen (xxh E) c k db) db"
| "apply_cmd E c (MGet keys) db = read_only (mget (xxh E) c keys db) db"
| "apply_cmd E c (MSet pairs) db = mset_cmd (xxh E) pairs db"
| "apply_cmd E c (Expire k d) db = expire_at (xxh E) c k d db"
| "apply_cmd E c (PExpire k d) db = expire_at (xxh E) c k d db"
| "apply_cmd E c (PExpireAt k d) db = expire_at (xxh E) c k d db"
| "apply_cmd E c (Ttl k) db = read_only (ttl (xxh E) c k False db) db"
| "apply_cmd E c (PTtl k) db = read_only (ttl (xxh E) c k True db) db"
| "apply_cmd E c (Persist k) db = persist (xxh E) c k db"
| "apply_cmd E c (LPush k vs) db = lpush (xxh E) c k vs db"
| "apply_cmd E c (RPush k vs) db = rpush (xxh E) c k vs db"
| "apply_cmd E c (LPop k n) db = lpop (xxh E) c k n db"
| "apply_cmd E c (RPop k n) db = rpop (xxh E) c k n db"
| "apply_cmd E c (LRange k a b) db = read_only (lrange (xxh E) c k a b db) db"
| "apply_cmd E c (LLen k) db = read_only (llen (xxh E) c k db) db"
| "apply_cmd E c (LIndex k i) db = read_only (lindex (xxh E) c k i db) db"
| "apply_cmd E c (HSet k pairs) db = hset (xxh E) c k pairs db"
| "apply_cmd E c (HGet k f) db = read_only (hget (xxh E) c k f db) db"
| "apply_cmd E c (HDel k fs) db = hdel (xxh E) c k fs db"
| "apply_cmd E c (HKeys k) db = read_only (hkeys (xxh E) c (hash_iter E) k db) db"
| "apply_cmd E c (HVals k) db = read_only (hvals (xxh E) c (hash_iter E) k db) db"
| "apply_cmd E c (HGetAll k) db = read_only (hgetall (xxh E) c (hash_iter E) k db) db"
| "apply_cmd E c (HExists k f) db = read_only (hexists (xxh E) c k f db) db"
| "apply_cmd E c (HLen k) db = read_only (hlen (xxh E) c k db) db"
| "apply_cmd E c (HIncrBy k f n) db = hincrby (xxh E) c k f n db"
| "apply_cmd E c (Publish ch msg) db =
     (case pubsub_publish (chans E) ch msg db of (n, db) \<Rightarrow> (Integer (i64_of_usize n), db))"
| "apply_cmd E c (Info_cmd section) db =
     read_only (info_frame (process_id E) c db None None section) db"
| "apply_cmd E c BgRewriteAof db = read_only (Error ''ERR AOF is not enabled'') db"
| "apply_cmd E c (Subscribe _) db =
     read_only (Error ''ERR SUBSCRIBE/UNSUBSCRIBE must be handled by connection'') db"
| "apply_cmd E c (Unsubscribe _) db =
     read_only (Error ''ERR SUBSCRIBE/UNSUBSCRIBE must be handled by connection'') db"
| "apply_cmd E c (Unknown name) db =
     read_only (Error (''ERR unknown command '' @ [CHR 0x27] @ sanitize_name name @ [CHR 0x27])) db"

section \<open>Invariant and frame\<close>

lemmas key_commands = set_at_def incr_def append_cmd_def expire_at_def persist_def lpush_def rpush_def
  push_def lpop_def rpop_def pop_def hset_def hdel_def hincrby_def

lemma mset_cmd_keeps:
  assumes "db_wf h db" shows "keeps h (map fst pairs) db (snd (mset_cmd h pairs db))"
proof (cases "\<exists>p \<in> set pairs. \<not> bulk_response_fits (length (snd p))")
  case True
  then show ?thesis using assms by (simp add: mset_cmd_def keeps_refl)
next
  case False
  let ?m = "map_of (rev (map (\<lambda>(k, v). (k, string_entry v None)) pairs))"
  have "k \<notin> fst ` set pairs \<Longrightarrow> ?m k = None" for k
    by (force simp: map_of_eq_None_notin)
  with False mset_fold_view [OF assms, of pairs] show ?thesis
    by (auto simp: mset_cmd_def keeps_def map_add_def split: option.splits)
qed

lemma del_keeps:
  assumes "db_wf h db" shows "keeps h keys db (snd (del h c keys db))"
  using del_loop_wf [OF assms, of c 0 0 keys] by (simp add: del_def case_prod_beta keeps_def)

lemmas keeps_intros = keeps_refl mset_cmd_keeps del_keeps
  set_at.keeps_with_shard incr.keeps_with_shard append.keeps_with_shard
  expire_at_local.keeps_with_shard persist.keeps_with_shard push.keeps_with_shard
  pop.keeps_with_shard hset.keeps_with_shard hdel.keeps_with_shard hincrby.keeps_with_shard

lemma publish_keeps: "db_wf h db \<Longrightarrow> keeps h ks db (snd (pubsub_publish B ch m db))"
  by (simp add: keeps_def pubsub_publish_keyspace)

lemma apply_keeps:
  "db_wf (xxh E) db \<Longrightarrow> keeps (xxh E) (mutated_keys cmd) db (snd (apply_cmd E c cmd db))"
proof (induction E c cmd db rule: apply_cmd.induct)
qed (auto simp: key_commands case_prod_beta intro!: keeps_intros publish_keeps split: option.splits)

section \<open>The abstract specification\<close>

text \<open>
  One map from keys to live entries. The reply is \<^const>\<open>None\<close> where it is not a function of the key
  space alone (the receivers of a message, the report of \<open>INFO\<close>).
\<close>

type_synonym keyspace = "bytes \<Rightarrow> entry option"

definition reply :: "frame \<times> keyspace \<Rightarrow> frame option \<times> keyspace" where
  "reply p = (case p of (r, m) \<Rightarrow> (Some r, m))"

fun spec_apply :: "hash_order \<Rightarrow> u128 \<Rightarrow> command \<Rightarrow> keyspace \<Rightarrow> frame option \<times> keyspace" where
  "spec_apply ord now (Ping None) m = (Some (Simple ''PONG''), m)"
| "spec_apply ord now (Ping (Some msg)) m = (Some (Bulk msg), m)"
| "spec_apply ord now (Echo msg) m = (Some (Bulk msg), m)"
| "spec_apply ord now (Get k) m = (Some (spec_get (m k)), m)"
| "spec_apply ord now (Set key val exp) m =
     (if bulk_response_fits (length val) then reply (at_key key (spec_set now val exp) m)
      else (Some response_too_large, m))"
| "spec_apply ord now (Del keys) m =
     (Some (Integer (of_nat (card (set keys \<inter> dom m)))), m |` (- set keys))"
| "spec_apply ord now (Exists keys) m =
     (Some (Integer (of_nat (length (filter (\<lambda>k. m k \<noteq> None) keys)))), m)"
| "spec_apply ord now (Incr k) m = reply (at_key k (spec_incr 1) m)"
| "spec_apply ord now (Decr k) m = reply (at_key k (spec_incr (-1)) m)"
| "spec_apply ord now (IncrBy k n) m = reply (at_key k (spec_incr n) m)"
| "spec_apply ord now (DecrBy k n) m =
     (if sint n = i64_min then (Some OVERFLOW, m) else reply (at_key k (spec_incr (- n)) m))"
| "spec_apply ord now (Append k v) m = reply (at_key k (spec_append v) m)"
| "spec_apply ord now (Strlen k) m = (Some (spec_strlen (m k)), m)"
| "spec_apply ord now (MGet keys) m = (Some (or_too_large (Array (map (spec_mget m) keys))), m)"
| "spec_apply ord now (MSet pairs) m =
     (if \<forall>(k, v) \<in> set pairs. bulk_response_fits (length v)
      then (Some OK, m ++ map_of (rev (map (\<lambda>(k, v). (k, string_entry v None)) pairs)))
      else (Some response_too_large, m))"
| "spec_apply ord now (Expire k d) m = reply (at_key k (spec_expire_at now d) m)"
| "spec_apply ord now (PExpire k d) m = reply (at_key k (spec_expire_at now d) m)"
| "spec_apply ord now (PExpireAt k d) m = reply (at_key k (spec_expire_at now d) m)"
| "spec_apply ord now (Ttl k) m = (Some (spec_ttl now False (m k)), m)"
| "spec_apply ord now (PTtl k) m = (Some (spec_ttl now True (m k)), m)"
| "spec_apply ord now (Persist k) m = reply (at_key k spec_persist m)"
| "spec_apply ord now (LPush k vs) m = reply (at_key k (spec_push vs LeftSide) m)"
| "spec_apply ord now (RPush k vs) m = reply (at_key k (spec_push vs RightSide) m)"
| "spec_apply ord now (LPop k n) m = reply (at_key k (spec_pop n LeftSide) m)"
| "spec_apply ord now (RPop k n) m = reply (at_key k (spec_pop n RightSide) m)"
| "spec_apply ord now (LRange k a b) m = (Some (spec_lrange a b (m k)), m)"
| "spec_apply ord now (LLen k) m = (Some (spec_llen (m k)), m)"
| "spec_apply ord now (LIndex k i) m = (Some (spec_lindex i (m k)), m)"
| "spec_apply ord now (HSet k pairs) m = reply (at_key k (spec_hset pairs) m)"
| "spec_apply ord now (HGet k f) m = (Some (spec_hash Null
     (\<lambda>hm. case hm_get hm f of Some v \<Rightarrow> Bulk v | None \<Rightarrow> Null) (m k)), m)"
| "spec_apply ord now (HDel k fs) m = reply (at_key k (spec_hdel fs) m)"
| "spec_apply ord now (HKeys k) m = (Some (spec_hash (Array [])
     (\<lambda>hm. bulk_array (length hm) (map fst (ord hm))) (m k)), m)"
| "spec_apply ord now (HVals k) m = (Some (spec_hash (Array [])
     (\<lambda>hm. bulk_array (length hm) (map snd (ord hm))) (m k)), m)"
| "spec_apply ord now (HGetAll k) m = (Some (spec_hash (Array []) (hgetall_hash ord) (m k)), m)"
| "spec_apply ord now (HExists k f) m = (Some (spec_hash (Integer 0)
     (\<lambda>hm. Integer (if hm_get hm f \<noteq> None then 1 else 0)) (m k)), m)"
| "spec_apply ord now (HLen k) m =
     (Some (spec_hash (Integer 0) (\<lambda>hm. Integer (i64_of_usize (length hm))) (m k)), m)"
| "spec_apply ord now (HIncrBy k f n) m = reply (at_key k (spec_hincrby f n) m)"
| "spec_apply ord now (Publish ch msg) m = (None, m)"
| "spec_apply ord now (Info_cmd section) m = (None, m)"
| "spec_apply ord now BgRewriteAof m = (Some (Error ''ERR AOF is not enabled''), m)"
| "spec_apply ord now (Subscribe _) m =
     (Some (Error ''ERR SUBSCRIBE/UNSUBSCRIBE must be handled by connection''), m)"
| "spec_apply ord now (Unsubscribe _) m =
     (Some (Error ''ERR SUBSCRIBE/UNSUBSCRIBE must be handled by connection''), m)"
| "spec_apply ord now (Unknown name) m =
     (Some (Error (''ERR unknown command '' @ [CHR 0x27] @ sanitize_name name @ [CHR 0x27])), m)"

section \<open>apply implements the specification\<close>

lemmas key_refines = set_at.refines incr.refines append.refines expire_at.refines persist.refines
  push.refines pop.refines hset.refines hdel.refines hincrby.refines

lemmas read_refines = get.read_refines strlen.read_refines ttl.read_refines lrange.read_refines
  llen.read_refines lindex.read_refines hget.read_refines hkeys.read_refines hvals.read_refines
  hgetall.read_refines hexists.read_refines hlen.read_refines

lemmas read_commands = get_def strlen_def ttl_def lrange_def llen_def lindex_def hget_def hkeys_def
  hvals_def hgetall_def hexists_def hlen_def

lemma db_live_restrict: "db_at h db' = db_at h db |` A \<Longrightarrow> db_live h now db' = db_live h now db |` A"
  by (auto simp: db_live_def restrict_map_def fun_eq_iff)

lemma del_refines:
  assumes "db_wf h db"
  shows "fst (del h (\<lambda>_. now) keys db) = Integer (of_nat (card (set keys \<inter> dom (db_live h now db))))"
    "db_live h now (snd (del h (\<lambda>_. now) keys db)) = db_live h now db |` (- set keys)"
  using del_loop_wf [OF assms, of "\<lambda>_. now" 0 0 keys] del_loop_count [OF assms, of now 0 0 keys]
  by (auto simp: del_def case_prod_beta intro: db_live_restrict)

lemma exists_refines:
  "db_wf h db \<Longrightarrow> exists h (\<lambda>_. now) keys db =
     Integer (of_nat (length (filter (\<lambda>k. db_live h now db k \<noteq> None) keys)))"
  by (simp only: exists_def exists_loop_count add_0)

lemma mset_refines:
  assumes "db_wf h db"
  shows "mset_cmd h pairs db = (r, db') \<Longrightarrow>
    (r, db_live h now db') =
      (if \<forall>(k, v) \<in> set pairs. bulk_response_fits (length v)
       then (OK, db_live h now db ++ map_of (rev (map (\<lambda>(k, v). (k, string_entry v None)) pairs)))
       else (response_too_large, db_live h now db))"
proof -
  let ?ps = "rev (map (\<lambda>(k, v). (k, string_entry v None)) pairs)"
  let ?db = "fold (\<lambda>(k, v) db. snd (with_shard h k (mset_key k v) db)) pairs db"
  have live: "expires_at e = None" if "map_of ?ps k = Some e" for k e
    using map_of_SomeD [OF that] by auto
  have "db_live h now ?db = db_live h now db ++ map_of ?ps"
    using mset_fold_view [OF assms, of pairs]
    by (auto simp: db_live_def map_add_def fun_eq_iff live split: option.splits)
  moreover assume "mset_cmd h pairs db = (r, db')"
  ultimately show ?thesis by (auto simp: mset_cmd_def split: if_splits)
qed

lemma mget_refines:
  assumes "db_wf h db"
  shows "mget h (\<lambda>_. now) keys db = or_too_large (Array (map (spec_mget (db_live h now db)) keys))"
proof -
  let ?fs = "map (spec_mget (db_live h now db)) keys"
  let ?n = "length (show_nat (length keys)) + 3"
  have fits: "fits_response (Array ?fs) \<longleftrightarrow>
      ?n + length (concat (map encode ?fs)) \<le> MAX_RESPONSE_FRAME_BYTES"
    unfolding fits_response_def by (simp add: comp_def) arith
  show ?thesis
  proof (cases "?n \<le> MAX_RESPONSE_FRAME_BYTES")
    case True
    then have "resp_array_header_len (length keys) = Some ?n"
      by (simp add: resp_array_header_len_Some limits_values)
    then have "mget h (\<lambda>_. now) keys db = (case mget_loop h (\<lambda>_. now) 0 ?n keys db of
        None \<Rightarrow> response_too_large | Some frames \<Rightarrow> Array frames)"
      by (simp only: mget_def option.case)
    moreover have "mget_loop h (\<lambda>_. now) 0 ?n keys db = (if fits_response (Array ?fs) then Some ?fs else None)"
      by (simp only: mget_loop_eq [OF True] Let_def fits)
    ultimately show ?thesis by (cases "fits_response (Array ?fs)") (simp_all add: or_too_large_def)
  next
    case False
    then obtain k ks where keys: "keys = k # ks"
      by (cases keys) (auto simp: show_nat.simps limits_values)
    have "mget_key now ?n k s = None" for s
      using False
      by (auto simp: mget_key_def checked_add_response_len_None bind_eq_None_conv
          split: option.splits rvalue.splits)
    then have "mget_loop h (\<lambda>_. now) 0 ?n keys db = None" by (simp add: keys)
    then have "mget h (\<lambda>_. now) keys db = response_too_large"
      by (auto simp: mget_def resp_array_header_len_Some split: option.split)
    moreover have "\<not> fits_response (Array ?fs)" using False fits by linarith
    ultimately show ?thesis by (simp add: or_too_large_def)
  qed
qed

text \<open>
  \<open>implements now r p m\<close>: the reply and the database \<open>p\<close> an operation returns are what the
  specification \<open>r\<close> says.
\<close>

definition implements :: "(bytes \<Rightarrow> u64) \<Rightarrow> u128 \<Rightarrow> frame \<times> 'tx db \<Rightarrow> frame option \<times> keyspace \<Rightarrow> bool" where
  "implements h now p spec \<longleftrightarrow>
     db_live h now (snd p) = snd spec \<and> (fst spec \<noteq> None \<longrightarrow> fst spec = Some (fst p))"

lemma implements_key:
  "at_key k g m = (fst p, db_live h now (snd p)) \<Longrightarrow> implements h now p (reply (at_key k g m))"
  by (simp add: implements_def reply_def)

lemma implements_read: "r = r' \<Longrightarrow> implements h now (r, db) (Some r', db_live h now db)"
  by (simp add: implements_def)

lemma implements_unspecified: "implements h now (r, db) (None, db_live h now db)"
  by (simp add: implements_def)

lemma apply_refines:
  assumes "db_wf (xxh E) db"
  shows "implements (xxh E) now (apply_cmd E (\<lambda>_. now) cmd db)
           (spec_apply (hash_iter E) now cmd (db_live (xxh E) now db))"
  using assms
proof (induction E "\<lambda>_ :: nat. now" cmd db rule: apply_cmd.induct)
  case (6 E keys db)
  then show ?case using del_refines [OF 6, of now keys] by (simp add: implements_def)
next
  case (11 E k n db)
  then show ?case
    by (cases "sint n = i64_min")
       (auto simp: checked_neg_i64_def key_commands intro!: implements_key implements_read key_refines)
next
  case (15 E pairs db)
  then show ?case using mset_refines [OF 15, of pairs _ _ now]
    by (cases "mset_cmd (xxh E) pairs db") (auto simp: implements_def split: if_splits)
next
  case (38 E ch msg db)
  then show ?case
    by (simp add: implements_def case_prod_beta db_live_def pubsub_publish_keyspace fun_eq_iff)
qed (auto simp: key_commands read_commands read_refines exists_refines mget_refines
       intro!: implements_key implements_read implements_unspecified key_refines)

section \<open>Reads, errors, rollback, replay\<close>

lemma read_keeps_shards: "\<not> is_write cmd \<Longrightarrow> shards (snd (apply_cmd E c cmd db)) = shards db"
  by (induction E c cmd db rule: apply_cmd.induct) (simp_all add: case_prod_beta)

text \<open>
  A command that answers with an error has not changed the live key space, so that not logging it
  is right. For \<open>APPEND\<close> this needs the suffix to be within the limit of a bulk string, which the
  parser guarantees: otherwise the empty string it creates for a missing key stays.
\<close>

fun append_fits :: "command \<Rightarrow> bool" where
  "append_fits (Append k v) \<longleftrightarrow> bulk_response_fits (length v)"
| "append_fits _ \<longleftrightarrow> True"

lemma spec_key_errors:
  "fst (spec_incr n eo) = Error msg \<Longrightarrow> snd (spec_incr n eo) = eo"
  "bulk_response_fits (length v) \<Longrightarrow> fst (spec_append v eo) = Error msg \<Longrightarrow> snd (spec_append v eo) = eo"
  "fst (spec_expire_at now d eo) \<noteq> Error msg"
  "fst (spec_persist eo) \<noteq> Error msg"
  "fst (spec_push vs sd eo) = Error msg \<Longrightarrow> snd (spec_push vs sd eo) = eo"
  "fst (spec_pop cnt sd eo) = Error msg \<Longrightarrow> snd (spec_pop cnt sd eo) = eo"
  "fst (spec_hset pairs eo) = Error msg \<Longrightarrow> snd (spec_hset pairs eo) = eo"
  "fst (spec_hdel fs eo) = Error msg \<Longrightarrow> snd (spec_hdel fs eo) = eo"
  "fst (spec_hincrby f n eo) = Error msg \<Longrightarrow> snd (spec_hincrby f n eo) = eo"
  by (auto simp: spec_incr_def spec_append_def spec_expire_at_def spec_persist_def spec_push_def
      spec_pop_def spec_hset_def spec_hdel_def spec_hincrby_def Let_def
      split: option.splits rvalue.splits if_splits)

lemma reply_at_key_error:
  "(\<And>msg eo. fst (g eo) = Error msg \<Longrightarrow> snd (g eo) = eo) \<Longrightarrow>
   fst (reply (at_key k g m)) = Some (Error msg) \<Longrightarrow> snd (reply (at_key k g m)) = m"
  by (auto simp: reply_def at_key_def split: prod.splits) (metis fst_conv fun_upd_triv snd_conv)

lemma spec_apply_error:
  "append_fits cmd \<Longrightarrow> fst (spec_apply ord now cmd m) = Some (Error msg) \<Longrightarrow>
   snd (spec_apply ord now cmd m) = m"
proof (induction ord now cmd m rule: spec_apply.induct)
qed (auto simp: spec_key_errors OK_def spec_set_def split: if_splits intro: reply_at_key_error)

lemma spec_apply_unspecified: "fst (spec_apply ord now cmd m) = None \<Longrightarrow> snd (spec_apply ord now cmd m) = m"
  by (induction ord now cmd m rule: spec_apply.induct)
     (auto simp: reply_def split: if_splits prod.splits)

lemma error_keeps_live:
  assumes "db_wf (xxh E) db" "append_fits cmd" "fst (apply_cmd E (\<lambda>_. now) cmd db) = Error msg"
  shows "db_live (xxh E) now (snd (apply_cmd E (\<lambda>_. now) cmd db)) = db_live (xxh E) now db"
proof -
  let ?sp = "spec_apply (hash_iter E) now cmd (db_live (xxh E) now db)"
  have i: "db_live (xxh E) now (snd (apply_cmd E (\<lambda>_. now) cmd db)) = snd ?sp"
    "fst ?sp \<noteq> None \<Longrightarrow> fst ?sp = Some (Error msg)"
    using apply_refines [OF assms(1), of now cmd] assms(3) by (simp_all add: implements_def)
  then show ?thesis
    using spec_apply_error [OF assms(2)] spec_apply_unspecified by (cases "fst ?sp") simp_all
qed

text \<open>Restoring the snapshot of the keys a command may change undoes the command.\<close>

lemma rollback_restores:
  assumes wf: "db_wf h db" and k: "keeps h keys db db'"
  shows "db_wf h (restore_entries h (snapshot_entries h keys db) db')"
    "db_at h (restore_entries h (snapshot_entries h keys db) db') = db_at h db"
proof -
  let ?sn = "snapshot_entries h keys db"
  have "db_wf h db'" using k by (simp add: keeps_def)
  note r = restore_entries_view [OF this distinct_snapshot_keys [of h keys db]]
  show "db_wf h (restore_entries h ?sn db')" using r by simp
  show "db_at h (restore_entries h ?sn db') = db_at h db"
    using r k by (auto simp: map_of_snapshot keeps_def fun_eq_iff)
qed

text \<open>
  The command read back from the log acts as the logged one, unless it is a \<open>SET\<close> whose deadline is
  beyond the largest \<open>i64\<close> and the time has moved on.
\<close>

fun exact_deadline :: "u128 \<Rightarrow> u128 \<Rightarrow> command \<Rightarrow> bool" where
  "exact_deadline now now' (Set key val (Some d)) \<longleftrightarrow>
     d \<le> MAX_EXPIRE_AT_MS \<or> (now' = now \<and> now < d \<and> d - now \<le> MAX_EXPIRE_AT_MS)"
| "exact_deadline now now' _ \<longleftrightarrow> True"

lemma relative_millis_exact:
  assumes "now < d" "d - now \<le> MAX_EXPIRE_AT_MS"
  shows "now + relative_millis_for_aof now d = d"
proof -
  have "1 \<le> d - now" using assms(1) by (simp add: word_le_nat_alt unat_u128_diff word_less_nat_alt)
  moreover have "saturating_sub_u128 d now = d - now"
    using assms(1) by (auto simp: saturating_sub_u128_def)
  ultimately show ?thesis
    using assms(2) by (simp only: relative_millis_for_aof_def min_absorb2 max_absorb2) simp
qed

lemma read_back_apply:
  "exact_deadline now now' cmd \<Longrightarrow> apply_cmd E c (read_back now now' cmd) db = apply_cmd E c cmd db"
  by (induction now now' cmd rule: read_back.induct) (auto simp: relative_millis_exact)

text \<open>The suffix of an \<open>APPEND\<close> that came off the wire is a bulk string the parser accepted.\<close>

definition append_from :: "bytes list \<Rightarrow> command parsed \<Rightarrow> bool" where
  "append_from rest r \<longleftrightarrow> (\<forall>k v. r = Inr (Append k v) \<longrightarrow> v \<in> set rest)"

lemma append_from_intros:
  "(b \<Longrightarrow> append_from rest x) \<Longrightarrow> (\<not> b \<Longrightarrow> append_from rest y) \<Longrightarrow> append_from rest (if b then x else y)"
  "append_from rest (Inl e)"
  "(\<And>k v. cmd = Append k v \<Longrightarrow> v \<in> set rest) \<Longrightarrow> append_from rest (Inr cmd)"
  "(\<And>a. r = Inr a \<Longrightarrow> append_from rest (g a)) \<Longrightarrow> append_from rest (bind_result r g)"
  "(\<And>a. r' = Inr a \<Longrightarrow> append_from rest (Inr (f a))) \<Longrightarrow> append_from rest (map_result f r')"
  "(l = [] \<Longrightarrow> append_from rest x) \<Longrightarrow> (\<And>a as. l = a # as \<Longrightarrow> append_from rest (h a as)) \<Longrightarrow>
   append_from rest (case l of [] \<Rightarrow> x | a # as \<Rightarrow> h a as)"
  by (auto simp: append_from_def result_cases split: list.splits) (metis sum.inject(2))

lemma parse_command_append: "append_from rest (parse_command now name rest)"
  unfolding parse_command_def parse_connection_command_def Let_def one_arg_def parse_set_def
  by (intro append_from_intros) (auto split: prod.splits)

lemma expect_bulks_frames: "expect_bulks i fs = Inr bs \<Longrightarrow> fs = map Bulk bs"
  by (induction i fs arbitrary: bs rule: expect_bulks.induct)
     (auto simp: result_cases expect_bulk_def split: frame.splits)

lemma from_frame_append_fits:
  assumes "from_frame now f = Inr cmd" "frame_wf 0 f" shows "append_fits cmd"
proof (cases cmd)
  case (Append k v)
  obtain name items bs where f: "f = Array (name # items)" and b: "expect_bulks 1 items = Inr bs"
      and "\<exists>n. parse_command now n bs = Inr cmd"
    using assms(1) by (auto simp: from_frame_def bind_result_Inr split: frame.splits list.splits if_splits)
  then have "v \<in> set bs" using parse_command_append Append by (fastforce simp: append_from_def)
  then show ?thesis using assms(2) by (auto simp: Append f expect_bulks_frames [OF b])
qed simp_all

end
