(* ===== verification/Wire.thy ===== *)
theory Wire
  imports Codec Apply
begin

text \<open>
  What the parser guarantees of a request: the bounds it enforces on every frame it returns, for
  both the RESP and the inline form, and with them that a command that arrives over the wire can be
  logged and read back.
\<close>

section \<open>The bounds of a parsed frame\<close>

text \<open>
  As \<open>frame_wf\<close>, without the condition on lines: the length limit of a line is only checked while
  its end has not arrived.
\<close>

fun frame_bounded :: "nat \<Rightarrow> frame \<Rightarrow> bool" where
  "frame_bounded d (Bulk b) \<longleftrightarrow> d \<le> MAX_NESTING_DEPTH \<and> bulk_response_fits (length b)"
| "frame_bounded d (Array items) \<longleftrightarrow>
     d \<le> MAX_NESTING_DEPTH \<and> length items \<le> MAX_ARRAY_LEN \<and> (\<forall>f \<in> set items. frame_bounded (Suc d) f)"
| "frame_bounded d _ \<longleftrightarrow> d \<le> MAX_NESTING_DEPTH"

lemma parse_items_length: "parse_items n d c = Inr (fs, r) \<Longrightarrow> length fs = n"
  by (induction n arbitrary: c fs r) (auto simp: result_cases)

lemma parse_items_le: "parse_items n d c = Inr (fs, r) \<Longrightarrow> n \<le> m \<Longrightarrow> length fs \<le> m"
  by (simp add: parse_items_length)

lemma parse_bulk_bounded:
  "parse_bulk c = Inr (f, r) \<Longrightarrow> d \<le> MAX_NESTING_DEPTH \<Longrightarrow> frame_bounded d f"
  by (auto simp: parse_bulk_Inr dest: drop_crlf_length)

lemma parse_frame_bounded_aux:
  "parse_frame d c = Inr (f, r) \<Longrightarrow> frame_bounded d f"
  "parse_items n d c = Inr (fs, r') \<Longrightarrow> \<forall>f \<in> set fs. frame_bounded d f"
proof (induction d c and n d c arbitrary: f r and fs r' rule: parse_frame_parse_items.induct)
  case (1 depth c)
  from "1.prems" have d: "depth \<le> MAX_NESTING_DEPTH" by (rule parse_frame_Inr_depth)
  then obtain tag c' where c: "c = tag # c'"
    using "1.prems" by (cases c) (auto simp: parse_frame_Nil)
  show ?case
    using "1.prems" d "1.IH"
    by (auto simp: c parse_frame_Cons read_u8_def result_cases parse_bulk_bounded not_less
        split: if_splits intro: parse_items_le)
next
  case (3 n d c)
  then show ?case by (fastforce simp: result_cases)
qed simp

lemma parse_frame_bounded: "parse_frame d c = Inr (f, r) \<Longrightarrow> frame_bounded d f"
  by (rule parse_frame_bounded_aux)

section \<open>Inline requests\<close>

lemma read_inline_quoted_grows:
  "read_inline_quoted quote out s = Inr (out', s') \<Longrightarrow> length out' + length s' < length out + length s"
proof (induction quote out s rule: read_inline_quoted.induct)
  case (2 quote out byte s)
  then show ?case
    by (fastforce split: if_splits list.splits prod.splits dest: inline_escape_length)
qed simp

lemma read_inline_arg_grows:
  "read_inline_arg out s = Inr (out', s') \<Longrightarrow> length out' + length s' \<le> length out + length s"
proof (induction out s rule: read_inline_arg.induct)
  case (2 out byte s)
  then show ?case
    by (fastforce split: if_splits sum.splits list.splits dest: read_inline_quoted_grows)
qed simp

lemma split_inline_args_bounds:
  "split_inline_args line = Inr args \<Longrightarrow>
   length args \<le> length line \<and> (\<forall>a \<in> set args. length a \<le> length line)"
proof (induction line arbitrary: args rule: split_inline_args.induct)
  case (1 line)
  define s where "s = dropWhile is_inline_space line"
  have le: "length s \<le> length line" by (simp add: s_def length_dropWhile_le)
  show ?case
  proof (cases "s = []")
    case True
    with "1.prems" show ?thesis by (simp add: split_inline_args.simps [of line] s_def)
  next
    case False
    then obtain a s' as where r: "read_inline_arg [] s = Inr (a, s')"
        and as: "split_inline_args s' = Inr as" "args = a # as"
      using "1.prems" unfolding split_inline_args.simps [of line] Let_def s_def [symmetric]
      by (auto simp: result_cases split: sum.splits)
    have "\<not> is_inline_space (hd s)" using False hd_dropWhile unfolding s_def by blast
    then have "length s' < length s" using read_inline_arg_progress [OF r False] by simp
    moreover have "length a \<le> length s" using read_inline_arg_grows [OF r] by simp
    moreover have "length as \<le> length s' \<and> (\<forall>a \<in> set as. length a \<le> length s')"
      using "1.IH" [OF s_def False r _ as(1)] by simp
    ultimately show ?thesis using le as(2) by fastforce
  qed
qed

lemma parse_inline_bounded:
  assumes "parse_inline buf = Inr (Some f, r)" shows "frame_bounded 0 f"
proof -
  obtain n where n: "n \<le> MAX_LINE_LEN" "inline_frame (strip_cr (take n buf)) = Inr (Some f)"
    using assms by (auto simp: parse_inline_def result_cases not_less split: option.splits if_splits)
  define line where "line = strip_cr (take n buf)"
  have line: "length line \<le> MAX_LINE_LEN" using n(1) by (auto simp: line_def strip_cr_def)
  obtain args where a: "split_inline_args line = Inr args" "f = Array (map Bulk args)"
    using n(2) by (auto simp: line_def inline_frame_def result_cases split: if_splits)
  have small: "bulk_response_fits m" if "m \<le> MAX_LINE_LEN" for m
    using that show_nat_pow10 [of m 7] by (simp add: bulk_response_fits_iff limits_values parser_limits)
  show ?thesis
    using split_inline_args_bounds [OF a(1)] line
    by (auto simp: a(2) parser_limits intro!: small)
qed

lemma parse_bounded: "parse buf = Inr (Some f, r) \<Longrightarrow> frame_bounded 0 f"
proof (induction buf rule: parse.induct)
  case (1 buf)
  then show ?case
    by (auto simp: parse.simps [of buf] Let_def parse_inline_bounded parse_frame_bounded
        split: if_splits sum.splits prod.splits option.splits resp_error.splits)
qed

section \<open>Requests\<close>

lemma from_frame_shape:
  assumes "from_frame now f = Inr cmd" obtains bs where "f = Array (map Bulk bs)" "bs \<noteq> []"
proof -
  obtain name items bs where "f = Array (Bulk name # items)" "expect_bulks 1 items = Inr bs"
    using assms
    by (auto simp: from_frame_def bind_result_Inr expect_bulk_def split: frame.splits list.splits if_splits)
  then show thesis by (intro that [of "name # bs"]) (simp_all add: expect_bulks_frames)
qed

lemma request_wf:
  assumes "parse buf = Inr (Some f, r)" "from_frame now f = Inr cmd" shows "frame_wf 0 f"
proof -
  obtain bs where "f = Array (map Bulk bs)" using assms(2) by (rule from_frame_shape)
  with parse_bounded [OF assms(1)] show ?thesis by auto
qed

end
