(* ===== verification/Replay.thy ===== *)
theory Replay
  imports Wire
begin

text \<open>
  Recovery: \<open>replay\<close> of \<^verbatim>\<open>src/src/aof.rs\<close>. The log file arrives in the pieces \<open>chunks\<close> that
  \<open>read_buf\<close> returns; \<open>drain\<close> is the inner loop over the buffer and \<open>replay_loop\<close> the outer loop
  over the reads, with the read that returns 0 at the end of the file. Errors of the file system, which
  end the function, are added in the theory \<open>Startup\<close>. The \<open>j\<close>-th frame that is applied uses the clock
  readings \<open>c j 0\<close> (parsing) and \<open>c j 1, c j 2, \<dots>\<close> (execution).
\<close>

section \<open>A parsed frame consumes input\<close>

lemma read_line_shrinks: "read_line c = Inr (l, r) \<Longrightarrow> length r \<le> length c"
  by (auto simp: read_line_def split: option.splits if_splits)

lemma read_line_string_shrinks: "read_line_string c = Inr (l, r) \<Longrightarrow> length r \<le> length c"
  by (auto simp: read_line_string_def result_cases split: if_splits dest: read_line_shrinks)

lemma read_line_int_shrinks: "read_line_int c = Inr (l, r) \<Longrightarrow> length r \<le> length c"
  by (auto simp: read_line_int_def result_cases split: option.splits dest: read_line_shrinks)

lemma parse_bulk_shrinks: "parse_bulk c = Inr (f, r) \<Longrightarrow> length r \<le> length c"
proof -
  assume "parse_bulk c = Inr (f, r)"
  then obtain n c' where n: "read_line_int c = Inr (n, c')" and
    "r = c' \<or> drop (nat (sint n)) c' = CR # LF # r"
    by (auto simp: parse_bulk_Inr)
  moreover have "length r \<le> length c'" if "drop (nat (sint n)) c' = CR # LF # r"
  proof -
    have "length (drop (nat (sint n)) c') = length r + 2" using that by simp
    then show ?thesis unfolding length_drop by linarith
  qed
  ultimately show ?thesis using read_line_int_shrinks [OF n] by fastforce
qed

lemma parse_frame_shrinks_aux:
  "parse_frame d c = Inr (f, r) \<Longrightarrow> length r < length c"
  "parse_items n d c = Inr (fs, r') \<Longrightarrow> length r' \<le> length c"
proof (induction d c and n d c arbitrary: f r and fs r' rule: parse_frame_parse_items.induct)
  case (1 depth c)
  from "1.prems" have d: "depth \<le> MAX_NESTING_DEPTH" by (rule parse_frame_Inr_depth)
  then obtain tag c' where c: "c = tag # c'"
    using "1.prems" by (cases c) (auto simp: parse_frame_Nil)
  have "length r \<le> length c'"
    using "1.prems" d "1.IH"
    by (auto simp: c parse_frame_Cons read_u8_def result_cases split: if_splits
        dest!: read_line_string_shrinks read_line_int_shrinks parse_bulk_shrinks)
       (meson order.trans)
  then show ?case by (simp add: c)
next
  case (3 n d c)
  then show ?case by (fastforce simp: result_cases)
qed simp

lemma parse_frame_shrinks: "parse_frame d c = Inr (f, r) \<Longrightarrow> length r < length c"
  by (rule parse_frame_shrinks_aux)

lemma parse_shrinks: "parse buf = Inr (Some f, r) \<Longrightarrow> length r < length buf"
proof (induction buf rule: parse.induct)
  case (1 buf)
  have ne: "buf \<noteq> []" using "1.prems" by (auto simp: parse.simps)
  show ?case
  proof (cases "is_resp_type (hd buf)")
    case True
    with "1.prems" ne obtain c where "parse_frame 0 buf = Inr (f, c)" "r = drop (length buf - length c) buf"
      by (auto simp: parse.simps [of buf] Let_def split: sum.splits prod.splits resp_error.splits if_splits)
    then show ?thesis using parse_frame_shrinks by fastforce
  next
    case False
    with "1.prems" ne obtain fo b where b: "parse_inline buf = Inr (fo, b)"
      by (auto simp: parse.simps [of buf] split: sum.splits prod.splits)
    show ?thesis
    proof (cases fo)
      case None
      with "1.prems" False ne b have l: "length b \<noteq> length buf" "parse b = Inr (Some f, r)"
        by (auto simp: parse.simps [of buf] split: if_splits)
      then have "length r < length b" using "1.IH" ne False b None by simp
      with parse_inline_length [OF b] show ?thesis by simp
    next
      case (Some f')
      with "1.prems" False ne b have "b = r" by (auto simp: parse.simps [of buf])
      with Some b ne show ?thesis
        by (auto simp: parse_inline_def result_cases split: option.splits if_splits)
    qed
  qed
qed

section \<open>The two loops\<close>

definition MAX_AOF_BUFFERED_FRAME_BYTES :: nat where
  "MAX_AOF_BUFFERED_FRAME_BYTES = 64 * 1024 * 1024"

record 'tx replay_state =
  rs_buf :: bytes
  rs_db :: "'tx db"
  rs_applied :: nat
  rs_valid_len :: nat
  rs_truncate_to :: "nat option"

function drain ::
  "('tx, 'rx) env \<Rightarrow> (nat \<Rightarrow> clock) \<Rightarrow> nat \<Rightarrow> 'tx replay_state \<Rightarrow> 'tx replay_state" where
  "drain E c total_read rs =
     (if rs_buf rs = [] then rs
      else
        let frame_start = total_read - length (rs_buf rs); j = rs_applied rs in
        (case parse (rs_buf rs) of
           Inr (None, buf) \<Rightarrow>
             rs\<lparr>rs_buf := buf,
                rs_truncate_to := if length buf > MAX_AOF_BUFFERED_FRAME_BYTES then Some (rs_valid_len rs)
                                  else rs_truncate_to rs\<rparr>
         | Inr (Some frame, buf) \<Rightarrow>
             (case from_frame (c j 0) frame of
                Inr cmd \<Rightarrow>
                  (case apply_cmd E (\<lambda>i. c j (Suc i)) cmd (rs_db rs) of
                     (Error err, db) \<Rightarrow>
                       rs\<lparr>rs_buf := buf, rs_db := db, rs_truncate_to := Some frame_start\<rparr>
                   | (_, db) \<Rightarrow>
                       drain E c total_read
                         (rs\<lparr>rs_buf := buf, rs_db := db, rs_applied := j + 1,
                            rs_valid_len := total_read - length buf\<rparr>))
              | Inl e \<Rightarrow> rs\<lparr>rs_buf := buf, rs_truncate_to := Some frame_start\<rparr>)
         | Inl e \<Rightarrow> rs\<lparr>rs_truncate_to := Some (rs_valid_len rs)\<rparr>))"
  by pat_completeness auto
termination
  by (relation "measure (\<lambda>(E, c, total_read, rs). length (rs_buf rs))") (auto dest: parse_shrinks)

declare drain.simps [simp del]

fun replay_loop ::
  "('tx, 'rx) env \<Rightarrow> (nat \<Rightarrow> clock) \<Rightarrow> bytes list \<Rightarrow> nat \<Rightarrow> 'tx replay_state \<Rightarrow> 'tx replay_state" where
  "replay_loop E c [] total_read rs =
     (let rs = drain E c total_read rs in
      if rs_truncate_to rs \<noteq> None then rs
      else
        let rs = drain E c total_read rs in
        if rs_truncate_to rs \<noteq> None then rs
        else if rs_buf rs \<noteq> [] then rs\<lparr>rs_truncate_to := Some (rs_valid_len rs)\<rparr>
        else rs)"
| "replay_loop E c (chunk # chunks) total_read rs =
     (let rs = drain E c total_read rs in
      if rs_truncate_to rs \<noteq> None then rs
      else replay_loop E c chunks (total_read + length chunk) (rs\<lparr>rs_buf := rs_buf rs @ chunk\<rparr>))"

text \<open>\<open>truncate_aof\<close>, and the whole function: frames applied, database, and the file afterwards.\<close>

definition truncate_aof :: "nat \<Rightarrow> bytes \<Rightarrow> bytes" where
  "truncate_aof len file = take len file"

definition replay ::
  "('tx, 'rx) env \<Rightarrow> (nat \<Rightarrow> clock) \<Rightarrow> bytes list \<Rightarrow> 'tx db \<Rightarrow> nat \<times> 'tx db \<times> bytes" where
  "replay E c chunks db =
     (let original = concat chunks;
          rs = replay_loop E c chunks 0
                 \<lparr>rs_buf = [], rs_db = db, rs_applied = 0, rs_valid_len = 0, rs_truncate_to = None\<rparr>;
          file = (case rs_truncate_to rs of
                    Some len \<Rightarrow> if len < length original then truncate_aof len original else original
                  | None \<Rightarrow> original)
      in (rs_applied rs, rs_db rs, file))"

section \<open>Running a log\<close>

text \<open>The database after the commands of the frames \<open>fs\<close>, \<^const>\<open>None\<close> when one of them fails.\<close>

fun run_log ::
  "('tx, 'rx) env \<Rightarrow> (nat \<Rightarrow> clock) \<Rightarrow> nat \<Rightarrow> frame list \<Rightarrow> 'tx db \<Rightarrow> 'tx db option" where
  "run_log E c j [] db = Some db"
| "run_log E c j (f # fs) db =
     (case from_frame (c j 0) f of
        Inl _ \<Rightarrow> None
      | Inr cmd \<Rightarrow>
          (case apply_cmd E (\<lambda>i. c j (Suc i)) cmd db of
             (Error _, _) \<Rightarrow> None
           | (_, db) \<Rightarrow> run_log E c (Suc j) fs db))"

lemma run_log_append:
  "run_log E c j (fs @ gs) db = Option.bind (run_log E c j fs db) (run_log E c (j + length fs) gs)"
  by (induction fs arbitrary: j db) (auto split: sum.splits prod.splits frame.splits)

lemma drain_frame:
  assumes "wire_frame f" "run_log E c (rs_applied rs) [f] (rs_db rs) = Some db" "rs_buf rs = encode f @ x"
  shows "drain E c tr rs = drain E c tr
    (rs\<lparr>rs_buf := x, rs_db := db, rs_applied := rs_applied rs + 1, rs_valid_len := tr - length x\<rparr>)"
proof -
  have p: "parse (rs_buf rs) = Inr (Some f, x)" using assms(1,3) by (simp add: parse_encode)
  obtain cmd where cmd: "from_frame (c (rs_applied rs) 0) f = Inr cmd"
    using assms(2) by (auto split: sum.splits)
  obtain r where r: "apply_cmd E (\<lambda>i. c (rs_applied rs) (Suc i)) cmd (rs_db rs) = (r, db)"
      "\<forall>e. r \<noteq> Error e"
    using assms(2) cmd by (auto split: prod.splits frame.splits)
  have ne: "rs_buf rs \<noteq> []" using assms(3) by simp
  show ?thesis
    by (subst drain.simps) (use ne p cmd r in \<open>auto simp: Let_def split: frame.splits\<close>)
qed

lemma drain_stop:
  assumes "parse (rs_buf rs) = Inr (None, rs_buf rs)"
    "length (rs_buf rs) \<le> MAX_AOF_BUFFERED_FRAME_BYTES"
  shows "drain E c tr rs = rs"
  by (subst drain.simps) (use assms in \<open>auto simp: Let_def\<close>)

lemma drain_stream:
  assumes "\<forall>f \<in> set fs. wire_frame f" "run_log E c (rs_applied rs) fs (rs_db rs) = Some db"
    "rs_buf rs = concat (map encode fs) @ p" "parse p = Inr (None, p)"
    "length p \<le> MAX_AOF_BUFFERED_FRAME_BYTES"
  shows "drain E c tr rs =
    (if fs = [] then rs
     else rs\<lparr>rs_buf := p, rs_db := db, rs_applied := rs_applied rs + length fs,
             rs_valid_len := tr - length p\<rparr>)"
  using assms
proof (induction fs arbitrary: rs)
  case Nil
  then show ?case by (simp add: drain_stop)
next
  case (Cons f fs)
  let ?x = "concat (map encode fs) @ p"
  obtain db1 where db1: "run_log E c (rs_applied rs) [f] (rs_db rs) = Some db1"
      "run_log E c (rs_applied rs + 1) fs db1 = Some db"
    using run_log_append [of E c "rs_applied rs" "[f]" fs "rs_db rs"] Cons.prems(2)
    by (auto simp: bind_eq_Some_conv)
  let ?rs = "rs\<lparr>rs_buf := ?x, rs_db := db1, rs_applied := rs_applied rs + 1, rs_valid_len := tr - length ?x\<rparr>"
  have "drain E c tr rs = drain E c tr ?rs"
    using Cons.prems(1,3) db1(1) by (intro drain_frame) auto
  also have "\<dots> = (if fs = [] then ?rs
     else ?rs\<lparr>rs_buf := p, rs_db := db, rs_applied := rs_applied ?rs + length fs,
             rs_valid_len := tr - length p\<rparr>)"
    using Cons.prems db1(2) by (intro Cons.IH) auto
  finally show ?case using db1 by (cases fs) auto
qed

text \<open>
  Any prefix of a log is some complete frames and the beginning of one more, on which the parser
  waits.
\<close>

definition waiting :: "bytes \<Rightarrow> bool" where
  "waiting p \<longleftrightarrow> parse p = Inr (None, p) \<and> length p \<le> MAX_AOF_BUFFERED_FRAME_BYTES"

lemma waiting_prefix:
  assumes "wire_frame g" "encode g = p @ q" "q \<noteq> []" shows "waiting p"
proof -
  have "length p \<le> length (encode g)" using assms(2) by simp
  then show ?thesis
    using parse_prefix [OF assms] assms(1)
    by (simp add: waiting_def wire_frame_def MAX_AOF_BUFFERED_FRAME_BYTES_def MAX_BUFFERED_FRAME_BYTES_def)
qed

lemma log_prefix:
  assumes "\<forall>f \<in> set fs. wire_frame f" "wire_frame g" "encode g = torn @ q" "q \<noteq> []"
    "concat (map encode fs) @ torn = b @ rest"
  shows "\<exists>fs1 fs2 p. fs = fs1 @ fs2 \<and> b = concat (map encode fs1) @ p \<and> waiting p \<and>
    p @ rest = concat (map encode fs2) @ torn"
  using assms(1,5)
proof (induction fs arbitrary: b)
  case Nil
  then have "encode g = b @ (rest @ q)" "rest @ q \<noteq> []" using assms(3,4) by auto
  then have "waiting b" using assms(2) by (intro waiting_prefix)
  with Nil show ?case by (intro exI [of _ "[]"] exI [of _ b]) simp
next
  case (Cons f fs)
  then have "encode f @ (concat (map encode fs) @ torn) = b @ rest" by simp
  then show ?case
  proof (cases rule: append_eq_cases)
    case (left q')
    then have "waiting b" using Cons.prems(1) by (intro waiting_prefix) auto
    with Cons.prems(2) show ?thesis
      by (intro exI [of _ "[]"] exI [of _ "f # fs"] exI [of _ b]) auto
  next
    case (right b')
    with Cons obtain fs1 fs2 p where "fs = fs1 @ fs2" "b' = concat (map encode fs1) @ p" "waiting p"
        "p @ rest = concat (map encode fs2) @ torn"
      by fastforce
    with right(1) show ?thesis
      by (intro exI [of _ "f # fs1"] exI [of _ fs2] exI [of _ p]) simp
  qed
qed

text \<open>The state of a replay that has applied \<open>fs\<close> since \<open>rs\<close> and waits on \<open>p\<close>.\<close>

definition advanced :: "frame list \<Rightarrow> 'tx db \<Rightarrow> bytes \<Rightarrow> 'tx replay_state \<Rightarrow> 'tx replay_state" where
  "advanced fs db p rs = rs\<lparr>rs_buf := p, rs_db := db, rs_applied := rs_applied rs + length fs,
     rs_valid_len := rs_valid_len rs + length (concat (map encode fs))\<rparr>"

lemma drain_advanced:
  assumes "\<forall>f \<in> set fs. wire_frame f" "run_log E c (rs_applied rs) fs (rs_db rs) = Some db"
    "rs_buf rs = concat (map encode fs) @ p" "waiting p" "tr = rs_valid_len rs + length (rs_buf rs)"
  shows "drain E c tr rs = advanced fs db p rs"
  using drain_stream [OF assms(1-3), of tr] assms(2-5) by (cases fs) (auto simp: waiting_def advanced_def)

lemma replay_loop_log:
  assumes "\<forall>f \<in> set fs. wire_frame f" "run_log E c (rs_applied rs) fs (rs_db rs) = Some db"
    "wire_frame g" "encode g = torn @ q" "q \<noteq> []"
    "rs_buf rs @ concat chunks = concat (map encode fs) @ torn" "rs_truncate_to rs = None"
    "tr = rs_valid_len rs + length (rs_buf rs)"
  shows "replay_loop E c chunks tr rs = (advanced fs db torn rs)
    \<lparr>rs_truncate_to := if torn = [] then None
       else Some (rs_valid_len rs + length (concat (map encode fs)))\<rparr>"
  using assms
proof (induction chunks arbitrary: rs fs tr)
  case Nil
  have w: "waiting torn" using Nil.prems(3-5) by (rule waiting_prefix)
  have d: "drain E c tr rs = advanced fs db torn rs"
    using Nil.prems w by (intro drain_advanced) auto
  have "drain E c tr (advanced fs db torn rs) = advanced fs db torn rs"
    using w by (intro drain_stop) (auto simp: waiting_def advanced_def)
  with d Nil.prems(7) show ?case by (simp add: Let_def) (simp add: advanced_def)
next
  case (Cons chunk chunks)
  obtain fs1 fs2 p where split: "fs = fs1 @ fs2" "rs_buf rs = concat (map encode fs1) @ p" "waiting p"
      "p @ concat (chunk # chunks) = concat (map encode fs2) @ torn"
    using log_prefix [OF Cons.prems(1,3-5) Cons.prems(6) [symmetric]] by blast
  obtain db1 where db1: "run_log E c (rs_applied rs) fs1 (rs_db rs) = Some db1"
      "run_log E c (rs_applied rs + length fs1) fs2 db1 = Some db"
    using Cons.prems(2) by (auto simp: split(1) run_log_append bind_eq_Some_conv)
  have d: "drain E c tr rs = advanced fs1 db1 p rs"
    using Cons.prems(1,8) split db1(1) by (intro drain_advanced) auto
  let ?rs = "(advanced fs1 db1 p rs)\<lparr>rs_buf := p @ chunk\<rparr>"
  have "replay_loop E c chunks (tr + length chunk) ?rs = (advanced fs2 db torn ?rs)
    \<lparr>rs_truncate_to := if torn = [] then None
       else Some (rs_valid_len ?rs + length (concat (map encode fs2)))\<rparr>"
    by (rule Cons.IH) (use Cons.prems split db1(2) in \<open>auto simp: advanced_def\<close>)
  moreover have "rs_buf (advanced fs1 db1 p rs) = p" "rs_truncate_to (advanced fs1 db1 p rs) = None"
    using Cons.prems(7) by (simp_all add: advanced_def)
  ultimately show ?case
    using d by (simp add: Let_def) (simp add: advanced_def split(1) add.assoc)
qed

lemma replay_log:
  assumes "\<forall>f \<in> set fs. wire_frame f" "run_log E c 0 fs db = Some db'"
    "wire_frame g" "encode g = torn @ q" "q \<noteq> []" "concat chunks = concat (map encode fs) @ torn"
  shows "replay E c chunks db = (length fs, db', concat (map encode fs))"
proof -
  let ?rs = "\<lparr>rs_buf = [], rs_db = db, rs_applied = 0, rs_valid_len = 0, rs_truncate_to = None\<rparr>"
  have "replay_loop E c chunks 0 ?rs = (advanced fs db' torn ?rs)
    \<lparr>rs_truncate_to := if torn = [] then None
       else Some (rs_valid_len ?rs + length (concat (map encode fs)))\<rparr>"
    by (rule replay_loop_log) (use assms in auto)
  then show ?thesis
    using assms(6) by (simp add: replay_def Let_def advanced_def truncate_aof_def)
qed

end
