(* ===== verification/Sweep.thy ===== *)
theory Sweep
  imports Db
begin

text \<open>
  The active expiry of \<^verbatim>\<open>src/src/db/expire.rs\<close>. \<open>sweep_shard\<close> is the body of the loop of
  \<open>sweep_once\<close>; a sweep removes exactly the entries that are due, and by the index invariant it
  finds them all, so no command can tell whether a sweep has run.
\<close>

definition sweep_key :: "u128 \<Rightarrow> bytes \<Rightarrow> shard \<Rightarrow> shard" where
  "sweep_key now k s =
     (let still_due = (case Option.bind (hm_get (entries s) k) expires_at of
                         Some t \<Rightarrow> t \<le> now | None \<Rightarrow> False)
      in if still_due then s\<lparr>entries := hm_remove k (entries s)\<rparr> else s)"

definition sweep_shard :: "u128 \<Rightarrow> shard \<Rightarrow> shard" where
  "sweep_shard now s =
     (let due_keys = concat (map snd (filter (\<lambda>p. fst p \<le> now) (expirations s)));
          s = s\<lparr>expirations := filter (\<lambda>p. fst p > now) (expirations s)\<rparr>
      in fold (sweep_key now) due_keys s)"

definition sweep_once :: "u128 \<Rightarrow> 'tx db \<Rightarrow> 'tx db" where
  "sweep_once now db = db\<lparr>shards := map (sweep_shard now) (shards db)\<rparr>"

text \<open>The loop of \<open>run_sweeper\<close>, for the times at which its interval has ticked.\<close>

fun run_sweeper :: "u128 list \<Rightarrow> 'tx db \<Rightarrow> 'tx db" where
  "run_sweeper [] db = db"
| "run_sweeper (now # ticks) db = run_sweeper ticks (sweep_once now db)"

lemma entry_at_sweep_key:
  "entry_at (sweep_key now k s) = (entry_at s)(k := live now (entry_at s k))"
  by (cases "hm_get (entries s) k")
     (auto simp: sweep_key_def entry_at_def delete_conv' live_def entry_expired_def fun_eq_iff
       split: option.splits)

lemma expirations_sweep_key [simp]: "expirations (sweep_key now k s) = expirations s"
  by (simp add: sweep_key_def Let_def)

lemma hm_ok_sweep_key: "hm_ok (entries s) \<Longrightarrow> hm_ok (entries (sweep_key now k s))"
  by (simp add: sweep_key_def Let_def distinct_delete)

lemma sweep_keys_view:
  "entry_at (fold (sweep_key now) ks s) k = (if k \<in> set ks then live now (entry_at s k) else entry_at s k)"
  "expirations (fold (sweep_key now) ks s) = expirations s"
  "hm_ok (entries s) \<Longrightarrow> hm_ok (entries (fold (sweep_key now) ks s))"
  by (induction ks arbitrary: s) (auto simp: entry_at_sweep_key hm_ok_sweep_key)

lemma due_keys_indexed:
  assumes "shard_shape s"
  shows "k \<in> set (concat (map snd (filter (\<lambda>p. fst p \<le> now) (expirations s)))) \<longleftrightarrow>
         (\<exists>t \<le> now. k \<in> set (indexed s t))"
  using bt_ok_distinct [OF shape_bt_ok [OF assms]]
  by (fastforce simp: indexed_def split: option.splits dest: map_of_SomeD)

lemma sweep_shard_view:
  assumes wf: "shard_wf s"
  shows "entry_at (sweep_shard now s) k = live now (entry_at s k)"
    and "shard_wf (sweep_shard now s)"
proof -
  let ?due = "concat (map snd (filter (\<lambda>p. fst p \<le> now) (expirations s)))"
  let ?s = "s\<lparr>expirations := filter (\<lambda>p. fst p > now) (expirations s)\<rparr>"
  note sh = wf_shape [OF wf]
  have eq: "sweep_shard now s = fold (sweep_key now) ?due ?s"
    by (simp only: sweep_shard_def Let_def)
  have due: "k \<in> set ?due \<longleftrightarrow> (\<exists>e. entry_at s k = Some e \<and> entry_expired now e)" for k
    unfolding due_keys_indexed [OF sh] wf_indexed [OF wf] entry_expired_def
    by (auto split: option.splits)
  have at: "entry_at ?s = entry_at s" by (rule entry_at_cong) simp
  have view: "entry_at (sweep_shard now s) k = live now (entry_at s k)" for k
    using due [of k] by (auto simp: eq sweep_keys_view at live_def split: option.splits)
  then show "entry_at (sweep_shard now s) k = live now (entry_at s k)" .
  have exp: "expirations (sweep_shard now s) = filter (\<lambda>p. fst p > now) (expirations s)"
    unfolding eq sweep_keys_view(2) by simp
  have ix: "indexed (sweep_shard now s) t = (if now < t then indexed s t else [])" for t
    by (simp add: indexed_def exp bt_get_filter)
  have "shard_shape (sweep_shard now s)"
    unfolding shard_shape_def exp
  proof (intro conjI)
    show "hm_ok (entries (sweep_shard now s))"
      unfolding eq using shape_hm_ok [OF sh] by (intro sweep_keys_view(3)) simp
  qed (use sh in \<open>auto simp: shard_shape_def bt_ok_filter\<close>)
  then show "shard_wf (sweep_shard now s)"
    using wf_indexed [OF wf] unfolding shard_wf_iff
    by (auto simp: ix view live_def entry_expired_def split: option.splits if_splits)
qed

lemma db_at_sweep:
  "db_wf h db \<Longrightarrow> db_at h (sweep_once now db) k = live now (db_at h db k)"
  by (simp add: db_at_def shard_for_def sweep_once_def db_wf_length db_wf_def sweep_shard_view)

lemma db_wf_sweep: "db_wf h db \<Longrightarrow> db_wf h (sweep_once now db)"
  by (auto simp: db_wf_alt sweep_once_def sweep_shard_view live_Some)

lemma live_later: "now \<le> later \<Longrightarrow> live later (live now eo) = live later eo"
  by (auto simp: live_def entry_expired_def split: option.splits)

lemma run_sweeper_view:
  assumes "db_wf h db" "list_all (\<lambda>now. now \<le> later) ticks"
  shows "db_wf h (run_sweeper ticks db)" "live later (db_at h (run_sweeper ticks db) k) = live later (db_at h db k)"
  using assms by (induction ticks arbitrary: db) (simp_all add: db_wf_sweep db_at_sweep live_later)

lemma run_sweeper_append: "run_sweeper (ticks @ [now]) db = sweep_once now (run_sweeper ticks db)"
  by (induction ticks arbitrary: db) simp_all

end
