(* ===== verification/Server.thy ===== *)
theory Server
  imports Replay Sweep
begin

text \<open>
  A client connection: reading and writing frames (\<^verbatim>\<open>src/src/connection.rs\<close>) and the loop of
  \<open>handle\<close> in \<^verbatim>\<open>src/src/server.rs\<close>, one request at a time. The bytes of the client arrive in the
  pieces the socket delivers, or a read times out or fails.
  What the append-only file answers to a write is a parameter.
\<close>

section \<open>The connection\<close>

datatype read_error =
    ReadProtocol bytes
  | ReadIdleTimeout
  | ClosedMidFrame
  | ReadIo bytes

text \<open>What a read of the socket gives; the end of the stream is the end of the list of reads.\<close>

datatype socket_read = Received bytes | TimedOut | Failed bytes

definition check_buffered_frame_limit :: "bytes \<Rightarrow> (read_error, unit) result" where
  "check_buffered_frame_limit buf =
     (if length buf > MAX_BUFFERED_FRAME_BYTES
      then Inl (ReadProtocol (''client frame exceeds buffered limit of ''
                              @ show_nat MAX_BUFFERED_FRAME_BYTES @ '' bytes''))
      else Inr ())"

text \<open>
  \<open>read_frame\<close> on the buffer and the reads that are still to come. The result has the frame, if
  there is one, the buffer and the reads left.
\<close>

fun read_frame ::
  "bytes \<Rightarrow> socket_read list \<Rightarrow> (read_error, frame option \<times> bytes \<times> socket_read list) result" where
  "read_frame buf reads =
     bind_result (check_buffered_frame_limit buf) (\<lambda>_.
       case parse buf of
         Inr (Some frame, buf) \<Rightarrow> Inr (Some frame, buf, reads)
       | Inl (Protocol msg) \<Rightarrow> Inl (ReadProtocol msg)
       | r \<Rightarrow>
           let buf = (case r of Inr (_, b) \<Rightarrow> b | Inl _ \<Rightarrow> buf) in
           (case reads of
              [] \<Rightarrow>
                bind_result (check_buffered_frame_limit buf) (\<lambda>_.
                  if buf = [] then Inr (None, [], []) else Inl ClosedMidFrame)
            | TimedOut # reads \<Rightarrow> Inl ReadIdleTimeout
            | Failed e # reads \<Rightarrow> Inl (ReadIo e)
            | Received chunk # reads \<Rightarrow>
                bind_result (check_buffered_frame_limit (buf @ chunk)) (\<lambda>_.
                  read_frame (buf @ chunk) reads)))"

declare read_frame.simps [simp del]

text \<open>\<open>write_frame\<close>: the bytes that go to the socket, or the error that ends the connection.\<close>

definition write_frame :: "frame \<Rightarrow> (bytes, bytes) result" where
  "write_frame f = (case encoded_len f of
      None \<Rightarrow> Inl ''server response length overflow''
    | Some len \<Rightarrow>
        if len > MAX_RESPONSE_FRAME_BYTES
        then Inl (''server response exceeds output limit of '' @ show_nat MAX_RESPONSE_FRAME_BYTES @ '' bytes'')
        else Inr (encode f))"

section \<open>One request\<close>

text \<open>
  The branch of \<open>handle\<close> for an ordinary command. \<open>aof_write\<close> is \<open>AofHandle::write\<close>, absent when the
  server runs without a log; \<open>t\<close> is the reading of \<open>aof_frame\<close>, \<open>c\<close> those of the execution. The last
  component of the result is the frame that was logged.
\<close>

definition execute ::
  "('tx, 'rx) env \<Rightarrow> u128 \<Rightarrow> clock \<Rightarrow> (frame \<Rightarrow> (bytes, unit) result) option \<Rightarrow> command \<Rightarrow> 'tx db \<Rightarrow>
   frame \<times> 'tx db \<times> frame option" where
  "execute E t c aof_write cmd db =
     (if is_write cmd then
        let logged = aof_frame t cmd;
            rollback = (if aof_write \<noteq> None then Some (snapshot_entries (xxh E) (mutated_keys cmd) db) else None);
            (resp, db) = apply_cmd E c cmd db
        in (case resp of
              Error _ \<Rightarrow> (resp, db, None)
            | _ \<Rightarrow>
                (case (aof_write, logged) of
                   (Some write, Some frame) \<Rightarrow>
                     (case write frame of
                        Inl e \<Rightarrow>
                          (Error (''ERR AOF write failed: '' @ e),
                           case rollback of Some snapshot \<Rightarrow> restore_entries (xxh E) snapshot db | None \<Rightarrow> db,
                           None)
                      | Inr _ \<Rightarrow> (resp, db, Some frame))
                 | _ \<Rightarrow> (resp, db, None)))
      else
        let (resp, db) = apply_cmd E c cmd db in (resp, db, None))"

definition sanitize_error_message :: "bytes \<Rightarrow> bytes" where
  "sanitize_error_message s = map (\<lambda>c. if c = CR \<or> c = LF then CHR '' '' else c) s"

definition protocol_error_frame :: "bytes \<Rightarrow> frame" where
  "protocol_error_frame message = Error (''ERR Protocol error: '' @ sanitize_error_message message)"

text \<open>What the loop does after a request: go on, close the connection, or enter the subscribed mode.\<close>

datatype next_step = Continue | Close | EnterSubscribed "bytes list"

definition handle_command_parse_error :: "parse_error \<Rightarrow> frame list \<times> next_step" where
  "handle_command_parse_error err =
     (if err = EmptyCommand then ([], Continue)
      else if is_protocol_error err then ([protocol_error_frame (show_parse_error err)], Close)
      else ([Error (''ERR '' @ show_parse_error err)], Continue))"

definition ack_unsubscribe :: "bytes option \<Rightarrow> nat \<Rightarrow> frame" where
  "ack_unsubscribe channel n =
     Array [Bulk ''unsubscribe'', case channel of Some ch \<Rightarrow> Bulk ch | None \<Rightarrow> Null,
            Integer (i64_of_usize n)]"

record aof_handle =
  ah_write :: "frame \<Rightarrow> (bytes, unit) result"
  ah_stats :: aof_stats
  ah_schedule :: "(bytes, unit) result"

text \<open>
  The body of the loop, with the frames it writes to the client, in order; \<open>tp\<close> is the reading of
  \<open>from_frame\<close>.
\<close>

definition handle_request ::
  "('tx, 'rx) env \<Rightarrow> u128 \<Rightarrow> u128 \<Rightarrow> clock \<Rightarrow> aof_handle option \<Rightarrow> server_state \<Rightarrow> frame \<Rightarrow> 'tx db \<Rightarrow>
   frame list \<times> next_step \<times> 'tx db \<times> frame option" where
  "handle_request E tp t c aof st frame db =
     (case from_frame tp frame of
        Inr (Subscribe channels) \<Rightarrow> ([], EnterSubscribed channels, db, None)
      | Inr (Unsubscribe (Some channels)) \<Rightarrow>
          (map (\<lambda>ch. ack_unsubscribe (Some ch) 0) channels, Continue, db, None)
      | Inr (Unsubscribe None) \<Rightarrow> ([ack_unsubscribe None 0], Continue, db, None)
      | Inr (Info_cmd section) \<Rightarrow>
          ([info_frame (process_id E) c db (map_option ah_stats aof) (Some st) section], Continue, db, None)
      | Inr BgRewriteAof \<Rightarrow>
          ([case aof of
              Some a \<Rightarrow> (case ah_schedule a of
                  Inr _ \<Rightarrow> Simple ''Background append only file rewriting started''
                | Inl _ \<Rightarrow> Error ''ERR Background append only file rewriting already in progress'')
            | None \<Rightarrow> Error ''ERR AOF is not enabled''], Continue, db, None)
      | Inr cmd \<Rightarrow>
          (case execute E t c (map_option ah_write aof) cmd db of
             (resp, db, logged) \<Rightarrow> ([resp], Continue, db, logged))
      | Inl err \<Rightarrow> (case handle_command_parse_error err of (fs, n) \<Rightarrow> (fs, n, db, None)))"

section \<open>A write is acknowledged exactly when it is logged\<close>

lemma execute_cases:
  assumes "is_write cmd" "apply_cmd E c cmd db = (r, db1)" "aof_frame t cmd = Some g"
  shows "execute E t c (Some w) cmd db =
    (if \<exists>m. r = Error m then (r, db1, None)
     else case w g of
       Inl e \<Rightarrow> (Error (''ERR AOF write failed: '' @ e),
                 restore_entries (xxh E) (snapshot_entries (xxh E) (mutated_keys cmd) db) db1, None)
     | Inr _ \<Rightarrow> (r, db1, Some g))"
  using assms by (cases r) (simp_all add: execute_def split: sum.splits)

lemma db_live_of_at: "db_at h db = db_at h db' \<Longrightarrow> db_live h t db = db_live h t db'"
  by (simp add: db_live_def fun_eq_iff)

lemma execute_atomic:
  assumes "db_wf (xxh E) db" "append_fits cmd" "is_write cmd"
    "execute E t (\<lambda>_. now) (Some w) cmd db = (r, db', logged)"
  shows "case logged of
      Some g \<Rightarrow> (\<forall>m. r \<noteq> Error m) \<and> aof_frame t cmd = Some g \<and> w g = Inr () \<and>
        (r, db') = apply_cmd E (\<lambda>_. now) cmd db
    | None \<Rightarrow> (\<exists>m. r = Error m) \<and> db_live (xxh E) now db' = db_live (xxh E) now db"
proof -
  obtain r1 db1 where a: "apply_cmd E (\<lambda>_. now) cmd db = (r1, db1)" by force
  obtain g where g: "aof_frame t cmd = Some g" using assms(3) aof_frame_is_write by blast
  note ex = execute_cases [OF assms(3) a g, of w]
  have err: "db_live (xxh E) now db1 = db_live (xxh E) now db" if "r1 = Error m" for m
    using error_keeps_live [OF assms(1,2), of now m] a that by simp
  have roll: "db_live (xxh E) now (restore_entries (xxh E) (snapshot_entries (xxh E) (mutated_keys cmd) db) db1)
      = db_live (xxh E) now db"
    using rollback_restores(2) [OF assms(1)] apply_keeps [OF assms(1), of cmd "\<lambda>_. now"] a
    by (intro db_live_of_at) simp
  show ?thesis
    using ex assms(4) a g err roll by (auto split: if_splits sum.splits)
qed

lemma execute_wf:
  assumes "db_wf (xxh E) db"
  shows "db_wf (xxh E) (fst (snd (execute E t c w cmd db)))"
proof -
  obtain r db1 where a: "apply_cmd E c cmd db = (r, db1)" by force
  have k: "keeps (xxh E) (mutated_keys cmd) db db1" using apply_keeps [OF assms, of cmd c] a by simp
  then have "db_wf (xxh E) db1" by (simp add: keeps_def)
  moreover have "db_wf (xxh E) (restore_entries (xxh E) (snapshot_entries (xxh E) (mutated_keys cmd) db) db1)"
    by (rule rollback_restores(1) [OF assms k])
  ultimately show ?thesis
    by (auto simp: execute_def a Let_def split: frame.splits option.splits sum.splits)
qed

lemma handle_request_wf:
  assumes "db_wf (xxh E) db"
  shows "db_wf (xxh E) (fst (snd (snd (handle_request E tp t c aof st f db))))"
  using execute_wf [OF assms, of t c "map_option ah_write aof"] assms
  by (auto simp: handle_request_def case_prod_beta split: sum.splits command.splits option.splits)

section \<open>Reading does not depend on how the bytes arrive\<close>

lemma read_frame_stream:
  assumes "wire_frame f" "buf @ concat chunks = encode f @ rest"
    "length (encode f @ rest) \<le> MAX_BUFFERED_FRAME_BYTES"
  shows "\<exists>buf' chunks'. read_frame buf (map Received chunks) = Inr (Some f, buf', map Received chunks') \<and>
    buf' @ concat chunks' = rest"
  using assms(2)
proof (induction chunks arbitrary: buf)
  case Nil
  have "length buf \<le> MAX_BUFFERED_FRAME_BYTES" using Nil assms(3) by simp
  with Nil show ?case
    by (subst read_frame.simps)
       (auto simp: check_buffered_frame_limit_def parse_encode [OF assms(1)] intro: exI [of _ "[]"])
next
  case (Cons chunk chunks)
  have "length (buf @ concat (chunk # chunks)) \<le> MAX_BUFFERED_FRAME_BYTES"
    using Cons.prems assms(3) by simp
  then have len: "length buf \<le> MAX_BUFFERED_FRAME_BYTES" "length (buf @ chunk) \<le> MAX_BUFFERED_FRAME_BYTES"
    by simp_all
  have "encode f @ rest = buf @ concat (chunk # chunks)" using Cons.prems by simp
  then show ?case
  proof (cases rule: append_eq_cases)
    case (left q')
    have p: "parse buf = Inr (None, buf)" using assms(1) left(1,2) by (rule parse_prefix)
    have "read_frame buf (map Received (chunk # chunks)) = read_frame (buf @ chunk) (map Received chunks)"
      by (subst read_frame.simps) (use p len in \<open>simp add: check_buffered_frame_limit_def\<close>)
    with Cons.IH [of "buf @ chunk"] Cons.prems show ?thesis by simp
  next
    case (right b')
    have "read_frame buf (map Received (chunk # chunks)) = Inr (Some f, b', map Received (chunk # chunks))"
      by (subst read_frame.simps)
         (use right len in \<open>simp add: check_buffered_frame_limit_def parse_encode [OF assms(1)]\<close>)
    with right(2) show ?thesis by (intro exI [of _ b'] exI [of _ "chunk # chunks"]) simp
  qed
qed

end
