(* ===== verification/Lengths.thy ===== *)
theory Lengths
  imports Replay
begin

text \<open>
  How long things are. The encoder writes the shortest form that the parser reads, so a frame that has been
  read (\<^verbatim>\<open>src/src/resp/parser.rs\<close>) is within the limit when it is written again: as a logged
  command (\<open>aof_frame\<close> of \<^verbatim>\<open>src/src/cmd/mod.rs\<close>), where the command does not get longer, or as
  a message to a subscriber (\<^verbatim>\<open>src/src/server.rs\<close>).
\<close>

section \<open>Printed numbers are shortest\<close>

lemma parse_digits_bound: "parse_digits acc s = Some v \<Longrightarrow> v < (acc + 1) * 10 ^ length s"
proof (induction s arbitrary: acc)
  case (Cons c s)
  then obtain d where d: "digit_value c = Some d" "parse_digits (10 * acc + d) s = Some v"
    by (auto split: option.splits)
  then have "d < 10" by (auto simp: digit_value_def Let_def split: if_splits)
  have "v < (10 * acc + d + 1) * 10 ^ length s" using Cons.IH [OF d(2)] by simp
  also have "\<dots> \<le> ((acc + 1) * 10) * 10 ^ length s" using \<open>d < 10\<close> by (intro mult_right_mono) auto
  finally show ?case by (simp add: algebra_simps)
qed simp

lemma parse_magnitude_shortest: "parse_magnitude s = Some v \<Longrightarrow> length (show_nat v) \<le> length s"
  using parse_digits_bound [of 0 s v] show_nat_pow10 [of v "length s"]
  by (auto simp: parse_magnitude_def split: if_splits)

lemma parse_int_shortest: "parse_int_str s = Some i \<Longrightarrow> length (show_int i) \<le> length s"
  by (auto simp: parse_int_str_def show_int_def split: list.splits if_splits
      dest!: parse_magnitude_shortest)

lemma parse_i64_bytes_shortest: "parse_i64_bytes s = Some n \<Longrightarrow> length (show_i64 n) \<le> length s"
proof -
  assume "parse_i64_bytes s = Some n"
  then obtain i where i: "parse_int_str s = Some i" "in_i64 i" "n = word_of_int i"
    by (auto simp: parse_i64_bytes_def parse_i64_str_def split: option.splits if_splits)
  then have "show_i64 n = show_int i" by (simp add: show_i64_def sint_i64_of_int)
  with parse_int_shortest [OF i(1)] show ?thesis by simp
qed

section \<open>A frame that was read is written within the limit\<close>

lemma read_line_took: "read_line c = Inr (l, r) \<Longrightarrow> length l + 2 + length r = length c"
  using find_crlf_append [of c _ "[]"] by (auto simp: read_line_Inr)

lemma read_line_string_took: "read_line_string c = Inr (l, r) \<Longrightarrow> length l + 2 + length r = length c"
  by (auto simp: read_line_string_Inr dest: read_line_took)

lemma read_line_int_took: "read_line_int c = Inr (n, r) \<Longrightarrow> length (show_i64 n) + 2 + length r \<le> length c"
  using parse_i64_bytes_shortest by (fastforce simp: read_line_int_Inr dest: read_line_took)

lemma show_i64_nat: "0 \<le> sint n \<Longrightarrow> show_i64 n = show_nat (nat (sint n))"
  by (simp add: show_i64_def show_int_def)

lemma parse_bulk_shortest:
  assumes "parse_bulk c = Inr (f, r)" shows "length (encode f) + length r \<le> Suc (length c)"
proof -
  obtain n c1 where n: "read_line_int c = Inr (n, c1)" and
    body: "(n = -1 \<and> f = Null \<and> r = c1) \<or> (0 \<le> sint n \<and> bulk_response_fits (nat (sint n)) \<and>
       drop (nat (sint n)) c1 = CR # LF # r \<and> f = Bulk (take (nat (sint n)) c1))"
    using assms unfolding parse_bulk_Inr by blast
  note t = read_line_int_took [OF n]
  from body show ?thesis
  proof
    assume "n = -1 \<and> f = Null \<and> r = c1"
    then show ?thesis using t by (simp add: show_i64_minus_one)
  next
    assume b: "0 \<le> sint n \<and> bulk_response_fits (nat (sint n)) \<and>
       drop (nat (sint n)) c1 = CR # LF # r \<and> f = Bulk (take (nat (sint n)) c1)"
    then have "length (drop (nat (sint n)) c1) = length r + 2" by simp
    then have "nat (sint n) + 2 + length r = length c1" unfolding length_drop by arith
    then show ?thesis using t b by (simp add: length_encode_Bulk show_i64_nat del: encode.simps)
  qed
qed

lemma parse_frame_shortest_aux:
  "parse_frame d c = Inr (f, r) \<Longrightarrow> length (encode f) + length r \<le> length c"
  "parse_items n d c = Inr (fs, r') \<Longrightarrow> length fs = n \<and> length (concat (map encode fs)) + length r' \<le> length c"
proof (induction d c and n d c arbitrary: f r and fs r' rule: parse_frame_parse_items.induct)
  case (1 depth c)
  from "1.prems" have d: "depth \<le> MAX_NESTING_DEPTH" by (rule parse_frame_Inr_depth)
  then obtain tag c' where c: "c = tag # c'"
    using "1.prems" parse_frame_Nil by (cases c) auto
  show ?case
  proof (cases "tag = CHR ''*''")
    case True
    with "1.prems" d obtain n c2 where n: "read_line_int c' = Inr (n, c2)" and
      body: "(n = -1 \<and> f = NullArray \<and> r = c2) \<or>
        (n \<noteq> -1 \<and> \<not> sint n < 0 \<and> \<not> MAX_ARRAY_LEN < nat (sint n) \<and>
         (\<exists>items. parse_items (nat (sint n)) (Suc depth) c2 = Inr (items, r) \<and> f = Array items))"
      unfolding c by (auto simp: parse_frame_Cons result_cases split: if_splits)
    note t = read_line_int_took [OF n]
    show ?thesis
    proof (cases "n = -1 \<and> f = NullArray \<and> r = c2")
      case True
      then show ?thesis using t by (simp add: c show_i64_minus_one)
    next
      case False
      with body obtain items where h: "n \<noteq> -1" "\<not> sint n < 0" "\<not> MAX_ARRAY_LEN < nat (sint n)"
          "parse_items (nat (sint n)) (Suc depth) c2 = Inr (items, r)" "f = Array items" by blast
      then have "length items = nat (sint n) \<and> length (concat (map encode items)) + length r \<le> length c2"
        using "1.IH" True d n by (simp add: c read_u8_def)
      then show ?thesis using t h by (simp add: c show_i64_nat)
    qed
  next
    case False
    then show ?thesis
      using "1.prems" d unfolding c
      by (auto simp: parse_frame_Cons result_cases simp del: encode.simps(4)
          dest!: read_line_string_took read_line_int_took parse_bulk_shortest split: if_splits)
  qed
next
  case (3 cnt depth c)
  then show ?case by (fastforce simp: result_cases)
qed simp

text \<open>An inline request is far from the limit.\<close>

lemma split_inline_args_total:
  "split_inline_args line = Inr args \<Longrightarrow> length args \<le> length line \<and> length (concat args) \<le> length line"
proof (induction line arbitrary: args rule: split_inline_args.induct)
  case (1 line)
  define s where "s = dropWhile is_inline_space line"
  have le: "length s \<le> length line" by (simp add: s_def length_dropWhile_le)
  show ?case
  proof (cases "s = []")
    case True
    with "1.prems" show ?thesis by (simp add: split_inline_args.simps [of line] s_def)
  next
    case False
    then obtain a s' as where r: "read_inline_arg [] s = Inr (a, s')"
        and as: "split_inline_args s' = Inr as" "args = a # as"
      using "1.prems" unfolding split_inline_args.simps [of line] Let_def s_def [symmetric]
      by (auto simp: result_cases split: sum.splits)
    have "\<not> is_inline_space (hd s)" using False hd_dropWhile unfolding s_def by blast
    then have "length s' < length s" using read_inline_arg_progress [OF r False] by simp
    moreover have "length a + length s' \<le> length s" using read_inline_arg_grows [OF r] by simp
    ultimately show ?thesis using "1.IH" [OF s_def False r _ as(1)] le as(2) by simp
  qed
qed

lemma encode_bulks_le:
  "list_all (\<lambda>b. length b < 10 ^ 20) bs \<Longrightarrow>
   length (concat (map encode (map Bulk bs))) \<le> 25 * length bs + length (concat bs)"
proof (induction bs)
  case (Cons b bs)
  then have "length (show_nat (length b)) \<le> 20" by (intro show_nat_pow10) simp_all
  with Cons show ?case by (simp add: length_encode_Bulk del: encode.simps)
qed simp

lemma parse_inline_fits:
  assumes "parse_inline buf = Inr (Some f, r)" shows "length (encode f) \<le> MAX_BUFFERED_FRAME_BYTES"
proof -
  obtain n where n: "n \<le> MAX_LINE_LEN" "inline_frame (strip_cr (take n buf)) = Inr (Some f)"
    using assms by (auto simp: parse_inline_def result_cases not_less split: option.splits if_splits)
  define line where "line = strip_cr (take n buf)"
  have line: "length line \<le> MAX_LINE_LEN" using n(1) by (auto simp: line_def strip_cr_def)
  obtain args where a: "split_inline_args line = Inr args" "f = Array (map Bulk args)"
    using n(2) by (auto simp: line_def inline_frame_def result_cases split: if_splits)
  have tot: "length args \<le> 1048576" "length (concat args) \<le> 1048576"
    using split_inline_args_total [OF a(1)] line by (simp_all add: parser_limits)
  have "length b < 10 ^ 20" if "b \<in> set args" for b
    using split_inline_args_bounds [OF a(1)] line that by (fastforce simp: parser_limits)
  then have "length (concat (map encode (map Bulk args))) \<le> 25 * length args + length (concat args)"
    by (intro encode_bulks_le) (simp add: list_all_iff)
  moreover have "length (show_nat (length args)) \<le> 20" using tot(1) by (intro show_nat_pow10) simp_all
  ultimately show ?thesis using tot by (simp add: a(2) limits_values del: map_map)
qed

lemma parse_fits: "parse buf = Inr (Some f, r) \<Longrightarrow> length (encode f) \<le> MAX_BUFFERED_FRAME_BYTES"
proof (induction buf rule: parse.induct)
  case (1 buf)
  have "length (encode f) \<le> MAX_BUFFERED_FRAME_BYTES"
    if "parse_frame 0 buf = Inr (f, c)" "\<not> MAX_BUFFERED_FRAME_BYTES < length buf - length c" for c
    using parse_frame_shortest_aux(1) [OF that(1)] that(2) by arith
  with 1 show ?case
    by (auto simp: parse.simps [of buf] Let_def dest: parse_inline_fits
        split: if_splits sum.splits prod.splits option.splits resp_error.splits)
qed

text \<open>A frame of bulk strings of which none is longer is not longer.\<close>

definition no_longer :: "bytes list \<Rightarrow> bytes list \<Rightarrow> bool" where
  "no_longer bs bs' \<longleftrightarrow> list_all2 (\<lambda>b b'. length b \<le> length b') bs bs'"

lemma no_longer_simps [simp]:
  "no_longer [] bs' \<longleftrightarrow> bs' = []"
  "no_longer (b # bs) bs' \<longleftrightarrow> (\<exists>b' bs''. bs' = b' # bs'' \<and> length b \<le> length b' \<and> no_longer bs bs'')"
  "no_longer bs bs"
  by (auto simp: no_longer_def list_all2_Cons1 intro: list_all2_refl)

lemma encode_no_longer:
  assumes "no_longer bs bs'" shows "length (encode (Array (map Bulk bs))) \<le> length (encode (Array (map Bulk bs')))"
proof -
  have "length bs = length bs'" using assms by (simp add: no_longer_def list_all2_lengthD)
  moreover have "length (concat (map encode (map Bulk bs))) \<le> length (concat (map encode (map Bulk bs')))"
    using assms unfolding no_longer_def
  proof (induction rule: list_all2_induct)
    case (Cons b bs b' bs')
    then show ?case using show_nat_length_mono [of "length b" "length b'"]
      by (simp add: length_encode_Bulk del: encode.simps)
  qed simp
  ultimately show ?thesis by simp
qed

section \<open>Commands that are logged in a form that is not longer\<close>

fun keeps_length :: "command \<Rightarrow> bool" where
  "keeps_length (Set key val (Some d)) \<longleftrightarrow> False"
| "keeps_length (Expire key d) \<longleftrightarrow> False"
| "keeps_length (PExpire key d) \<longleftrightarrow> False"
| "keeps_length (PExpireAt key d) \<longleftrightarrow> False"
| "keeps_length _ \<longleftrightarrow> True"

lemma parse_i64_shortest: "parse_i64 b = Inr n \<Longrightarrow> length (show_i64 n) \<le> length b"
  by (auto simp: parse_i64_def ok_or_def parse_i64_bytes_shortest split: option.splits)

lemma flat_take_pairs: "length xs mod 2 = 0 \<Longrightarrow> flat_pairs (take_pairs xs) = xs"
  by (induction xs rule: take_pairs.induct) (auto simp: flat_pairs_def)

lemma parse_set_options_none: "parse_set_options now name None False it = Inr None \<Longrightarrow> it = []"
  using parse_set_options_size by fastforce

text \<open>What holds of the command, in every branch of the match on the name.\<close>

definition parsed_as :: "(bytes \<Rightarrow> bytes list \<Rightarrow> command \<Rightarrow> bool) \<Rightarrow> bytes \<Rightarrow> bytes list \<Rightarrow> command parsed \<Rightarrow> bool" where
  "parsed_as P name rest p \<longleftrightarrow> (\<forall>cmd. p = Inr cmd \<longrightarrow> P name rest cmd)"

lemma parsed_as_if:
  "(name = n \<Longrightarrow> parsed_as P n rest p) \<Longrightarrow> parsed_as P name rest q \<Longrightarrow>
   parsed_as P name rest (if name = n then p else q)"
  by simp

lemmas parse_branches = parse_command_def parse_connection_command_def Let_def one_arg_def parse_set_def parse_expire_def parse_expire_at_def
  parse_push_def parse_pop_def

definition logs_short :: "u128 \<Rightarrow> bytes \<Rightarrow> bytes list \<Rightarrow> command \<Rightarrow> bool" where
  "logs_short built name rest cmd \<longleftrightarrow> keeps_length cmd \<longrightarrow> (\<forall>g. aof_frame built cmd = Some g \<longrightarrow>
     (\<exists>bs. g = Array (map Bulk (name # bs)) \<and> no_longer bs rest))"

definition publishes :: "bytes \<Rightarrow> bytes list \<Rightarrow> command \<Rightarrow> bool" where
  "publishes name rest cmd \<longleftrightarrow> (\<forall>ch msg. cmd = Publish ch msg \<longrightarrow> length name = 7 \<and> rest = [ch, msg])"

lemma bulks_eq:
  "Bulk b # fs = map Bulk bs \<longleftrightarrow> (\<exists>bs'. bs = b # bs' \<and> fs = map Bulk bs')"
  "[] = map Bulk bs \<longleftrightarrow> bs = []"
  by (auto simp: Cons_eq_map_conv)

lemma parse_command_logs_short: "parsed_as (logs_short built) name rest (parse_command now name rest)"
  unfolding parse_branches
  by (intro parsed_as_if)
     (auto simp: parsed_as_def logs_short_def result_cases command_with_keys_def command_one_def
        command_with_values_def pair_frames_flat flat_take_pairs bulk_string_i64_def bulk_string_usize_def
        show_i64_nat [symmetric] bulks_eq parse_i64_shortest parse_set_options_none
        split: list.splits if_splits option.splits)

lemma parse_command_publishes: "parsed_as publishes name rest (parse_command now name rest)"
  unfolding parse_branches
  by (intro parsed_as_if) (auto simp: parsed_as_def publishes_def result_cases split: list.splits if_splits)

text \<open>A request is a name and arguments.\<close>

lemma from_frame_parsed:
  assumes "from_frame now f = Inr cmd" "\<And>name rest. parsed_as P name rest (parse_command now name rest)"
  obtains name bs where "f = Array (map Bulk (name # bs))" "P (to_ascii_uppercase name) bs cmd"
proof -
  obtain name items bs where "f = Array (Bulk name # items)" "expect_bulks 1 items = Inr bs"
      "parse_command now (to_ascii_uppercase name) bs = Inr cmd"
    using assms(1)
    by (auto simp: from_frame_def bind_result_Inr expect_bulk_def split: frame.splits list.splits if_splits)
  with assms(2) show thesis by (intro that [of name bs]) (auto simp: expect_bulks_frames parsed_as_def)
qed

text \<open>The frame that is logged for such a command that came over the wire is within the parser's limit.\<close>

lemma logged_no_longer:
  assumes "length (encode f) \<le> MAX_BUFFERED_FRAME_BYTES" "from_frame now f = Inr cmd" "keeps_length cmd"
    "aof_frame built cmd = Some g"
  shows "length (encode g) \<le> MAX_BUFFERED_FRAME_BYTES"
proof -
  obtain name bs where f: "f = Array (map Bulk (name # bs))" "logs_short built (to_ascii_uppercase name) bs cmd"
    using assms(2) parse_command_logs_short by (rule from_frame_parsed)
  then obtain bs' where g: "g = Array (map Bulk (to_ascii_uppercase name # bs'))" "no_longer bs' bs"
    using assms(3,4) unfolding logs_short_def by blast
  have "no_longer (to_ascii_uppercase name # bs') (name # bs)" using g(2) by (simp add: to_ascii_uppercase_def)
  from encode_no_longer [OF this] assms(1) show ?thesis unfolding f(1) g(1) by linarith
qed

lemmas logged_frame_within = logged_no_longer [OF parse_fits]

text \<open>
  A frame of which the only thing known is that it was read from the wire: if it is a command it is well
  formed and within the limit. \<open>log_fits\<close> is what then remains to be asked of a command, so that its
  logged frame can be read back; only those that carry a deadline are asked for anything.
\<close>

definition wire_request :: "u128 \<Rightarrow> frame \<Rightarrow> bool" where
  "wire_request now f \<longleftrightarrow> (case from_frame now f of Inl _ \<Rightarrow> True | Inr cmd \<Rightarrow> wire_frame f)"

definition log_fits :: "u128 \<Rightarrow> command \<Rightarrow> bool" where
  "log_fits built cmd \<longleftrightarrow> keeps_length cmd \<or>
     (case aof_frame built cmd of None \<Rightarrow> True | Some g \<Rightarrow> length (encode g) \<le> MAX_BUFFERED_FRAME_BYTES)"

lemma parsed_wire_request: "parse buf = Inr (Some f, r) \<Longrightarrow> wire_request now f"
  using parse_fits request_wf by (auto simp: wire_request_def wire_frame_def split: sum.split)

lemma wire_requestD: "wire_request now f \<Longrightarrow> from_frame now f = Inr cmd \<Longrightarrow> wire_frame f"
  by (simp add: wire_request_def)

lemma log_fits_wire:
  assumes "wire_request now f" "from_frame now f = Inr cmd" "log_fits built cmd" "aof_frame built cmd = Some g"
  shows "wire_frame g"
proof -
  have f: "wire_frame f" using assms(1,2) by (rule wire_requestD)
  have "length (encode g) \<le> MAX_BUFFERED_FRAME_BYTES"
    using assms(2-4) f logged_no_longer [of f now cmd built g] by (auto simp: log_fits_def wire_frame_def)
  then show ?thesis using logged_wire_frame [OF assms(2) _ assms(4)] f by (simp add: wire_frame_def)
qed

text \<open>A publication that came over the wire fits a message to a subscriber.\<close>

lemma message_within:
  assumes "parse buf = Inr (Some f, r)" "from_frame now f = Inr (Publish channel msg)"
  shows "length (encode (Array [Bulk ''message'', Bulk channel, Bulk msg])) \<le> MAX_BUFFERED_FRAME_BYTES"
proof -
  obtain name bs where f: "f = Array (map Bulk (name # bs))" "publishes (to_ascii_uppercase name) bs (Publish channel msg)"
    using assms(2) parse_command_publishes by (rule from_frame_parsed)
  then have "no_longer [''message'', channel, msg] (name # bs)" by (simp add: publishes_def to_ascii_uppercase_def)
  from encode_no_longer [OF this] parse_fits [OF assms(1)] show ?thesis
    unfolding f(1) by (simp only: list.map)
qed

end
