(* ===== verification/Recovery.thy ===== *)
theory Recovery
  imports Server Lengths
begin

text \<open>
  Recovery after a crash: a run of the loop of \<^verbatim>\<open>server.rs\<close> over the requests of all clients,
  followed by \<open>replay\<close> of the log it wrote, possibly with the beginning of one more frame at its
  end. The two environments differ (a restarted process has other hash seeds).
\<close>

section \<open>A run of the server\<close>

text \<open>
  A request: the time, the state of the log's writer and of the server, and the frame. The result
  of a run is the database and the frames that were logged.
\<close>

record request =
  rq_time :: u128
  rq_aof :: aof_handle
  rq_state :: server_state
  rq_frame :: frame

fun serve :: "('tx, 'rx) env \<Rightarrow> request list \<Rightarrow> 'tx db \<Rightarrow> 'tx db \<times> frame list" where
  "serve E [] db = (db, [])"
| "serve E (q # qs) db =
     (let (replies, step, db, logged) =
            handle_request E (rq_time q) (rq_time q) (\<lambda>_. rq_time q) (Some (rq_aof q)) (rq_state q) (rq_frame q) db;
          (db, frames) = serve E qs db
      in (db, case logged of Some g \<Rightarrow> g # frames | None \<Rightarrow> frames))"

text \<open>
  A command is \<open>settled\<close> for a recovery at \<open>later\<close> when the deadline it sets, if it sets one, does not
  pass between its execution and the recovery, and is one the log carries exactly.
\<close>

fun settled :: "u128 \<Rightarrow> u128 \<Rightarrow> command \<Rightarrow> bool" where
  "settled t later (Set key val (Some d)) \<longleftrightarrow> d \<le> MAX_EXPIRE_AT_MS \<and> (d \<le> t \<or> later < d)"
| "settled t later (Expire key d) \<longleftrightarrow> d \<le> t \<or> later < d"
| "settled t later (PExpire key d) \<longleftrightarrow> d \<le> t \<or> later < d"
| "settled t later (PExpireAt key d) \<longleftrightarrow> d \<le> t \<or> later < d"
| "settled t later _ \<longleftrightarrow> True"

definition recoverable :: "u128 \<Rightarrow> request \<Rightarrow> bool" where
  "recoverable later q \<longleftrightarrow> wire_request (rq_time q) (rq_frame q) \<and>
     (case from_frame (rq_time q) (rq_frame q) of
        Inl _ \<Rightarrow> True
      | Inr cmd \<Rightarrow> settled (rq_time q) later cmd \<and> log_fits (rq_time q) cmd)"

section \<open>Key spaces in which nothing expires\<close>

definition lasting_entry :: "u128 \<Rightarrow> entry option \<Rightarrow> bool" where
  "lasting_entry later eo \<longleftrightarrow> (case eo of
     None \<Rightarrow> True | Some e \<Rightarrow> (case expires_at e of None \<Rightarrow> True | Some d \<Rightarrow> later < d))"

definition lasting :: "u128 \<Rightarrow> keyspace \<Rightarrow> bool" where
  "lasting later m \<longleftrightarrow> (\<forall>k. lasting_entry later (m k))"

lemma lasting_entry_simps [simp]:
  "lasting_entry later None"
  "lasting_entry later (Some (string_entry v None))"
  "lasting_entry later (Some (list_entry l None))"
  "lasting_entry later (Some (hash_entry hm None))"
  "lasting_entry later (Some (e\<lparr>evalue := v'\<rparr>)) = lasting_entry later (Some e)"
  "lasting_entry later (Some (e\<lparr>expires_at := None\<rparr>))"
  "lasting_entry later (Some (e\<lparr>expires_at := Some d\<rparr>)) = (later < d)"
  by (simp_all add: lasting_entry_def)

lemma lasting_live:
  assumes "lasting later (db_live h t db)" "t \<le> t'" "t' \<le> later"
  shows "db_live h t' db = db_live h t db"
proof
  fix k
  have "lasting_entry later (live t (db_at h db k))"
    using assms(1) by (simp add: lasting_def db_live_def)
  then have "live t' (db_at h db k) = live t (db_at h db k)"
    using assms(2,3)
    by (auto simp: lasting_entry_def live_def entry_expired_def split: option.splits if_splits)
  then show "db_live h t' db k = db_live h t db k" by (simp add: db_live_def)
qed

lemma lasting_keys:
  "lasting_entry later eo \<Longrightarrow> lasting_entry later (snd (spec_incr n eo))"
  "lasting_entry later eo \<Longrightarrow> lasting_entry later (snd (spec_append v eo))"
  "lasting_entry later eo \<Longrightarrow> d \<le> t \<or> later < d \<Longrightarrow> lasting_entry later (snd (spec_expire_at t d eo))"
  "lasting_entry later eo \<Longrightarrow> lasting_entry later (snd (spec_persist eo))"
  "lasting_entry later eo \<Longrightarrow> lasting_entry later (snd (spec_push vs sd eo))"
  "lasting_entry later eo \<Longrightarrow> lasting_entry later (snd (spec_pop cnt sd eo))"
  "lasting_entry later eo \<Longrightarrow> lasting_entry later (snd (spec_hset pairs eo))"
  "lasting_entry later eo \<Longrightarrow> lasting_entry later (snd (spec_hdel fs eo))"
  "lasting_entry later eo \<Longrightarrow> lasting_entry later (snd (spec_hincrby f n eo))"
  by (auto simp: spec_incr_def spec_append_def spec_expire_at_def spec_persist_def spec_push_def
      spec_pop_def spec_hset_def spec_hdel_def spec_hincrby_def Let_def
      split: option.splits rvalue.splits if_splits side.splits)

lemma lasting_set:
  "d \<le> t \<or> later < d \<Longrightarrow> lasting_entry later (live t (Some (string_entry v (Some d))))"
  "lasting_entry later (live t (Some (string_entry v None)))"
  by (auto simp: lasting_entry_def live_def entry_expired_def)

lemma lasting_at_key:
  "lasting later m \<Longrightarrow> (\<And>eo. lasting_entry later eo \<Longrightarrow> lasting_entry later (snd (g eo))) \<Longrightarrow>
   lasting later (snd (reply (at_key k g m)))"
  by (auto simp: lasting_def reply_def at_key_def split: prod.splits) (metis snd_conv)

lemma lasting_mset:
  "lasting later m \<Longrightarrow> lasting later (m ++ map_of (rev (map (\<lambda>(k, v). (k, string_entry v None)) pairs)))"
  by (auto simp: lasting_def map_add_def split: option.splits dest!: map_of_SomeD)

lemma lasting_restrict: "lasting later m \<Longrightarrow> lasting later (m |` A)"
  by (simp add: lasting_def restrict_map_def)

lemma spec_apply_lasting:
  "lasting later m \<Longrightarrow> settled t later cmd \<Longrightarrow> lasting later (snd (spec_apply ord t cmd m))"
proof (induction ord t cmd m rule: spec_apply.induct)
  case (5 ord now key val exp m)
  then show ?case
    by (cases exp) (auto simp: spec_set_def intro!: lasting_at_key lasting_set)
qed (auto intro!: lasting_at_key lasting_mset lasting_restrict lasting_keys)

section \<open>Replaying a command later\<close>

lemma set_later:
  "t \<le> later \<Longrightarrow> d \<le> t \<or> later < d \<Longrightarrow> spec_set later v (Some d) = spec_set t v (Some d)"
  "spec_set later v None = spec_set t v None"
  by (auto simp: spec_set_def live_def entry_expired_def fun_eq_iff)

lemma expire_later:
  "t \<le> later \<Longrightarrow> d \<le> t \<or> later < d \<Longrightarrow> spec_expire_at later d = spec_expire_at t d"
  by (auto simp: spec_expire_at_def fun_eq_iff split: option.splits)

lemma spec_apply_later:
  "is_write cmd \<Longrightarrow> settled t later cmd \<Longrightarrow> t \<le> later \<Longrightarrow>
   spec_apply ord' later (read_back t later cmd) m = spec_apply ord t cmd m"
proof (induction ord t cmd m rule: spec_apply.induct)
  case (5 ord now key val exp m)
  then show ?case by (cases exp) (simp_all add: set_later(1), simp add: set_later(2) [of later _ now])
qed (simp_all add: expire_later)

lemma spec_apply_write_reply: "is_write cmd \<Longrightarrow> fst (spec_apply ord t cmd m) \<noteq> None"
  by (induction ord t cmd m rule: spec_apply.induct) (auto simp: reply_def split: prod.splits)

lemma apply_later:
  assumes "db_wf (xxh E) db" "db_wf (xxh E') db2" "db_live (xxh E') later db2 = db_live (xxh E) t db"
    "is_write cmd" "settled t later cmd" "t \<le> later" "lasting later (db_live (xxh E) t db)"
  shows "fst (apply_cmd E' (\<lambda>_. later) (read_back t later cmd) db2) = fst (apply_cmd E (\<lambda>_. t) cmd db)"
    "db_live (xxh E') later (snd (apply_cmd E' (\<lambda>_. later) (read_back t later cmd) db2)) =
       db_live (xxh E) t (snd (apply_cmd E (\<lambda>_. t) cmd db))"
    "lasting later (db_live (xxh E) t (snd (apply_cmd E (\<lambda>_. t) cmd db)))"
proof -
  let ?m = "db_live (xxh E) t db" and ?cmd = "read_back t later cmd"
  note i = apply_refines [OF assms(1), of t cmd] apply_refines [OF assms(2), of later ?cmd]
  have eq: "spec_apply (hash_iter E') later ?cmd ?m = spec_apply (hash_iter E) t cmd ?m"
    using assms(4-6) by (rule spec_apply_later)
  note reply = spec_apply_write_reply [OF assms(4), of "hash_iter E" t ?m]
  show "fst (apply_cmd E' (\<lambda>_. later) ?cmd db2) = fst (apply_cmd E (\<lambda>_. t) cmd db)"
    "db_live (xxh E') later (snd (apply_cmd E' (\<lambda>_. later) ?cmd db2)) =
       db_live (xxh E) t (snd (apply_cmd E (\<lambda>_. t) cmd db))"
    using i reply assms(3) eq by (auto simp: implements_def)
  show "lasting later (db_live (xxh E) t (snd (apply_cmd E (\<lambda>_. t) cmd db)))"
    using i(1) spec_apply_lasting [OF assms(7,5), of "hash_iter E"] by (simp add: implements_def)
qed

text \<open>A request that logs nothing changes nothing that lives; one that logs has executed its command.\<close>

lemma db_live_shards: "shards db' = shards db \<Longrightarrow> db_live h t db' = db_live h t db"
  by (simp add: db_live_def db_at_def shard_for_def fun_eq_iff)

lemma execute_read:
  "\<not> is_write cmd \<Longrightarrow> execute E t c w cmd db = (case apply_cmd E c cmd db of (r, db) \<Rightarrow> (r, db, None))"
  by (simp add: execute_def)

lemma execute_quiet:
  assumes "db_wf (xxh E) db" "append_fits cmd" "execute E t (\<lambda>_. t) (Some w) cmd db = (r, db', None)"
  shows "db_live (xxh E) t db' = db_live (xxh E) t db"
proof (cases "is_write cmd")
  case True
  then show ?thesis using execute_atomic [OF assms(1,2) True assms(3)] by simp
next
  case False
  then have "db' = snd (apply_cmd E (\<lambda>_. t) cmd db)"
    using assms(3) by (auto simp: execute_read split: prod.splits)
  then show ?thesis using read_keeps_shards [OF False] by (intro db_live_shards) simp
qed

lemma request_cases:
  assumes "db_wf (xxh E) db" "wire_request t f"
    "handle_request E t t (\<lambda>_. t) (Some a) st f db = (replies, step, db', logged)"
  shows "case logged of
      None \<Rightarrow> db_live (xxh E) t db' = db_live (xxh E) t db
    | Some g \<Rightarrow> \<exists>cmd r. from_frame t f = Inr cmd \<and> is_write cmd \<and> aof_frame t cmd = Some g \<and>
        (\<forall>m. r \<noteq> Error m) \<and> apply_cmd E (\<lambda>_. t) cmd db = (r, db')"
proof (cases "\<exists>cmd r. from_frame t f = Inr cmd \<and> execute E t (\<lambda>_. t) (Some (ah_write a)) cmd db = (r, db', logged)")
  case True
  then obtain cmd r where cmd: "from_frame t f = Inr cmd"
      and ex: "execute E t (\<lambda>_. t) (Some (ah_write a)) cmd db = (r, db', logged)"
    by blast
  have fits: "append_fits cmd" using from_frame_append_fits [OF cmd] wire_requestD [OF assms(2) cmd] by (simp add: wire_frame_def)
  show ?thesis
  proof (cases logged)
    case None
    with execute_quiet [OF assms(1) fits] ex show ?thesis by simp
  next
    case (Some g)
    then have w: "is_write cmd" using ex by (cases "is_write cmd") (auto simp: execute_read split: prod.splits)
    have "(\<forall>m. r \<noteq> Error m) \<and> aof_frame t cmd = Some g \<and> apply_cmd E (\<lambda>_. t) cmd db = (r, db')"
      using execute_atomic [OF assms(1) fits w ex] Some by auto
    with Some cmd w show ?thesis by auto
  qed
next
  case False
  with assms(3) have "db' = db \<and> logged = None"
    by (auto simp: handle_request_def split: sum.splits command.splits option.splits prod.splits)
  then show ?thesis by simp
qed

section \<open>The log of a run rebuilds its key space\<close>

definition recovers :: "('tx, 'rx) env \<Rightarrow> ('tx2, 'rx2) env \<Rightarrow> u128 \<Rightarrow> u128 \<Rightarrow> 'tx db \<Rightarrow> 'tx2 db \<Rightarrow> bool" where
  "recovers E E' t later db db2 \<longleftrightarrow> db_wf (xxh E) db \<and> db_wf (xxh E') db2 \<and>
     lasting later (db_live (xxh E) t db) \<and> db_live (xxh E') later db2 = db_live (xxh E) t db"

lemma recovers_request:
  assumes r: "recovers E E' t0 later db db2" and q: "recoverable later q" "t0 \<le> rq_time q" "rq_time q \<le> later"
    and fits: "unat later + unat MAX_EXPIRE_AT_MS < 2 ^ 128"
    and h: "handle_request E (rq_time q) (rq_time q) (\<lambda>_. rq_time q) (Some (rq_aof q)) (rq_state q) (rq_frame q) db =
      (replies, step, db', logged)"
  shows "case logged of
      None \<Rightarrow> recovers E E' (rq_time q) later db' db2
    | Some g \<Rightarrow> wire_frame g \<and> (\<exists>db2'. run_log E' (\<lambda>_ _. later) j [g] db2 = Some db2' \<and>
        recovers E E' (rq_time q) later db' db2')"
proof -
  let ?t = "rq_time q"
  have wf: "db_wf (xxh E) db" "db_wf (xxh E') db2" using r by (simp_all add: recovers_def)
  have wf': "db_wf (xxh E) db'" using handle_request_wf [OF wf(1)] h by (metis fst_conv snd_conv)
  have same: "db_live (xxh E) ?t db = db_live (xxh E) t0 db"
    using r q(2,3) by (intro lasting_live) (simp_all add: recovers_def)
  have f: "wire_request (rq_time q) (rq_frame q)" using q(1) by (simp add: recoverable_def)
  note cases = request_cases [OF wf(1) f h]
  show ?thesis
  proof (cases logged)
    case None
    then show ?thesis using cases r wf' same by (simp add: recovers_def)
  next
    case (Some g)
    then obtain cmd r1 where c: "from_frame ?t (rq_frame q) = Inr cmd" "is_write cmd" "aof_frame ?t cmd = Some g"
        "\<forall>m. r1 \<noteq> Error m" "apply_cmd E (\<lambda>_. ?t) cmd db = (r1, db')"
      using cases by auto
    have s: "settled ?t later cmd" "log_fits ?t cmd"
      using q(1) c(1) by (simp_all add: recoverable_def)
    have live: "db_live (xxh E') later db2 = db_live (xxh E) ?t db" "lasting later (db_live (xxh E) ?t db)"
      using r same by (simp_all add: recovers_def)
    note a = apply_later [OF wf live(1) c(2) s(1) q(3) live(2)]
    let ?p = "apply_cmd E' (\<lambda>_. later) (read_back ?t later cmd) db2"
    have "db_wf (xxh E') (snd ?p)" using apply_keeps [OF wf(2)] by (simp add: keeps_def)
    then have "recovers E E' ?t later db' (snd ?p)" using a wf' c(5) by (simp add: recovers_def)
    moreover have "from_frame later g = Inr (read_back ?t later cmd)"
      by (rule read_back_ok [OF from_frame_wf [OF c(1)] c(3) fits])
    then have "run_log E' (\<lambda>_ _. later) j [g] db2 = Some (snd ?p)"
      using a(1) c(4,5) by (auto split: prod.splits frame.splits)
    moreover have "wire_frame g" by (rule log_fits_wire [OF f c(1) s(2) c(3)])
    ultimately show ?thesis using Some by auto
  qed
qed

lemma recovers_run:
  assumes "recovers E E' t0 later db db2" "\<forall>q \<in> set qs. recoverable later q"
    "sorted (t0 # map rq_time qs @ [later])" "unat later + unat MAX_EXPIRE_AT_MS < 2 ^ 128"
    "serve E qs db = (db', fs)"
  shows "(\<forall>g \<in> set fs. wire_frame g) \<and> (\<exists>db2'. run_log E' (\<lambda>_ _. later) j fs db2 = Some db2' \<and>
     recovers E E' (last (t0 # map rq_time qs)) later db' db2')"
  using assms
proof (induction qs arbitrary: t0 db db2 fs j)
  case Nil
  then show ?case by simp
next
  case (Cons q qs)
  obtain replies step db1 logged where
    h: "handle_request E (rq_time q) (rq_time q) (\<lambda>_. rq_time q) (Some (rq_aof q)) (rq_state q) (rq_frame q) db =
      (replies, step, db1, logged)"
    by (metis prod_cases4)
  obtain fs1 where fs1: "serve E qs db1 = (db', fs1)" "fs = (case logged of Some g \<Rightarrow> g # fs1 | None \<Rightarrow> fs1)"
    using Cons.prems(5) h by (auto split: prod.splits)
  have "recoverable later q" "t0 \<le> rq_time q" "rq_time q \<le> later" using Cons.prems(2,3) by auto
  note step = recovers_request [OF Cons.prems(1) this Cons.prems(4) h, of j]
  have IH: "recovers E E' (rq_time q) later db1 db3 \<Longrightarrow>
      (\<forall>g \<in> set fs1. wire_frame g) \<and> (\<exists>db2'. run_log E' (\<lambda>_ _. later) j' fs1 db3 = Some db2' \<and>
       recovers E E' (last (rq_time q # map rq_time qs)) later db' db2')" for db3 j'
    using Cons.prems fs1(1) by (intro Cons.IH) auto
  show ?case
  proof (cases logged)
    case None
    then show ?thesis using step IH [of db2 j] fs1(2) by simp
  next
    case (Some g)
    then obtain db3 where "wire_frame g" "run_log E' (\<lambda>_ _. later) j [g] db2 = Some db3"
        "recovers E E' (rq_time q) later db1 db3"
      using step by auto
    then show ?thesis
      using IH [of db3 "Suc j"] Some fs1(2) run_log_append [of E' "\<lambda>_ _. later" j "[g]" fs1 db2] by simp
  qed
qed

lemma db_live_new: "db_live h t new_db = Map.empty"
  by (simp add: db_live_def db_at_new fun_eq_iff)

lemma crash_recovers:
  assumes "\<forall>q \<in> set qs. recoverable later q" "sorted (map rq_time qs @ [later])"
    "unat later + unat MAX_EXPIRE_AT_MS < 2 ^ 128" "serve E qs new_db = (db', fs)"
    "wire_frame g" "encode g = torn @ q" "q \<noteq> []" "concat chunks = concat (map encode fs) @ torn"
  shows "\<exists>db2. replay E' (\<lambda>_ _. later) chunks new_db = (length fs, db2, concat (map encode fs)) \<and>
    db_wf (xxh E') db2 \<and> db_live (xxh E') later db2 = db_live (xxh E) later db'"
proof -
  let ?t = "last (0 # map rq_time qs)"
  have "recovers E E' 0 later new_db new_db"
    by (simp add: recovers_def db_wf_new db_live_new lasting_def)
  from recovers_run [OF this assms(1) _ assms(3,4), of 0] assms(2)
  obtain db2 where db2: "\<forall>g \<in> set fs. wire_frame g" "run_log E' (\<lambda>_ _. later) 0 fs new_db = Some db2"
      "recovers E E' ?t later db' db2"
    by auto
  have "?t \<le> later" using assms(2) by (auto simp: sorted_append last_map)
  then have "db_live (xxh E) later db' = db_live (xxh E) ?t db'"
    using db2(3) by (intro lasting_live [of later]) (simp_all add: recovers_def)
  then show ?thesis
    using replay_log [OF db2(1,2) assms(5-8)] db2(3) by (simp add: recovers_def)
qed

end
