(* ===== verification/Rewrite.thy ===== *)
theory Rewrite
  imports Recovery
begin

text \<open>
  The AOF rewrite of \<^verbatim>\<open>src/src/aof.rs\<close>: how the entries of a snapshot become commands that
  rebuild them, cut into frames that \<open>replay\<close> can buffer. A function that writes to the temporary
  file returns the frames it writes, in order, or the error that ends the rewrite; errors of the
  file system are left out. \<open>c\<close> are the clock readings of an entry, \<open>ord\<close> is the iteration order of
  a \<open>HashMap\<close>.
\<close>

section \<open>Frames and their lengths\<close>

type_synonym written = "(bytes, frame list) result"

definition then_write :: "written \<Rightarrow> written \<Rightarrow> written" where
  "then_write a b = bind_result a (\<lambda>fs. map_result (\<lambda>gs. fs @ gs) b)"

definition write_replayable_snapshot_frame :: "frame \<Rightarrow> written" where
  "write_replayable_snapshot_frame f = (case encoded_len f of
      None \<Rightarrow> Inl ''AOF rewrite frame length overflow''
    | Some len \<Rightarrow>
        if len > MAX_AOF_BUFFERED_FRAME_BYTES
        then Inl (''AOF rewrite frame length '' @ show_nat len @ '' exceeds replay limit ''
                  @ show_nat MAX_AOF_BUFFERED_FRAME_BYTES)
        else Inr [f])"

definition frame_is_replayable :: "frame \<Rightarrow> bool" where
  "frame_is_replayable f = (case encoded_len f of
      Some len \<Rightarrow> len \<le> MAX_AOF_BUFFERED_FRAME_BYTES | None \<Rightarrow> False)"

text \<open>Copies of the helpers of \<^verbatim>\<open>cmd/mod.rs\<close>, which agree with them.\<close>

definition aof_bulk_string :: "u128 \<Rightarrow> frame" where "aof_bulk_string n = Bulk (show_u128 n)"

definition aof_relative_millis_for_aof :: "u128 \<Rightarrow> u128 \<Rightarrow> u128" where
  "aof_relative_millis_for_aof now deadline =
     max 1 (min MAX_EXPIRE_AT_MS (saturating_sub_u128 deadline now))"

definition aof_push_set_expiry :: "u128 \<Rightarrow> u128 \<Rightarrow> frame list" where
  "aof_push_set_expiry now deadline =
     (if deadline \<le> MAX_EXPIRE_AT_MS then [Bulk ''PXAT'', aof_bulk_string deadline]
      else [Bulk ''PX'', aof_bulk_string (aof_relative_millis_for_aof now deadline)])"

definition aof_pexpireat_frame :: "bytes \<Rightarrow> u128 \<Rightarrow> frame" where
  "aof_pexpireat_frame key deadline = Array [Bulk ''PEXPIREAT'', Bulk key, aof_bulk_string deadline]"

definition set_frame :: "u128 \<Rightarrow> bytes \<Rightarrow> bytes \<Rightarrow> u128 option \<Rightarrow> frame" where
  "set_frame now key val exp = Array ([Bulk ''SET'', Bulk key, Bulk val]
     @ (case exp of Some deadline \<Rightarrow> aof_push_set_expiry now deadline | None \<Rightarrow> []))"

definition pexpire_frame :: "bytes \<Rightarrow> u128 \<Rightarrow> frame" where
  "pexpire_frame key ttl_ms = Array [Bulk ''PEXPIRE'', Bulk key, aof_bulk_string ttl_ms]"

definition expiry_frame :: "u128 \<Rightarrow> bytes \<Rightarrow> u128 \<Rightarrow> frame" where
  "expiry_frame now key deadline =
     (if deadline \<le> MAX_EXPIRE_AT_MS then aof_pexpireat_frame key deadline
      else pexpire_frame key (aof_relative_millis_for_aof now deadline))"

lemma aof_helpers:
  "aof_bulk_string = bulk_string_u128" "aof_relative_millis_for_aof = relative_millis_for_aof"
  "aof_push_set_expiry = push_set_expiry" "aof_pexpireat_frame = pexpireat_frame"
proof -
  show bulk: "aof_bulk_string = bulk_string_u128"
    by (simp add: fun_eq_iff aof_bulk_string_def bulk_string_u128_def)
  show rel: "aof_relative_millis_for_aof = relative_millis_for_aof"
    by (simp add: fun_eq_iff aof_relative_millis_for_aof_def relative_millis_for_aof_def Let_def)
  show "aof_push_set_expiry = push_set_expiry"
    by (simp add: fun_eq_iff aof_push_set_expiry_def push_set_expiry_def bulk rel)
  show "aof_pexpireat_frame = pexpireat_frame"
    by (simp add: fun_eq_iff aof_pexpireat_frame_def pexpireat_frame_def bulk)
qed

lemmas set_frame_eq = set_frame_def [unfolded aof_helpers]

lemmas pexpire_frame_eq = pexpire_frame_def [unfolded aof_helpers]

lemmas expiry_frame_eq = expiry_frame_def [unfolded aof_helpers]

definition command_key_base_len :: "bytes \<Rightarrow> bytes \<Rightarrow> nat \<Rightarrow> nat option" where
  "command_key_base_len command key total_items =
     Option.bind (resp_array_header_len total_items) (\<lambda>a.
     Option.bind (resp_bulk_len (length command)) (\<lambda>b.
     Option.bind (checked_add_usize a b) (\<lambda>c.
     Option.bind (resp_bulk_len (length key)) (\<lambda>d. checked_add_usize c d))))"

definition chunked_command_len :: "bytes \<Rightarrow> bytes \<Rightarrow> nat \<Rightarrow> nat \<Rightarrow> nat option" where
  "chunked_command_len command key payload_items payload_len =
     Option.bind (command_key_base_len command key (payload_items + 2)) (\<lambda>base.
     checked_add_usize base payload_len)"

text \<open>The binary search of \<open>max_payload_len_for_frame\<close>.\<close>

definition payload_fits :: "nat \<Rightarrow> nat \<Rightarrow> bool option" where
  "payload_fits base_len mid = Option.bind (resp_bulk_len mid) (\<lambda>n.
     Some (case checked_add_usize base_len n of
             Some len \<Rightarrow> len \<le> MAX_AOF_BUFFERED_FRAME_BYTES | None \<Rightarrow> False))"

function payload_search :: "nat \<Rightarrow> nat \<Rightarrow> nat \<Rightarrow> nat option" where
  "payload_search base_len lo hi =
     (if lo < hi then
        let mid = lo + (hi - lo + 1) div 2 in
        Option.bind (payload_fits base_len mid) (\<lambda>fits.
          if fits then payload_search base_len mid hi else payload_search base_len lo (mid - 1))
      else Some lo)"
  by pat_completeness auto
termination
proof (relation "measure (\<lambda>(base_len, lo, hi). hi - lo)")
  fix base_len lo hi mid :: nat
  assume a: "lo < hi" and m: "mid = lo + (hi - lo + 1) div 2"
  then have "lo < mid" "mid \<le> hi" by simp_all
  then show "((base_len, mid, hi), base_len, lo, hi) \<in> measure (\<lambda>(base_len, lo, hi). hi - lo)"
    "((base_len, lo, mid - 1), base_len, lo, hi) \<in> measure (\<lambda>(base_len, lo, hi). hi - lo)"
    using a by auto
qed simp

declare payload_search.simps [simp del]

definition max_payload_len_for_frame :: "nat \<Rightarrow> nat option" where
  "max_payload_len_for_frame base_len =
     Option.bind (resp_bulk_len 0) (\<lambda>z.
     Option.bind (checked_add_usize base_len z) (\<lambda>len.
       if len > MAX_AOF_BUFFERED_FRAME_BYTES then None
       else payload_search base_len 0 (min MAX_BULK_LEN MAX_AOF_BUFFERED_FRAME_BYTES)))"

definition max_append_chunk_len :: "bytes \<Rightarrow> nat option" where
  "max_append_chunk_len key =
     Option.bind (command_key_base_len ''APPEND'' key 3) max_payload_len_for_frame"

section \<open>The entries of the snapshot\<close>

definition write_expiry_snapshot :: "u128 \<Rightarrow> bytes \<Rightarrow> u128 option \<Rightarrow> written" where
  "write_expiry_snapshot now key exp = (case exp of
      Some deadline \<Rightarrow> write_replayable_snapshot_frame (expiry_frame now key deadline)
    | None \<Rightarrow> Inr [])"

definition write_rpush_snapshot :: "bytes \<Rightarrow> bytes list \<Rightarrow> written" where
  "write_rpush_snapshot key vals =
     write_replayable_snapshot_frame (Array (Bulk ''RPUSH'' # Bulk key # map Bulk vals))"

definition write_hset_snapshot :: "bytes \<Rightarrow> (bytes \<times> bytes) list \<Rightarrow> written" where
  "write_hset_snapshot key pairs =
     write_replayable_snapshot_frame (Array (Bulk ''HSET'' # Bulk key # pair_frames pairs))"

text \<open>
  The loop of \<open>write_string_snapshot\<close> from \<open>offset\<close> on. The source leaves the function before the
  loop when \<open>chunk_len\<close> is 0 and the string is not empty; the sum is within \<open>usize\<close>.
\<close>

function append_loop :: "bytes \<Rightarrow> nat \<Rightarrow> bytes \<Rightarrow> nat \<Rightarrow> written" where
  "append_loop key chunk_len val offset =
     (if offset < length val \<and> 0 < chunk_len then
        let stop = min (offset + chunk_len) (length val);
            chunk = take (stop - offset) (drop offset val)
        in then_write (write_replayable_snapshot_frame (Array [Bulk ''APPEND'', Bulk key, Bulk chunk]))
             (append_loop key chunk_len val stop)
      else Inr [])"
  by pat_completeness auto
termination
  by (relation "measure (\<lambda>(key, chunk_len, val, offset). length val - offset)") auto

declare append_loop.simps [simp del]

definition write_string_snapshot :: "clock \<Rightarrow> bytes \<Rightarrow> bytes \<Rightarrow> u128 option \<Rightarrow> written" where
  "write_string_snapshot c key val exp =
     (let full_set = set_frame (c 1) key val exp in
      if frame_is_replayable full_set then write_replayable_snapshot_frame full_set
      else then_write (write_replayable_snapshot_frame (set_frame (c 1) key [] None))
        (bind_result (ok_or ''AOF rewrite cannot encode APPEND frame within replay limit'' (max_append_chunk_len key))
          (\<lambda>chunk_len.
             if chunk_len = 0 \<and> val \<noteq> []
             then Inl ''AOF rewrite cannot encode non-empty string chunks within replay limit''
             else then_write (append_loop key chunk_len val 0) (write_expiry_snapshot (c 2) key exp))))"

fun list_loop :: "bytes \<Rightarrow> bytes list \<Rightarrow> nat \<Rightarrow> bytes list \<Rightarrow> written" where
  "list_loop key current payload_len [] =
     (if current \<noteq> [] then write_rpush_snapshot key current else Inr [])"
| "list_loop key current payload_len (v # vs) =
     bind_result (ok_or ''AOF rewrite list element length overflow'' (resp_bulk_len (length v))) (\<lambda>value_len.
     bind_result (ok_or ''AOF rewrite RPUSH frame length overflow'' (chunked_command_len ''RPUSH'' key (length current + 1) (payload_len + value_len))) (\<lambda>next_len.
       if next_len \<le> MAX_AOF_BUFFERED_FRAME_BYTES
       then list_loop key (current @ [v]) (payload_len + value_len) vs
       else if current = [] then Inl ''AOF rewrite list element exceeds replayable frame limit''
       else then_write (write_rpush_snapshot key current)
         (bind_result (ok_or ''AOF rewrite RPUSH frame length overflow'' (chunked_command_len ''RPUSH'' key 1 value_len)) (\<lambda>single_len.
            if single_len > MAX_AOF_BUFFERED_FRAME_BYTES
            then Inl ''AOF rewrite list element exceeds replayable frame limit''
            else list_loop key [v] value_len vs))))"

definition write_list_snapshot :: "clock \<Rightarrow> bytes \<Rightarrow> bytes list \<Rightarrow> u128 option \<Rightarrow> written" where
  "write_list_snapshot c key vals exp =
     then_write (list_loop key [] 0 vals) (write_expiry_snapshot (c 1) key exp)"

fun hash_loop :: "bytes \<Rightarrow> (bytes \<times> bytes) list \<Rightarrow> nat \<Rightarrow> (bytes \<times> bytes) list \<Rightarrow> written" where
  "hash_loop key current payload_len [] =
     (if current \<noteq> [] then write_hset_snapshot key current else Inr [])"
| "hash_loop key current payload_len ((f, v) # ps) =
     bind_result (ok_or ''AOF rewrite hash field length overflow'' (resp_bulk_len (length f))) (\<lambda>field_len.
     bind_result (ok_or ''AOF rewrite hash value length overflow'' (resp_bulk_len (length v))) (\<lambda>value_len.
     bind_result (ok_or ''AOF rewrite hash pair length overflow'' (checked_add_usize field_len value_len)) (\<lambda>pair_len.
     bind_result (ok_or ''AOF rewrite HSET frame length overflow'' (checked_add_usize payload_len pair_len)) (\<lambda>next_payload_len.
     bind_result (ok_or ''AOF rewrite HSET frame length overflow'' (chunked_command_len ''HSET'' key ((length current + 1) * 2) next_payload_len)) (\<lambda>next_len.
       if next_len \<le> MAX_AOF_BUFFERED_FRAME_BYTES
       then hash_loop key (current @ [(f, v)]) next_payload_len ps
       else if current = [] then Inl ''AOF rewrite hash pair exceeds replayable frame limit''
       else then_write (write_hset_snapshot key current)
         (bind_result (ok_or ''AOF rewrite HSET frame length overflow'' (chunked_command_len ''HSET'' key 2 pair_len)) (\<lambda>single_len.
            if single_len > MAX_AOF_BUFFERED_FRAME_BYTES
            then Inl ''AOF rewrite hash pair exceeds replayable frame limit''
            else hash_loop key [(f, v)] pair_len ps)))))))"

definition write_hash_snapshot :: "hash_order \<Rightarrow> clock \<Rightarrow> bytes \<Rightarrow> (bytes \<times> bytes) list \<Rightarrow> u128 option \<Rightarrow> written" where
  "write_hash_snapshot ord c key hm exp =
     then_write (hash_loop key [] 0 (sort_key fst (ord hm))) (write_expiry_snapshot (c 1) key exp)"

definition write_snapshot_entry :: "hash_order \<Rightarrow> clock \<Rightarrow> bytes \<Rightarrow> entry \<Rightarrow> written" where
  "write_snapshot_entry ord c key e =
     (if entry_expired (c 0) e then Inr []
      else case evalue e of
        VString val \<Rightarrow> write_string_snapshot c key val (expires_at e)
      | VList vals \<Rightarrow> if vals \<noteq> [] then write_list_snapshot c key vals (expires_at e) else Inr []
      | VHash hm \<Rightarrow> if hm \<noteq> [] then write_hash_snapshot ord c key hm (expires_at e) else Inr [])"

fun write_snapshot_entries :: "hash_order \<Rightarrow> (nat \<Rightarrow> clock) \<Rightarrow> nat \<Rightarrow> (bytes \<times> entry) list \<Rightarrow> written" where
  "write_snapshot_entries ord c i [] = Inr []"
| "write_snapshot_entries ord c i ((key, e) # es) =
     then_write (write_snapshot_entry ord (c i) key e) (write_snapshot_entries ord c (Suc i) es)"

section \<open>The binary search finds the largest payload\<close>

definition bulk_size :: "nat \<Rightarrow> nat" where
  "bulk_size n = length (encode (Bulk (replicate n CR)))"

lemma bulk_size_eq: "bulk_size n = length (show_nat n) + n + 5"
  by (simp add: bulk_size_def)

lemma bulk_size_mono: "m \<le> n \<Longrightarrow> bulk_size m \<le> bulk_size n"
  using show_nat_length_mono [of m n] by (simp add: bulk_size_eq)

lemma payload_fits_eq:
  assumes "mid \<le> MAX_BULK_LEN"
  shows "payload_fits base_len mid = Some (base_len + bulk_size mid \<le> MAX_AOF_BUFFERED_FRAME_BYTES)"
  using assms
  by (simp add: payload_fits_def resp_bulk_len_small limits_values bulk_size_eq checked_add_usize_def
      MAX_AOF_BUFFERED_FRAME_BYTES_def)

lemma payload_search_max:
  assumes "lo \<le> hi" "hi \<le> MAX_BULK_LEN" "base_len + bulk_size lo \<le> MAX_AOF_BUFFERED_FRAME_BYTES"
  shows "\<exists>n. payload_search base_len lo hi = Some n \<and> lo \<le> n \<and> n \<le> hi \<and>
    base_len + bulk_size n \<le> MAX_AOF_BUFFERED_FRAME_BYTES \<and>
    (\<forall>m. n < m \<longrightarrow> m \<le> hi \<longrightarrow> MAX_AOF_BUFFERED_FRAME_BYTES < base_len + bulk_size m)"
  using assms
proof (induction base_len lo hi rule: payload_search.induct)
  case (1 base_len lo hi)
  show ?case
  proof (cases "lo < hi")
    case True
    define mid where "mid = lo + (hi - lo + 1) div 2"
    have mid: "lo < mid" "mid \<le> hi" using True by (simp_all add: mid_def)
    have pf: "payload_fits base_len mid = Some (base_len + bulk_size mid \<le> MAX_AOF_BUFFERED_FRAME_BYTES)"
      using mid "1.prems"(2) by (intro payload_fits_eq) simp
    have eq: "payload_search base_len lo hi =
        (if base_len + bulk_size mid \<le> MAX_AOF_BUFFERED_FRAME_BYTES then payload_search base_len mid hi
         else payload_search base_len lo (mid - 1))"
      unfolding payload_search.simps [of base_len lo hi] Let_def mid_def [symmetric]
      using True pf by simp
    show ?thesis
    proof (cases "base_len + bulk_size mid \<le> MAX_AOF_BUFFERED_FRAME_BYTES")
      case fits: True
      then obtain n where "payload_search base_len mid hi = Some n" "mid \<le> n" "n \<le> hi"
          "base_len + bulk_size n \<le> MAX_AOF_BUFFERED_FRAME_BYTES"
          "\<forall>m. n < m \<longrightarrow> m \<le> hi \<longrightarrow> MAX_AOF_BUFFERED_FRAME_BYTES < base_len + bulk_size m"
        using "1.IH"(1) [OF True mid_def, of True] mid "1.prems" pf by auto
      then show ?thesis using fits mid(1) by (intro exI [of _ n]) (simp add: eq)
    next
      case False
      have "\<forall>m. mid \<le> m \<longrightarrow> MAX_AOF_BUFFERED_FRAME_BYTES < base_len + bulk_size m"
        using False bulk_size_mono by (meson add_le_cancel_left leD leI order.strict_trans2)
      moreover have "lo \<le> mid - 1" "mid - 1 \<le> MAX_BULK_LEN" using mid "1.prems"(2) by linarith+
      then obtain n where "payload_search base_len lo (mid - 1) = Some n" "lo \<le> n" "n \<le> mid - 1"
          "base_len + bulk_size n \<le> MAX_AOF_BUFFERED_FRAME_BYTES"
          "\<forall>m. n < m \<longrightarrow> m \<le> mid - 1 \<longrightarrow> MAX_AOF_BUFFERED_FRAME_BYTES < base_len + bulk_size m"
        using "1.IH"(2) [OF True mid_def, of False] "1.prems"(3) pf False by auto
      ultimately show ?thesis using False mid(2) by (intro exI [of _ n]) (auto simp: eq)
    qed
  next
    case False
    with "1.prems" show ?thesis by (auto simp: payload_search.simps)
  qed
qed

lemma max_payload_best:
  "max_payload_len_for_frame base_len =
     (if base_len + bulk_size 0 \<le> MAX_AOF_BUFFERED_FRAME_BYTES
      then Some (Max {n. n \<le> MAX_BULK_LEN \<and> base_len + bulk_size n \<le> MAX_AOF_BUFFERED_FRAME_BYTES})
      else None)"
proof (cases "base_len + bulk_size 0 \<le> MAX_AOF_BUFFERED_FRAME_BYTES")
  case True
  let ?P = "\<lambda>n. n \<le> MAX_BULK_LEN \<and> base_len + bulk_size n \<le> MAX_AOF_BUFFERED_FRAME_BYTES"
  have m: "min MAX_BULK_LEN MAX_AOF_BUFFERED_FRAME_BYTES = MAX_BULK_LEN"
    by (simp add: limits_values MAX_AOF_BUFFERED_FRAME_BYTES_def)
  obtain n where n: "payload_search base_len 0 MAX_BULK_LEN = Some n" "?P n" "\<forall>m. ?P m \<longrightarrow> m \<le> n"
    using payload_search_max [OF _ _ True, of MAX_BULK_LEN] by (auto simp: not_less [symmetric])
  then have "Max {n. ?P n} = n" by (intro Max_eqI) auto
  moreover have "max_payload_len_for_frame base_len = Some n"
    using True n(1)
    by (simp add: max_payload_len_for_frame_def resp_bulk_len_small m bulk_size_eq checked_add_usize_def
        limits_values MAX_AOF_BUFFERED_FRAME_BYTES_def)
  ultimately show ?thesis using True by simp
next
  case False
  then show ?thesis
    by (auto simp: max_payload_len_for_frame_def resp_bulk_len_small bulk_size_eq checked_add_usize_def)
qed

section \<open>What is written for an entry\<close>

definition replay_len :: "frame \<Rightarrow> bool" where
  "replay_len f \<longleftrightarrow> length (encode f) \<le> MAX_AOF_BUFFERED_FRAME_BYTES"

lemma write_frame_eq: "(write_replayable_snapshot_frame f = Inr fs) \<longleftrightarrow> fs = [f] \<and> replay_len f"
  by (auto simp: write_replayable_snapshot_frame_def replay_len_def encoded_len_eq usize_checked_def
      MAX_AOF_BUFFERED_FRAME_BYTES_def limits_values)

lemma frame_is_replayable_eq: "frame_is_replayable f \<longleftrightarrow> replay_len f"
  by (auto simp: frame_is_replayable_def replay_len_def encoded_len_eq usize_checked_def
      MAX_AOF_BUFFERED_FRAME_BYTES_def limits_values)

lemma then_write_Inr: "then_write a b = Inr fs \<longleftrightarrow> (\<exists>x y. a = Inr x \<and> b = Inr y \<and> fs = x @ y)"
  by (auto simp: then_write_def result_cases)

lemma ok_or_Inr: "ok_or e x = Inr a \<longleftrightarrow> x = Some a"
  by (auto simp: ok_or_def split: option.splits)

lemmas written_cases = write_frame_eq then_write_Inr ok_or_Inr result_cases

abbreviation append_frame :: "bytes \<Rightarrow> bytes \<Rightarrow> frame" where
  "append_frame key chunk \<equiv> Array [Bulk ''APPEND'', Bulk key, Bulk chunk]"

abbreviation hset_frame :: "bytes \<Rightarrow> (bytes \<times> bytes) list \<Rightarrow> frame" where
  "hset_frame key pairs \<equiv> Array (Bulk ''HSET'' # Bulk key # pair_frames pairs)"

text \<open>The frames \<open>fs\<close> are one command per piece of \<open>xs\<close>, none empty, each short enough for \<open>replay\<close>.\<close>

definition pieces :: "('a list \<Rightarrow> frame) \<Rightarrow> 'a list \<Rightarrow> frame list \<Rightarrow> bool" where
  "pieces mk xs fs \<longleftrightarrow> (\<exists>chunks. fs = map mk chunks \<and> concat chunks = xs \<and> [] \<notin> set chunks \<and>
     (\<forall>chunk \<in> set chunks. replay_len (mk chunk)))"

lemma pieces_Nil [simp]: "pieces mk [] []"
  by (simp add: pieces_def)

lemma pieces_Cons: "chunk \<noteq> [] \<Longrightarrow> replay_len (mk chunk) \<Longrightarrow> pieces mk xs fs \<Longrightarrow> pieces mk (chunk @ xs) (mk chunk # fs)"
  unfolding pieces_def by (metis concat.simps(2) list.simps(9) set_ConsD list.set_intros)

text \<open>Both loops either extend the current piece or write it out and start the next one.\<close>

lemma pieces_step:
  assumes "(\<exists>n. loop (current @ [x]) n xs = Inr fs) \<or>
      (\<exists>n fs'. current \<noteq> [] \<and> replay_len (mk current) \<and> fs = mk current # fs' \<and> loop [x] n xs = Inr fs')"
    "\<And>current n fs. loop current n xs = Inr fs \<Longrightarrow> pieces mk (current @ xs) fs"
  shows "pieces mk (current @ x # xs) fs"
  using assms(1)
proof (elim disjE exE conjE)
  fix n fs' assume "current \<noteq> []" "replay_len (mk current)" "fs = mk current # fs'" "loop [x] n xs = Inr fs'"
  then show ?thesis using assms(2) [of "[x]" n fs'] pieces_Cons [of current mk "[x] @ xs" fs'] by simp
qed (use assms(2) in fastforce)

lemma list_loop_pieces:
  "list_loop key current n vs = Inr fs \<Longrightarrow> pieces (command_with_values ''RPUSH'' key) (current @ vs) fs"
proof (induction vs arbitrary: current n fs)
  case Nil
  then show ?case
    using pieces_Cons [of current "command_with_values ''RPUSH'' key" "[]" "[]"]
    by (auto simp: write_rpush_snapshot_def written_cases command_with_values_def [symmetric] split: if_splits)
next
  case (Cons v vs)
  show ?case
    by (rule pieces_step [where loop = "list_loop key", OF _ Cons.IH])
       (use Cons.prems in \<open>auto simp: write_rpush_snapshot_def written_cases command_with_values_def split: if_splits\<close>)
qed

lemma hash_loop_pieces:
  "hash_loop key current n ps = Inr fs \<Longrightarrow> pieces (hset_frame key) (current @ ps) fs"
proof (induction ps arbitrary: current n fs)
  case Nil
  then show ?case
    using pieces_Cons [of current "hset_frame key" "[]" "[]"]
    by (auto simp: write_hset_snapshot_def written_cases split: if_splits)
next
  case (Cons p ps)
  obtain f v where p: "p = (f, v)" by (cases p)
  show ?case
    by (rule pieces_step [where loop = "hash_loop key", OF _ Cons.IH])
       (use Cons.prems in \<open>auto simp: p write_hset_snapshot_def written_cases split: if_splits\<close>)
qed

lemma append_loop_pieces:
  "0 < n \<or> length val \<le> offset \<Longrightarrow> append_loop key n val offset = Inr fs \<Longrightarrow>
   pieces (append_frame key) (drop offset val) fs"
proof (induction key n val offset arbitrary: fs rule: append_loop.induct)
  case (1 key n val offset)
  show ?case
  proof (cases "offset < length val \<and> 0 < n")
    case True
    define stop where "stop = min (offset + n) (length val)"
    define chunk where "chunk = take (stop - offset) (drop offset val)"
    have "append_loop key n val offset =
        then_write (write_replayable_snapshot_frame (append_frame key chunk)) (append_loop key n val stop)"
      using True by (subst append_loop.simps) (simp add: Let_def stop_def chunk_def)
    with "1.prems"(2) obtain fs' where fs': "append_loop key n val stop = Inr fs'"
        "fs = append_frame key chunk # fs'" "replay_len (append_frame key chunk)"
      by (auto simp: written_cases)
    then have "pieces (append_frame key) (drop stop val) fs'"
      using "1.IH" True by (simp add: stop_def)
    moreover have "offset < stop" using True by (simp add: stop_def)
    then have "drop stop val = drop (stop - offset) (drop offset val)" by simp
    then have "chunk @ drop stop val = drop offset val" unfolding chunk_def by (simp only: append_take_drop_id)
    moreover have "chunk \<noteq> []" using True \<open>offset < stop\<close> by (simp add: chunk_def)
    ultimately show ?thesis using fs'(2,3) pieces_Cons [of chunk "append_frame key"] by metis
  next
    case False
    then show ?thesis using "1.prems" by (auto simp: append_loop.simps [of key n val offset])
  qed
qed

section \<open>When the rewrite succeeds\<close>

lemma chunked_command_len_Some:
  "chunked_command_len name key n payload = Some x \<longleftrightarrow>
     x = length (show_nat (n + 2)) + 3 + bulk_size (length name) + bulk_size (length key) + payload \<and> x < usize_limit"
  by (auto simp: chunked_command_len_def command_key_base_len_def bind_eq_Some_conv resp_array_header_len_Some
      resp_bulk_len_Some bulk_size_eq)

definition payload :: "bytes list \<Rightarrow> nat" where
  "payload vs = sum_list (map (\<lambda>v. bulk_size (length v)) vs)"

lemma payload_simps [simp]:
  "payload [] = 0" "payload (v # vs) = bulk_size (length v) + payload vs" "payload (vs @ ws) = payload vs + payload ws"
  by (simp_all add: payload_def)

lemma length_encode_bulks: "length (concat (map (\<lambda>v. encode (Bulk v)) vs)) = payload vs"
  by (induction vs) (simp_all add: bulk_size_eq)

text \<open>The length of a command with a key and \<open>bs\<close>, as the loops compute it.\<close>

definition command_size :: "bytes \<Rightarrow> bytes \<Rightarrow> bytes list \<Rightarrow> nat" where
  "command_size name key bs =
     length (show_nat (length bs + 2)) + 3 + bulk_size (length name) + bulk_size (length key) + payload bs"

lemma replay_len_command:
  "replay_len (Array (map Bulk (name # key # bs))) \<longleftrightarrow> command_size name key bs \<le> MAX_AOF_BUFFERED_FRAME_BYTES"
  using length_encode_bulks [of bs]
  by (simp add: replay_len_def command_size_def comp_def bulk_size_eq) presburger

lemma chunked_len_command:
  assumes "command_size name key bs < usize_limit" "n = length bs" "p = payload bs"
  shows "chunked_command_len name key n p = Some (command_size name key bs)"
  using assms by (simp add: chunked_command_len_Some command_size_def)

lemma command_size_mono: "command_size name key bs \<le> command_size name key (bs @ cs)"
  using show_nat_length_mono [of "length bs + 2" "length bs + length cs + 2"]
  by (simp add: command_size_def)

lemma show_nat_le: "0 < n \<Longrightarrow> length (show_nat n) \<le> n"
  using power_gt_expt [of 10 n] by (intro show_nat_pow10) simp_all

lemma payload_ge: "length bs \<le> payload bs"
  by (induction bs) (simp_all add: bulk_size_eq)

lemma command_size_small:
  assumes "bs \<noteq> [] \<longrightarrow> command_size name key bs \<le> MAX_AOF_BUFFERED_FRAME_BYTES"
    "command_size name key cs \<le> MAX_AOF_BUFFERED_FRAME_BYTES"
  shows "command_size name key (bs @ cs) < usize_limit"
proof (cases "bs = []")
  case True
  then show ?thesis using assms(2) by (simp add: limits_values MAX_AOF_BUFFERED_FRAME_BYTES_def)
next
  case False
  have "length (show_nat (length bs + length cs + 2)) \<le> payload bs + payload cs + 2"
    using show_nat_le [of "length bs + length cs + 2"] payload_ge [of bs] payload_ge [of cs] by linarith
  then show ?thesis
    using assms False by (simp add: command_size_def limits_values MAX_AOF_BUFFERED_FRAME_BYTES_def)
qed

text \<open>A step of the loop over a list, when the lengths are small enough not to overflow.\<close>

lemma bulk_len_eq: "bulk_size n < usize_limit \<Longrightarrow> resp_bulk_len n = Some (bulk_size n)"
  by (simp add: resp_bulk_len_Some bulk_size_eq)

lemma list_loop_step:
  assumes "command_size ''RPUSH'' key (current @ [v]) < usize_limit"
  shows "list_loop key current (payload current) (v # vs) =
    (if command_size ''RPUSH'' key (current @ [v]) \<le> MAX_AOF_BUFFERED_FRAME_BYTES
     then list_loop key (current @ [v]) (payload (current @ [v])) vs
     else if current = [] then Inl ''AOF rewrite list element exceeds replayable frame limit''
     else then_write (write_rpush_snapshot key current)
       (if command_size ''RPUSH'' key [v] > MAX_AOF_BUFFERED_FRAME_BYTES
        then Inl ''AOF rewrite list element exceeds replayable frame limit''
        else list_loop key [v] (payload [v]) vs))"
proof -
  have "command_size ''RPUSH'' key [v] \<le> command_size ''RPUSH'' key (current @ [v])"
    using show_nat_length_mono [of 3 "length current + 3"] by (simp add: command_size_def eval_nat_numeral)
  then have single: "chunked_command_len ''RPUSH'' key 1 (bulk_size (length v)) = Some (command_size ''RPUSH'' key [v])"
    using assms by (intro chunked_len_command) simp_all
  have bulk: "resp_bulk_len (length v) = Some (bulk_size (length v))"
    using assms by (intro bulk_len_eq) (simp add: command_size_def)
  show ?thesis
    using chunked_len_command [OF assms refl refl] bulk single by (simp add: ok_or_def)
qed

lemma list_loop_succeeds:
  assumes "\<forall>v \<in> set vs. command_size ''RPUSH'' key [v] \<le> MAX_AOF_BUFFERED_FRAME_BYTES"
    "current \<noteq> [] \<longrightarrow> command_size ''RPUSH'' key current \<le> MAX_AOF_BUFFERED_FRAME_BYTES"
  shows "\<exists>fs. list_loop key current (payload current) vs = Inr fs"
  using assms
proof (induction vs arbitrary: current)
  case Nil
  then show ?case
    using replay_len_command [of "''RPUSH''" key current]
    by (auto simp: write_rpush_snapshot_def write_frame_eq [THEN iffD2])
next
  case (Cons v vs)
  have v: "command_size ''RPUSH'' key [v] \<le> MAX_AOF_BUFFERED_FRAME_BYTES" using Cons.prems(1) by simp
  have small: "command_size ''RPUSH'' key (current @ [v]) < usize_limit"
    using Cons.prems(2) v by (intro command_size_small) auto
  have full: "\<exists>fs. write_rpush_snapshot key current = Inr fs" if "current \<noteq> []"
    using that Cons.prems(2) replay_len_command [of "''RPUSH''" key current]
    by (simp add: write_rpush_snapshot_def write_frame_eq)
  have IH: "command_size ''RPUSH'' key cur \<le> MAX_AOF_BUFFERED_FRAME_BYTES \<Longrightarrow>
      \<exists>fs. list_loop key cur (payload cur) vs = Inr fs" for cur
    using Cons.IH [of cur] Cons.prems(1) by simp
  show ?case
    unfolding list_loop_step [OF small]
    using full v IH [OF v] IH [of "current @ [v]"] by (auto simp: then_write_Inr)
qed

lemma list_loop_one_frame:
  assumes "command_size ''RPUSH'' key (current @ vs) \<le> MAX_AOF_BUFFERED_FRAME_BYTES" "current @ vs \<noteq> []"
  shows "list_loop key current (payload current) vs = Inr [command_with_values ''RPUSH'' key (current @ vs)]"
  using assms
proof (induction vs arbitrary: current)
  case Nil
  then show ?case
    using replay_len_command [of "''RPUSH''" key current]
    by (simp add: write_rpush_snapshot_def write_frame_eq command_with_values_def)
next
  case (Cons v vs)
  have fits: "command_size ''RPUSH'' key (current @ [v]) \<le> MAX_AOF_BUFFERED_FRAME_BYTES"
    using command_size_mono [of "''RPUSH''" key "current @ [v]" vs] Cons.prems(1) by simp
  then have "command_size ''RPUSH'' key (current @ [v]) < usize_limit"
    by (simp add: MAX_AOF_BUFFERED_FRAME_BYTES_def limits_values)
  from list_loop_step [OF this] fits Cons.IH [of "current @ [v]"] Cons.prems show ?case by simp
qed

lemma flat_pairs_append [simp]: "flat_pairs (xs @ ys) = flat_pairs xs @ flat_pairs ys"
  by (simp add: flat_pairs_def)

lemma flat_pairs_Cons [simp]: "flat_pairs [] = []" "flat_pairs ((f, v) # ps) = f # v # flat_pairs ps"
  by (simp_all add: flat_pairs_def)

lemma hash_loop_step:
  assumes "command_size ''HSET'' key (flat_pairs (current @ [(f, v)])) < usize_limit"
  shows "hash_loop key current (payload (flat_pairs current)) ((f, v) # ps) =
    (if command_size ''HSET'' key (flat_pairs (current @ [(f, v)])) \<le> MAX_AOF_BUFFERED_FRAME_BYTES
     then hash_loop key (current @ [(f, v)]) (payload (flat_pairs (current @ [(f, v)]))) ps
     else if current = [] then Inl ''AOF rewrite hash pair exceeds replayable frame limit''
     else then_write (write_hset_snapshot key current)
       (if command_size ''HSET'' key [f, v] > MAX_AOF_BUFFERED_FRAME_BYTES
        then Inl ''AOF rewrite hash pair exceeds replayable frame limit''
        else hash_loop key [(f, v)] (payload (flat_pairs [(f, v)])) ps))"
proof -
  have "command_size ''HSET'' key [f, v] \<le> command_size ''HSET'' key (flat_pairs (current @ [(f, v)]))"
    using show_nat_length_mono [of 4 "2 * length current + 4"] by (simp add: command_size_def eval_nat_numeral)
  then have single: "chunked_command_len ''HSET'' key 2 (bulk_size (length f) + bulk_size (length v)) =
      Some (command_size ''HSET'' key [f, v])"
    using assms by (intro chunked_len_command) simp_all
  have bulk: "resp_bulk_len (length f) = Some (bulk_size (length f))" "resp_bulk_len (length v) = Some (bulk_size (length v))"
    using assms by (auto intro!: bulk_len_eq simp: command_size_def)
  have sums: "checked_add_usize (bulk_size (length f)) (bulk_size (length v)) = Some (bulk_size (length f) + bulk_size (length v))"
    "checked_add_usize (payload (flat_pairs current)) (bulk_size (length f) + bulk_size (length v)) =
       Some (payload (flat_pairs (current @ [(f, v)])))"
    using assms by (simp_all add: command_size_def)
  have nxt: "chunked_command_len ''HSET'' key ((length current + 1) * 2) (payload (flat_pairs (current @ [(f, v)]))) =
      Some (command_size ''HSET'' key (flat_pairs (current @ [(f, v)])))"
    using assms by (intro chunked_len_command) simp_all
  show ?thesis
    unfolding hash_loop.simps ok_or_def bulk sums nxt single option.case bind_result_simps by simp
qed

lemma hash_loop_succeeds:
  assumes "\<forall>(f, v) \<in> set ps. command_size ''HSET'' key [f, v] \<le> MAX_AOF_BUFFERED_FRAME_BYTES"
    "current \<noteq> [] \<longrightarrow> command_size ''HSET'' key (flat_pairs current) \<le> MAX_AOF_BUFFERED_FRAME_BYTES"
  shows "\<exists>fs. hash_loop key current (payload (flat_pairs current)) ps = Inr fs"
  using assms
proof (induction ps arbitrary: current)
  case Nil
  then show ?case
    using replay_len_command [of "''HSET''" key "flat_pairs current"]
    by (auto simp: write_hset_snapshot_def write_frame_eq [THEN iffD2] pair_frames_flat)
next
  case (Cons p ps)
  obtain f v where p: "p = (f, v)" by (cases p)
  have fv: "command_size ''HSET'' key [f, v] \<le> MAX_AOF_BUFFERED_FRAME_BYTES" using Cons.prems(1) by (simp add: p)
  have small: "command_size ''HSET'' key (flat_pairs (current @ [(f, v)])) < usize_limit"
    using Cons.prems(2) fv command_size_small [of "flat_pairs current" "''HSET''" key "[f, v]"] by simp
  have full: "\<exists>fs. write_hset_snapshot key current = Inr fs" if "current \<noteq> []"
    using that Cons.prems(2) replay_len_command [of "''HSET''" key "flat_pairs current"]
    by (simp add: write_hset_snapshot_def write_frame_eq pair_frames_flat)
  have IH: "command_size ''HSET'' key (flat_pairs cur) \<le> MAX_AOF_BUFFERED_FRAME_BYTES \<Longrightarrow>
      \<exists>fs. hash_loop key cur (payload (flat_pairs cur)) ps = Inr fs" for cur
    using Cons.IH [of cur] Cons.prems(1) by (simp add: p)
  show ?case
    unfolding p hash_loop_step [OF small]
    using full fv IH [of "[(f, v)]"] IH [of "current @ [(f, v)]"] by (auto simp: then_write_Inr)
qed

lemma append_loop_succeeds:
  assumes "\<And>chunk. length chunk \<le> n \<Longrightarrow> replay_len (append_frame key chunk)"
  shows "\<exists>fs. append_loop key n val offset = Inr fs"
proof (induction "length val - offset" arbitrary: offset rule: less_induct)
  case less
  show ?case
  proof (cases "offset < length val \<and> 0 < n")
    case True
    define stop where "stop = min (offset + n) (length val)"
    define chunk where "chunk = take (stop - offset) (drop offset val)"
    have "append_loop key n val offset =
        then_write (write_replayable_snapshot_frame (append_frame key chunk)) (append_loop key n val stop)"
      using True by (subst append_loop.simps) (simp add: Let_def stop_def chunk_def)
    moreover have "replay_len (append_frame key chunk)" by (rule assms) (auto simp: chunk_def stop_def)
    moreover obtain fs where "append_loop key n val stop = Inr fs"
    proof -
      have "offset < stop" "stop \<le> length val" using True by (simp_all add: stop_def)
      then have "length val - stop < length val - offset" using True by linarith
      from less [OF this] that show thesis by blast
    qed
    ultimately show ?thesis by (auto simp: written_cases write_frame_eq [THEN iffD2])
  next
    case False
    then show ?thesis by (auto simp: append_loop.simps [of key n val offset])
  qed
qed

text \<open>
  An entry whose key, with any one element, leaves room for the command around it; 128 bytes are
  enough for the names and lengths of every command that is written.
\<close>

definition encodable :: "bytes \<Rightarrow> entry \<Rightarrow> bool" where
  "encodable key e \<longleftrightarrow> length key + 128 \<le> MAX_AOF_BUFFERED_FRAME_BYTES \<and>
     (case evalue e of
        VString v \<Rightarrow> True
      | VList l \<Rightarrow> \<forall>v \<in> set l. length key + length v + 128 \<le> MAX_AOF_BUFFERED_FRAME_BYTES
      | VHash hm \<Rightarrow> \<forall>(f, v) \<in> set hm. length key + length f + length v + 128 \<le> MAX_AOF_BUFFERED_FRAME_BYTES)"

lemma bulk_size_bound: "n \<le> MAX_AOF_BUFFERED_FRAME_BYTES \<Longrightarrow> bulk_size n \<le> n + 13"
  using show_nat_pow10 [of n 8] by (simp add: bulk_size_eq MAX_AOF_BUFFERED_FRAME_BYTES_def)

lemma payload_bound:
  "\<forall>b \<in> set bs. length b \<le> MAX_AOF_BUFFERED_FRAME_BYTES \<Longrightarrow> payload bs \<le> length (concat bs) + 13 * length bs"
proof (induction bs)
  case (Cons b bs)
  then show ?case using bulk_size_bound [of "length b"] by simp
qed simp

lemma command_size_bound:
  assumes "length bs \<le> 2" "length name < 10" "length key + length (concat bs) + 66 \<le> MAX_AOF_BUFFERED_FRAME_BYTES"
  shows "command_size name key bs \<le> MAX_AOF_BUFFERED_FRAME_BYTES"
proof -
  have "\<forall>b \<in> set bs. length b \<le> MAX_AOF_BUFFERED_FRAME_BYTES"
    using assms(3) member_le_sum_list [of _ "map length bs"] by (fastforce simp: length_concat)
  then have "payload bs \<le> length (concat bs) + 26" using payload_bound [of bs] assms(1) by simp
  moreover have "bulk_size (length key) \<le> length key + 13" using assms(3) by (intro bulk_size_bound) simp
  moreover have "bulk_size (length name) \<le> 22"
    using bulk_size_bound [of "length name"] assms(2) by (simp add: MAX_AOF_BUFFERED_FRAME_BYTES_def)
  moreover have "length (show_nat (length bs + 2)) \<le> 1" using assms(1) by (intro show_nat_pow10) simp_all
  ultimately show ?thesis using assms(3) by (simp add: command_size_def)
qed

lemma base_len_append:
  assumes "length key + 128 \<le> MAX_AOF_BUFFERED_FRAME_BYTES"
  shows "\<exists>base. command_key_base_len ''APPEND'' key 3 = Some base \<and>
    (\<forall>chunk. command_size ''APPEND'' key [chunk] = base + bulk_size (length chunk))"
proof -
  let ?base = "length (show_nat 3) + 3 + bulk_size (length ''APPEND'') + bulk_size (length key)"
  have "?base < usize_limit"
    using bulk_size_bound [of "length ''APPEND''"] bulk_size_bound [of "length key"] assms show_nat_pow10 [of 3 1]
    by (simp add: limits_values MAX_AOF_BUFFERED_FRAME_BYTES_def)
  then have "command_key_base_len ''APPEND'' key 3 = Some ?base"
    by (simp add: command_key_base_len_def bind_eq_Some_conv resp_array_header_len_Some resp_bulk_len_Some bulk_size_eq)
  then show ?thesis by (simp add: command_size_def eval_nat_numeral)
qed

lemma max_append_chunk_len_ok:
  assumes "length key + 128 \<le> MAX_AOF_BUFFERED_FRAME_BYTES"
  shows "\<exists>n > 0. max_append_chunk_len key = Some n \<and>
    (\<forall>chunk. length chunk \<le> n \<longrightarrow> replay_len (append_frame key chunk))"
proof -
  obtain base where base: "command_key_base_len ''APPEND'' key 3 = Some base"
      "\<And>chunk. command_size ''APPEND'' key [chunk] = base + bulk_size (length chunk)"
    using base_len_append [OF assms] by blast
  have one: "base + bulk_size 1 \<le> MAX_AOF_BUFFERED_FRAME_BYTES"
    using base(2) [of "[CR]"] command_size_bound [of "[[CR]]" "''APPEND''" key] assms by simp
  obtain n where n: "payload_search base 0 MAX_BULK_LEN = Some n"
      "base + bulk_size n \<le> MAX_AOF_BUFFERED_FRAME_BYTES"
      "\<forall>m. n < m \<longrightarrow> m \<le> MAX_BULK_LEN \<longrightarrow> MAX_AOF_BUFFERED_FRAME_BYTES < base + bulk_size m"
    using payload_search_max [of 0 MAX_BULK_LEN base] one bulk_size_mono [of 0 1] by auto
  have "min MAX_BULK_LEN MAX_AOF_BUFFERED_FRAME_BYTES = MAX_BULK_LEN"
    by (simp add: limits_values MAX_AOF_BUFFERED_FRAME_BYTES_def)
  then have "max_append_chunk_len key = Some n"
    using base(1) n(1) one bulk_size_mono [of 0 1]
    by (simp add: max_append_chunk_len_def max_payload_len_for_frame_def resp_bulk_len_small bulk_size_eq
        checked_add_usize_def limits_values MAX_AOF_BUFFERED_FRAME_BYTES_def)
  moreover have "0 < n"
  proof (rule ccontr)
    assume "\<not> 0 < n"
    then show False using n(3) one by (auto simp: limits_values dest!: spec [of _ 1])
  qed
  moreover have "replay_len (append_frame key chunk)" if "length chunk \<le> n" for chunk
    using replay_len_command [of "''APPEND''" key "[chunk]"] base(2) [of chunk] n(2) bulk_size_mono [OF that] by simp
  ultimately show ?thesis by blast
qed

lemma write_frame_ok: "replay_len f \<Longrightarrow> write_replayable_snapshot_frame f = Inr [f]"
  by (simp add: write_frame_eq)

lemma then_write_ok: "\<exists>x. a = Inr x \<Longrightarrow> \<exists>y. b = Inr y \<Longrightarrow> \<exists>fs. then_write a b = Inr fs"
  by (auto simp: then_write_Inr)

lemma expiry_succeeds:
  assumes "length key + 128 \<le> MAX_AOF_BUFFERED_FRAME_BYTES"
  shows "\<exists>fs. write_expiry_snapshot now key exp = Inr fs"
proof (cases exp)
  case (Some d)
  have "length (show_u128 n) \<le> 19" if "n \<le> MAX_EXPIRE_AT_MS" for n
    using that by (auto simp: show_u128_def word_le_nat_alt unat_max_expire intro!: show_nat_pow10)
  then obtain name n where f: "expiry_frame now key d = Array (map Bulk [name, key, show_u128 n])"
      "length name < 10" "length (show_u128 n) \<le> 19"
    using relative_millis_range(2) [of now d]
    by (cases "d \<le> MAX_EXPIRE_AT_MS")
       (auto simp: expiry_frame_eq pexpireat_frame_def pexpire_frame_eq bulk_string_u128_def)
  have "command_size name key [show_u128 n] \<le> MAX_AOF_BUFFERED_FRAME_BYTES"
    using assms f(2,3) by (intro command_size_bound) simp_all
  then have "replay_len (expiry_frame now key d)"
    using replay_len_command [of name key "[show_u128 n]"] by (simp only: f(1))
  then show ?thesis by (auto simp: Some write_expiry_snapshot_def write_frame_ok)
qed (simp add: write_expiry_snapshot_def)

lemma string_succeeds:
  assumes "length key + 128 \<le> MAX_AOF_BUFFERED_FRAME_BYTES"
  shows "\<exists>fs. write_string_snapshot c key val exp = Inr fs"
proof (cases "replay_len (set_frame (c 1) key val exp)")
  case True
  then show ?thesis by (simp add: write_string_snapshot_def frame_is_replayable_eq write_frame_ok)
next
  case False
  obtain n where n: "0 < n" "max_append_chunk_len key = Some n"
      "\<And>chunk. length chunk \<le> n \<Longrightarrow> replay_len (append_frame key chunk)"
    using max_append_chunk_len_ok [OF assms] by blast
  have "command_size ''SET'' key [[]] \<le> MAX_AOF_BUFFERED_FRAME_BYTES"
    using assms by (intro command_size_bound) simp_all
  then have "replay_len (set_frame (c 1) key [] None)"
    using replay_len_command [of "''SET''" key "[[]]"] by (simp add: set_frame_eq)
  moreover have "\<exists>fs. then_write (append_loop key n val 0) (write_expiry_snapshot (c 2) key exp) = Inr fs"
    by (intro then_write_ok append_loop_succeeds expiry_succeeds n(3) assms)
  ultimately show ?thesis
    using False n(1,2)
    by (simp add: write_string_snapshot_def frame_is_replayable_eq ok_or_def write_frame_ok)
       (auto simp: then_write_Inr)
qed

lemma entry_succeeds:
  assumes "encodable key e" "\<forall>hm. set (ord hm) = set hm"
  shows "\<exists>fs. write_snapshot_entry ord c key e = Inr fs"
proof -
  have key: "length key + 128 \<le> MAX_AOF_BUFFERED_FRAME_BYTES" using assms(1) by (simp add: encodable_def)
  have l: "\<exists>fs. write_list_snapshot c key l (expires_at e) = Inr fs" if "evalue e = VList l" for l
  proof -
    have "\<forall>v \<in> set l. command_size ''RPUSH'' key [v] \<le> MAX_AOF_BUFFERED_FRAME_BYTES"
      using that assms(1) by (auto simp: encodable_def intro!: command_size_bound)
    then show ?thesis
      using list_loop_succeeds [of l key "[]"] key
      by (auto simp: write_list_snapshot_def intro!: then_write_ok expiry_succeeds)
  qed
  have h: "\<exists>fs. write_hash_snapshot ord c key hm (expires_at e) = Inr fs" if "evalue e = VHash hm" for hm
  proof -
    have "\<forall>(f, v) \<in> set (sort_key fst (ord hm)). command_size ''HSET'' key [f, v] \<le> MAX_AOF_BUFFERED_FRAME_BYTES"
      using that assms by (auto simp: encodable_def intro!: command_size_bound)
    then show ?thesis
      using hash_loop_succeeds [of "sort_key fst (ord hm)" key "[]"] key
      by (auto simp: write_hash_snapshot_def intro!: then_write_ok expiry_succeeds)
  qed
  show ?thesis
    using l h string_succeeds [OF key, of c _ "expires_at e"]
    by (cases "evalue e") (simp_all add: write_snapshot_entry_def)
qed

lemma rewrite_succeeds:
  assumes "\<forall>(key, e) \<in> set es. encodable key e" "\<forall>hm. set (ord hm) = set hm"
  shows "\<exists>fs. write_snapshot_entries ord c i es = Inr fs"
  using assms(1)
proof (induction es arbitrary: i)
  case (Cons p es)
  then show ?case
    using entry_succeeds [OF _ assms(2), of "fst p" "snd p" "c i"]
    by (cases p) (auto intro!: then_write_ok)
qed simp

end
