(* ===== verification/Rebuild.thy ===== *)
theory Rebuild
  imports Rewrite "HOL-Library.Multiset"
begin

text \<open>
  Replaying a rewritten log rebuilds the key space of the snapshot. The argument runs on the
  specification of the commands: \<open>spec_run\<close> executes a sequence of them on a key space and fails
  where one answers with an error, which is where \<open>replay\<close> would cut the log.
\<close>

section \<open>Sequences of commands on a key space\<close>

fun spec_run :: "hash_order \<Rightarrow> u128 \<Rightarrow> command list \<Rightarrow> keyspace \<Rightarrow> keyspace option" where
  "spec_run ord t [] m = Some m"
| "spec_run ord t (cmd # cmds) m =
     (case spec_apply ord t cmd m of
        (None, _) \<Rightarrow> None
      | (Some r, m') \<Rightarrow> (case r of Error _ \<Rightarrow> None | _ \<Rightarrow> spec_run ord t cmds m'))"

lemma spec_run_append:
  "spec_run ord t (xs @ ys) m = Option.bind (spec_run ord t xs m) (spec_run ord t ys)"
  by (induction xs arbitrary: m) (auto split: prod.splits option.splits frame.splits)

definition loads :: "u128 \<Rightarrow> frame list \<Rightarrow> command list \<Rightarrow> bool" where
  "loads t fs cmds \<longleftrightarrow> list_all2 (\<lambda>f cmd. wire_frame f \<and> from_frame t f = Inr cmd) fs cmds"

lemma loads_simps [simp]:
  "loads t [] cmds \<longleftrightarrow> cmds = []"
  "loads t (f # fs) (cmd # cmds) \<longleftrightarrow> wire_frame f \<and> from_frame t f = Inr cmd \<and> loads t fs cmds"
  by (simp_all add: loads_def)

lemma loads_append: "loads t fs cmds \<Longrightarrow> loads t gs cmds' \<Longrightarrow> loads t (fs @ gs) (cmds @ cmds')"
  by (simp add: loads_def list_all2_appendI)

lemma loads_wire: "loads t fs cmds \<Longrightarrow> \<forall>f \<in> set fs. wire_frame f"
  by (auto simp: loads_def list_all2_conv_all_nth in_set_conv_nth)

lemma run_log_spec:
  assumes "loads t fs cmds" "db_wf (xxh E) db" "spec_run (hash_iter E) t cmds (db_live (xxh E) t db) = Some m"
  shows "\<exists>db'. run_log E (\<lambda>_ _. t) j fs db = Some db' \<and> db_wf (xxh E) db' \<and> db_live (xxh E) t db' = m"
  using assms
proof (induction fs arbitrary: cmds db j)
  case Nil
  then show ?case by simp
next
  case (Cons f fs)
  then obtain cmd cmds' where cmds: "cmds = cmd # cmds'" by (cases cmds) (simp_all add: loads_def)
  obtain r db1 where a: "apply_cmd E (\<lambda>_. t) cmd db = (r, db1)" by force
  have wf: "db_wf (xxh E) db1" using apply_keeps [OF Cons.prems(2), of cmd "\<lambda>_. t"] a by (simp add: keeps_def)
  have "\<forall>e. r \<noteq> Error e" "spec_run (hash_iter E) t cmds' (db_live (xxh E) t db1) = Some m"
    using Cons.prems(3) apply_refines [OF Cons.prems(2), of t cmd] a
    by (auto simp: cmds implements_def split: prod.splits option.splits frame.splits)
  moreover from this obtain db' where "run_log E (\<lambda>_ _. t) (Suc j) fs db1 = Some db'"
      "db_wf (xxh E) db'" "db_live (xxh E) t db' = m"
    using Cons.IH [OF _ wf, of cmds' "Suc j"] Cons.prems(1) by (auto simp: cmds)
  ultimately show ?case
    using Cons.prems(1) a by (auto simp: cmds split: frame.splits)
qed

section \<open>Rebuilding one entry\<close>

lemma spec_run_append_cmds:
  "bulk_response_fits (length v + length (concat chunks)) \<Longrightarrow>
   spec_run ord t (map (Append k) chunks) (m(k \<mapsto> string_entry v None)) =
     Some (m(k \<mapsto> string_entry (v @ concat chunks) None))"
proof (induction chunks arbitrary: v)
  case (Cons c cs)
  have "bulk_response_fits (length v + length c)"
    by (rule bulk_response_fits_mono [OF _ Cons.prems]) simp
  moreover have "bulk_response_fits (length (v @ c) + length (concat cs))" using Cons.prems by (simp add: ac_simps)
  note Cons.IH [OF this]
  ultimately show ?case by (simp add: reply_def at_key_def spec_append_def fun_upd_def cong: if_cong)
qed simp

lemma spec_run_rpush_more:
  "spec_run ord t (map (RPush k) chunks) (m(k \<mapsto> list_entry l None)) =
     Some (m(k \<mapsto> list_entry (l @ concat chunks) None))"
  by (induction chunks arbitrary: l) (simp_all add: reply_def at_key_def spec_push_def)

lemma spec_run_rpush:
  assumes "m k = None" "chunks \<noteq> []"
  shows "spec_run ord t (map (RPush k) chunks) m = Some (m(k \<mapsto> list_entry (concat chunks) None))"
proof -
  obtain c cs where "chunks = c # cs" using assms(2) by (cases chunks) auto
  then show ?thesis
    using assms(1) spec_run_rpush_more [of ord t k cs m c] by (simp add: reply_def at_key_def spec_push_def)
qed

abbreviation hset_all :: "(bytes \<times> bytes) list \<Rightarrow> (bytes, bytes) hash_map \<Rightarrow> (bytes, bytes) hash_map" where
  "hset_all \<equiv> fold (\<lambda>(f, v). hm_insert f v)"

lemma hset_all_fresh:
  "distinct (map fst (hm @ ps)) \<Longrightarrow> hset_all ps hm = hm @ ps"
proof (induction ps arbitrary: hm)
  case (Cons p ps)
  have new: "fst p \<notin> fst ` set hm \<Longrightarrow> hm_insert (fst p) (snd p) hm = hm @ [p]" for hm :: "(bytes, bytes) hash_map"
    by (induction hm) auto
  show ?case using Cons.prems Cons.IH [of "hm @ [p]"] new [of hm] by (auto simp: case_prod_beta)
qed simp

lemma spec_run_hset_more:
  "spec_run ord t (map (HSet k) chunks) (m(k \<mapsto> hash_entry hm None)) =
     Some (m(k \<mapsto> hash_entry (hset_all (concat chunks) hm) None))"
  by (induction chunks arbitrary: hm) (simp_all add: reply_def at_key_def spec_hset_def hset_pairs_eq)

lemma spec_run_hset:
  assumes "m k = None" "chunks \<noteq> []"
  shows "spec_run ord t (map (HSet k) chunks) m = Some (m(k \<mapsto> hash_entry (hset_all (concat chunks) []) None))"
proof -
  obtain c cs where "chunks = c # cs" using assms(2) by (cases chunks) auto
  then show ?thesis
    using assms(1) spec_run_hset_more [of ord t k cs m "hset_all c []"]
    by (simp add: reply_def at_key_def spec_hset_def hset_pairs_eq)
qed

definition expiry_cmds :: "bytes \<Rightarrow> u128 option \<Rightarrow> command list" where
  "expiry_cmds k exp = (case exp of Some d \<Rightarrow> [PExpireAt k d] | None \<Rightarrow> [])"

lemma spec_run_expiry:
  assumes "\<forall>d. exp = Some d \<longrightarrow> t < d"
  shows "spec_run ord t (expiry_cmds k exp) (m(k \<mapsto> \<lparr>evalue = v, expires_at = None\<rparr>)) =
    Some (m(k \<mapsto> \<lparr>evalue = v, expires_at = exp\<rparr>))"
  using assms by (cases exp) (auto simp: expiry_cmds_def reply_def at_key_def spec_expire_at_def)

section \<open>Reading the written frames back\<close>

lemma wire_bulks:
  assumes "replay_len (Array (map Bulk bs))" "length bs \<le> MAX_ARRAY_LEN"
  shows "wire_frame (Array (map Bulk bs))"
proof -
  have len: "length (encode (Array (map Bulk bs))) \<le> MAX_BUFFERED_FRAME_BYTES"
    using assms(1) by (simp add: replay_len_def MAX_AOF_BUFFERED_FRAME_BYTES_def limits_values)
  have "bulk_response_fits (length b)" if "b \<in> set bs" for b
  proof -
    have "length (encode (Bulk b)) \<le> length (concat (map (\<lambda>b. encode (Bulk b)) bs))"
      using that by (induction bs) auto
    then show ?thesis using len by (simp add: bulk_response_fits_iff limits_values comp_def)
  qed
  then show ?thesis using len assms(2) by (auto simp: wire_frame_def parser_limits)
qed

lemma loads_logged:
  assumes "aof_frame t0 cmd = Some f" "f = Array (map Bulk bs)" "length bs \<le> MAX_ARRAY_LEN" "replay_len f"
    "command_wf cmd" "unat t + unat MAX_EXPIRE_AT_MS < 2 ^ 128" "read_back t0 t cmd = cmd"
  shows "loads t [f] [cmd]"
  using wire_bulks [of bs] read_back_ok [OF assms(5,1,6)] assms(2-4,7) by simp

text \<open>
  What the rewrite needs of an entry: no empty container, within the limits of a string and of an
  array (a list or hash of at most \<open>2 ^ 20\<close> items, the command and the key included), and a deadline that
  is still ahead at the time \<open>t\<close> of the recovery and that the log can carry.
\<close>

definition rewritable :: "u128 \<Rightarrow> entry \<Rightarrow> bool" where
  "rewritable t e \<longleftrightarrow>
     (case expires_at e of None \<Rightarrow> True | Some d \<Rightarrow> t < d \<and> aof_deadline d) \<and>
     (case evalue e of
        VString v \<Rightarrow> bulk_response_fits (length v)
      | VList l \<Rightarrow> l \<noteq> [] \<and> length l + 2 \<le> MAX_ARRAY_LEN
      | VHash hm \<Rightarrow> hm \<noteq> [] \<and> hm_ok hm \<and> 2 * length hm + 2 \<le> MAX_ARRAY_LEN)"

lemma piece_length: "concat chunks = xs \<Longrightarrow> chunk \<in> set chunks \<Longrightarrow> length chunk \<le> length xs"
  by (induction chunks arbitrary: xs) auto

lemma loads_pieces:
  assumes "pieces mk xs fs"
    "\<And>chunk. chunk \<noteq> [] \<Longrightarrow> length chunk \<le> length xs \<Longrightarrow> replay_len (mk chunk) \<Longrightarrow> loads t [mk chunk] [cmd chunk]"
  shows "\<exists>chunks. loads t fs (map cmd chunks) \<and> concat chunks = xs"
proof -
  obtain chunks where c: "fs = map mk chunks" "concat chunks = xs" "[] \<notin> set chunks"
      "\<forall>chunk \<in> set chunks. replay_len (mk chunk)"
    using assms(1) by (auto simp: pieces_def)
  then have "\<forall>chunk \<in> set chunks. loads t [mk chunk] [cmd chunk]"
    using assms(2) piece_length by metis
  then have "loads t (map mk chunks) (map cmd chunks)" by (induction chunks) auto
  with c(1,2) show ?thesis by blast
qed

lemma expiry_loads:
  assumes "write_expiry_snapshot t0 k exp = Inr fs" "\<forall>d. exp = Some d \<longrightarrow> aof_deadline d"
    "unat t + unat MAX_EXPIRE_AT_MS < 2 ^ 128"
  shows "loads t fs (expiry_cmds k exp)"
proof (cases exp)
  case None
  with assms(1) show ?thesis by (simp add: write_expiry_snapshot_def expiry_cmds_def)
next
  case (Some d)
  then have d: "aof_deadline d" using assms(2) by blast
  then have "d \<le> MAX_EXPIRE_AT_MS" by (simp add: aof_deadline_def)
  with Some assms(1) have fs: "fs = [pexpireat_frame k d]" "replay_len (pexpireat_frame k d)"
    by (auto simp: write_expiry_snapshot_def expiry_frame_eq written_cases)
  have "loads t [pexpireat_frame k d] [PExpireAt k d]"
    by (rule loads_logged [of 0 _ _ "[''PEXPIREAT'', k, show_u128 d]"])
       (use fs(2) d assms(3) in \<open>simp_all add: pexpireat_frame_def bulk_string_u128_def parser_limits\<close>)
  then show ?thesis by (simp add: fs(1) Some expiry_cmds_def)
qed

lemma set_loads:
  assumes "replay_len (set_frame t0 k v exp)" "\<forall>d. exp = Some d \<longrightarrow> t < d \<and> aof_deadline d"
    "unat t + unat MAX_EXPIRE_AT_MS < 2 ^ 128"
  shows "loads t [set_frame t0 k v exp] [Set k v exp]"
proof -
  have d: "d \<le> MAX_EXPIRE_AT_MS" "0 < d" if "exp = Some d" for d
    using assms(2) that by (auto simp: aof_deadline_def intro: le_less_trans [OF word_zero_le])
  let ?bs = "[''SET'', k, v] @ (case exp of Some d \<Rightarrow> [''PXAT'', show_u128 d] | None \<Rightarrow> [])"
  show ?thesis
    by (rule loads_logged [of t0 _ _ ?bs])
       (use assms d in \<open>auto simp: set_frame_eq push_set_expiry_def bulk_string_u128_def parser_limits
          split: option.splits\<close>)
qed

lemma string_rebuilt:
  assumes "write_string_snapshot c k v exp = Inr fs" "bulk_response_fits (length v)" "m k = None"
    "\<forall>d. exp = Some d \<longrightarrow> t < d \<and> aof_deadline d" "unat t + unat MAX_EXPIRE_AT_MS < 2 ^ 128"
  shows "\<exists>cmds. loads t fs cmds \<and> spec_run ord t cmds m = Some (m(k \<mapsto> string_entry v exp))"
proof (cases "frame_is_replayable (set_frame (c 1) k v exp)")
  case True
  then have "fs = [set_frame (c 1) k v exp]" "replay_len (set_frame (c 1) k v exp)"
    using assms(1) by (simp_all add: write_string_snapshot_def frame_is_replayable_eq written_cases)
  moreover have "live t (Some (string_entry v exp)) = Some (string_entry v exp)"
    using assms(4) by (cases exp) (auto simp: live_def entry_expired_def)
  then have "spec_run ord t [Set k v exp] m = Some (m(k \<mapsto> string_entry v exp))"
    using assms(2) by (simp add: reply_def at_key_def spec_set_def OK_def)
  ultimately show ?thesis using set_loads [of "c 1" k v exp t] assms(4,5) by blast
next
  case False
  then obtain n fs1 fs2 where w: "replay_len (set_frame (c 1) k [] None)" "max_append_chunk_len k = Some n"
      "n \<noteq> 0 \<or> v = []" "append_loop k n v 0 = Inr fs1" "write_expiry_snapshot (c 2) k exp = Inr fs2"
      "fs = set_frame (c 1) k [] None # fs1 @ fs2"
    using assms(1) by (auto simp: write_string_snapshot_def Let_def written_cases split: if_splits)
  have "pieces (append_frame k) v fs1" using append_loop_pieces [of n v 0 k fs1] w(3,4) by auto
  moreover have "loads t [append_frame k chunk] [Append k chunk]" if "replay_len (append_frame k chunk)" for chunk
    by (rule loads_logged [of 0 _ _ "[''APPEND'', k, chunk]"])
       (use that assms(5) in \<open>simp_all add: parser_limits\<close>)
  ultimately obtain chunks where chunks: "loads t fs1 (map (Append k) chunks)" "concat chunks = v"
    using loads_pieces [of "append_frame k" v fs1 t "Append k"] by blast
  have "loads t [set_frame (c 1) k [] None] [Set k [] None]"
    using set_loads [OF w(1)] assms(5) by simp
  moreover have "loads t fs2 (expiry_cmds k exp)" using expiry_loads [OF w(5)] assms(4,5) by blast
  ultimately have "loads t fs (Set k [] None # map (Append k) chunks @ expiry_cmds k exp)"
    using chunks(1) by (simp add: w(6) loads_append)
  moreover have "spec_run ord t (map (Append k) chunks) (m(k \<mapsto> string_entry [] None)) =
      Some (m(k \<mapsto> string_entry v None))"
    using spec_run_append_cmds [of "[]" chunks ord t k m] assms(2) chunks(2) by simp
  then have "spec_run ord t (Set k [] None # map (Append k) chunks @ expiry_cmds k exp) m =
      Some (m(k \<mapsto> string_entry v exp))"
    using spec_run_expiry [of exp t ord k m "VString v"] assms(4) bulk_response_fits_mono [OF _ assms(2), of 0]
    by (simp add: spec_run_append reply_def at_key_def spec_set_def live_def entry_expired_def OK_def)
  ultimately show ?thesis by blast
qed

lemma list_rebuilt:
  assumes "write_list_snapshot c k l exp = Inr fs" "l \<noteq> []" "length l + 2 \<le> MAX_ARRAY_LEN" "m k = None"
    "\<forall>d. exp = Some d \<longrightarrow> t < d \<and> aof_deadline d" "unat t + unat MAX_EXPIRE_AT_MS < 2 ^ 128"
  shows "\<exists>cmds. loads t fs cmds \<and> spec_run ord t cmds m = Some (m(k \<mapsto> list_entry l exp))"
proof -
  obtain fs1 fs2 where w: "list_loop k [] 0 l = Inr fs1" "write_expiry_snapshot (c 1) k exp = Inr fs2" "fs = fs1 @ fs2"
    using assms(1) by (auto simp: write_list_snapshot_def written_cases)
  have "pieces (command_with_values ''RPUSH'' k) l fs1" using list_loop_pieces [OF w(1)] by simp
  moreover have "loads t [command_with_values ''RPUSH'' k chunk] [RPush k chunk]"
    if "chunk \<noteq> []" "length chunk \<le> length l" "replay_len (command_with_values ''RPUSH'' k chunk)" for chunk
    by (rule loads_logged [of 0 _ _ "''RPUSH'' # k # chunk"])
       (use that assms(3,6) in \<open>simp_all add: command_with_values_def\<close>)
  ultimately obtain chunks where chunks: "loads t fs1 (map (RPush k) chunks)" "concat chunks = l"
    using loads_pieces [of "command_with_values ''RPUSH'' k" l fs1 t "RPush k"] by blast
  have "loads t fs2 (expiry_cmds k exp)" using expiry_loads [OF w(2)] assms(5,6) by blast
  then have "loads t fs (map (RPush k) chunks @ expiry_cmds k exp)" using chunks(1) by (simp add: w(3) loads_append)
  moreover have "chunks \<noteq> []" using assms(2) chunks(2) by auto
  then have "spec_run ord t (map (RPush k) chunks @ expiry_cmds k exp) m = Some (m(k \<mapsto> list_entry l exp))"
    using spec_run_rpush [of m k chunks ord t] spec_run_expiry [of exp t ord k m "VList l"] assms(4,5) chunks(2)
    by (simp add: spec_run_append)
  ultimately show ?thesis by blast
qed

lemma hash_rebuilt:
  assumes "write_hash_snapshot ord c k hm exp = Inr fs" "hm \<noteq> []" "hm_ok hm" "mset (ord hm) = mset hm"
    "2 * length hm + 2 \<le> MAX_ARRAY_LEN" "m k = None"
    "\<forall>d. exp = Some d \<longrightarrow> t < d \<and> aof_deadline d" "unat t + unat MAX_EXPIRE_AT_MS < 2 ^ 128"
  shows "\<exists>cmds. loads t fs cmds \<and> spec_run ord' t cmds m = Some (m(k \<mapsto> hash_entry (sort_key fst hm) exp))"
proof -
  let ?ps = "sort_key fst hm"
  have "distinct (map fst (ord hm))"
    using assms(3,4) mset_eq_imp_distinct_iff [of "map fst (ord hm)" "map fst hm"] by (simp add: mset_map)
  then have same: "sort_key fst (ord hm) = ?ps"
    using assms(3,4) mset_eq_setD by (intro sort_key_unique) auto
  have d: "distinct (map fst ?ps)" "length ?ps = length hm" using assms(3) by (simp_all add: distinct_map)
  obtain fs1 fs2 where w: "hash_loop k [] 0 ?ps = Inr fs1" "write_expiry_snapshot (c 1) k exp = Inr fs2" "fs = fs1 @ fs2"
    using assms(1) by (auto simp: write_hash_snapshot_def written_cases same)
  have "pieces (hset_frame k) ?ps fs1" using hash_loop_pieces [OF w(1)] by simp
  moreover have "loads t [hset_frame k chunk] [HSet k chunk]"
    if "chunk \<noteq> []" "length chunk \<le> length ?ps" "replay_len (hset_frame k chunk)" for chunk
    by (rule loads_logged [of 0 _ _ "''HSET'' # k # flat_pairs chunk"])
       (use that assms(5,8) d(2) in \<open>simp_all add: pair_frames_flat\<close>)
  ultimately obtain chunks where chunks: "loads t fs1 (map (HSet k) chunks)" "concat chunks = ?ps"
    using loads_pieces [of "hset_frame k" ?ps fs1 t "HSet k"] by blast
  have "loads t fs2 (expiry_cmds k exp)" using expiry_loads [OF w(2)] assms(7,8) by blast
  then have "loads t fs (map (HSet k) chunks @ expiry_cmds k exp)" using chunks(1) by (simp add: w(3) loads_append)
  moreover have ne: "chunks \<noteq> []" using assms(2) chunks(2) d(2) by (metis concat.simps(1) length_0_conv)
  have "hset_all ?ps [] = ?ps" using hset_all_fresh [of "[]" ?ps] d(1) by simp
  then have "spec_run ord' t (map (HSet k) chunks @ expiry_cmds k exp) m = Some (m(k \<mapsto> hash_entry ?ps exp))"
    using spec_run_hset [of m k chunks ord' t] spec_run_expiry [of exp t ord' k m "VHash ?ps"] assms(6,7) chunks(2) ne
    by (simp add: spec_run_append)
  ultimately show ?thesis by blast
qed

section \<open>Rebuilding a snapshot\<close>

text \<open>An entry after the rewrite: a hash has its fields in the order they were written.\<close>

definition canonical :: "entry \<Rightarrow> entry" where
  "canonical e = (case evalue e of VHash hm \<Rightarrow> e\<lparr>evalue := VHash (sort_key fst hm)\<rparr> | _ \<Rightarrow> e)"

lemma entry_rebuilt:
  assumes "write_snapshot_entry ord c k e = Inr fs" "\<not> entry_expired (c 0) e" "rewritable t e" "m k = None"
    "\<forall>hm. mset (ord hm) = mset hm" "unat t + unat MAX_EXPIRE_AT_MS < 2 ^ 128"
  shows "\<exists>cmds. loads t fs cmds \<and> spec_run ord' t cmds m = Some (m(k \<mapsto> canonical e))"
proof -
  have d: "\<forall>d. expires_at e = Some d \<longrightarrow> t < d \<and> aof_deadline d"
    using assms(3) by (auto simp: rewritable_def split: option.splits)
  show ?thesis
  proof (cases "evalue e")
    case (VString v)
    then have "write_string_snapshot c k v (expires_at e) = Inr fs" "e = string_entry v (expires_at e)"
        "canonical e = e" "bulk_response_fits (length v)"
      using assms(1-3) by (simp_all add: write_snapshot_entry_def canonical_def rewritable_def)
    then show ?thesis using string_rebuilt [of c k v "expires_at e" fs m t ord'] assms(4,6) d by metis
  next
    case (VList l)
    then have "write_list_snapshot c k l (expires_at e) = Inr fs" "e = list_entry l (expires_at e)"
        "canonical e = e" "l \<noteq> []" "length l + 2 \<le> MAX_ARRAY_LEN"
      using assms(1-3) by (simp_all add: write_snapshot_entry_def canonical_def rewritable_def)
    then show ?thesis using list_rebuilt [of c k l "expires_at e" fs m t ord'] assms(4,6) d by metis
  next
    case (VHash hm)
    then have "write_hash_snapshot ord c k hm (expires_at e) = Inr fs"
        "canonical e = hash_entry (sort_key fst hm) (expires_at e)" "hm \<noteq> []" "hm_ok hm"
        "2 * length hm + 2 \<le> MAX_ARRAY_LEN"
      using assms(1-3) by (simp_all add: write_snapshot_entry_def canonical_def rewritable_def)
    then show ?thesis
      using hash_rebuilt [of ord c k hm "expires_at e" fs m t ord'] assms(4-6) d by metis
  qed
qed

lemma snapshot_rebuilt:
  assumes "write_snapshot_entries ord c i es = Inr fs" "distinct (map fst es)" "\<forall>k \<in> fst ` set es. m k = None"
    "\<forall>(k, e) \<in> set es. rewritable t e" "\<forall>j e. e \<in> snd ` set es \<longrightarrow> \<not> entry_expired (c j 0) e"
    "\<forall>hm. mset (ord hm) = mset hm" "unat t + unat MAX_EXPIRE_AT_MS < 2 ^ 128"
  shows "\<exists>cmds. loads t fs cmds \<and> spec_run ord' t cmds m = Some (m ++ (map_option canonical \<circ> map_of es))"
  using assms(1-5)
proof (induction es arbitrary: i m fs)
  case Nil
  then show ?case by (intro exI [of _ "[]"]) (simp add: map_add_def comp_def)
next
  case (Cons p es)
  obtain k e where p: "p = (k, e)" by (cases p)
  obtain fs1 fs2 where w: "write_snapshot_entry ord (c i) k e = Inr fs1"
      "write_snapshot_entries ord c (Suc i) es = Inr fs2" "fs = fs1 @ fs2"
    using Cons.prems(1) by (auto simp: p written_cases)
  obtain cmds1 where c1: "loads t fs1 cmds1" "spec_run ord' t cmds1 m = Some (m(k \<mapsto> canonical e))"
    using entry_rebuilt [OF w(1), of t m ord'] Cons.prems(3-5) assms(6,7) by (auto simp: p)
  have k: "k \<notin> fst ` set es" using Cons.prems(2) by (simp add: p)
  then have none: "\<forall>k' \<in> fst ` set es. (m(k \<mapsto> canonical e)) k' = None" using Cons.prems(3) by (auto simp: p)
  have rest: "distinct (map fst es)" "\<forall>(k, e) \<in> set es. rewritable t e"
      "\<forall>j e. e \<in> snd ` set es \<longrightarrow> \<not> entry_expired (c j 0) e"
    using Cons.prems(2,4,5) by (simp_all add: p)
  obtain cmds2 where c2: "loads t fs2 cmds2" "spec_run ord' t cmds2 (m(k \<mapsto> canonical e)) =
      Some ((m(k \<mapsto> canonical e)) ++ (map_option canonical \<circ> map_of es))"
    using Cons.IH [OF w(2) rest(1) none rest(2,3)] by blast
  have "map_of es k = None" using k by (simp add: map_of_eq_None_iff)
  then have "(m(k \<mapsto> canonical e)) ++ (map_option canonical \<circ> map_of es) =
      m ++ (map_option canonical \<circ> map_of (p # es))"
    by (auto simp: p map_add_def fun_eq_iff split: option.splits)
  then have "spec_run ord' t (cmds1 @ cmds2) m = Some (m ++ (map_option canonical \<circ> map_of (p # es)))"
    using c1(2) c2(2) by (simp only: spec_run_append bind.bind_lunit)
  then show ?case using c1(1) c2(1) w(3) loads_append by blast
qed

lemma rewrite_rebuilds:
  assumes wf: "db_wf h db" and live: "\<forall>k e. db_live h now db k = Some e \<longrightarrow> rewritable t e \<and> encodable k e"
    and clock: "\<forall>j. c j 0 \<le> t" "unat t + unat MAX_EXPIRE_AT_MS < 2 ^ 128"
    and ord: "\<forall>hm. mset (ord hm) = mset hm"
  shows "\<exists>fs. write_snapshot_entries ord c 0 (aof_snapshot_entries now db) = Inr fs \<and>
    (\<forall>f \<in> set fs. wire_frame f) \<and>
    (\<exists>db2. run_log E (\<lambda>_ _. t) 0 fs new_db = Some db2 \<and> db_wf (xxh E) db2 \<and>
       db_live (xxh E) t db2 = map_option canonical \<circ> db_live h now db)"
proof -
  let ?es = "aof_snapshot_entries now db"
  have entries: "\<forall>(k, e) \<in> set ?es. rewritable t e \<and> encodable k e"
    using live map_of_aof_snapshot [OF wf, of now] distinct_snapshot [OF wf, of now]
    by (metis (mono_tags, lifting) case_prodI2 map_of_eq_Some_iff)
  have "\<forall>hm. set (ord hm) = set hm" using ord mset_eq_setD by blast
  then obtain fs where fs: "write_snapshot_entries ord c 0 ?es = Inr fs"
    using rewrite_succeeds [of ?es ord c 0] entries by blast
  have "\<not> entry_expired (c j 0) e" if "e \<in> snd ` set ?es" for j e
    using that entries clock(1) [rule_format, of j]
    by (fastforce simp: rewritable_def entry_expired_def split: option.splits)
  then obtain cmds where cmds: "loads t fs cmds"
      "spec_run (hash_iter E) t cmds Map.empty = Some (Map.empty ++ (map_option canonical \<circ> map_of ?es))"
    using snapshot_rebuilt [OF fs distinct_snapshot [OF wf], of Map.empty t "hash_iter E"] entries ord clock(2)
    by fastforce
  moreover have "Map.empty ++ (map_option canonical \<circ> map_of ?es) = map_option canonical \<circ> db_live h now db"
    using map_of_aof_snapshot [OF wf, of now] by (simp add: map_add_def fun_eq_iff split: option.splits)
  ultimately obtain db2 where "run_log E (\<lambda>_ _. t) 0 fs new_db = Some db2" "db_wf (xxh E) db2"
      "db_live (xxh E) t db2 = map_option canonical \<circ> db_live h now db"
    using run_log_spec [OF cmds(1) db_wf_new, of E] by (auto simp: db_live_new)
  with fs loads_wire [OF cmds(1)] show ?thesis by blast
qed

section \<open>A rewritten list can be too long for the parser\<close>

lemma parse_big_array:
  assumes "MAX_ARRAY_LEN < length items" "length items < 2 ^ 63"
  shows "\<exists>msg. parse (encode (Array items)) = Inl (Protocol msg)"
proof -
  obtain x where enc: "encode (Array items) = CHR ''*'' # show_nat (length items) @ CR # LF # x" by simp
  have n: "sint (word_of_nat (length items) :: i64) = int (length items)"
    using assms(2) by (simp add: sint_word_of_nat)
  then have "(word_of_nat (length items) :: i64) \<noteq> -1" by auto
  moreover have "read_line_int (show_nat (length items) @ CR # LF # x) = Inr (word_of_nat (length items), x)"
    using assms(2) by (simp add: read_line_int_nat)
  ultimately have "\<exists>msg. parse_frame 0 (encode (Array items)) = Inl (Protocol msg)"
    using assms(1) n by (simp add: enc parse_frame_Cons del: encode.simps)
  then show ?thesis
    by (auto simp: enc parse.simps [of "CHR ''*'' # _"] is_resp_type_def Let_def simp del: encode.simps)
qed

lemma payload_replicate: "payload (replicate n []) = 6 * n"
  by (induction n) (simp_all add: bulk_size_eq show_nat.simps)

lemma single_snapshot:
  assumes "db_wf h db" "db_live h now db = [k \<mapsto> e]"
  shows "aof_snapshot_entries now db = [(k, e)]"
proof -
  let ?es = "aof_snapshot_entries now db"
  have "map_of ?es = map_of [(k, e)]" using map_of_aof_snapshot [OF assms(1), of now] assms(2) by simp
  then have "set ?es = {(k, e)}"
    using map_of_inject_set [of ?es "[(k, e)]"] distinct_snapshot [OF assms(1)] by simp
  moreover have "distinct ?es" using distinct_snapshot [OF assms(1)] by (simp add: distinct_map)
  then have "card (set ?es) = length ?es" by (rule distinct_card)
  ultimately have "length ?es = 1" "set ?es = {(k, e)}" by simp_all
  then show ?thesis by (cases ?es) auto
qed

end
