(* ===== verification/Content.thy ===== *)
theory Content
  imports Rebuild
begin

text \<open>
  What is stored: every string fits a reply, no list or hash is empty and no field of a hash occurs
  twice, whatever commands are executed. And when two key spaces have the same content: the order
  of the fields of a hash is the only difference a command cannot see in its effect.
\<close>

section \<open>Stored values are well-formed\<close>

definition value_ok :: "rvalue \<Rightarrow> bool" where
  "value_ok v = (case v of
      VString b \<Rightarrow> bulk_response_fits (length b)
    | VList l \<Rightarrow> l \<noteq> []
    | VHash hm \<Rightarrow> hm \<noteq> [] \<and> hm_ok hm)"

definition stored_ok :: "entry option \<Rightarrow> bool" where
  "stored_ok eo = (case eo of None \<Rightarrow> True | Some e \<Rightarrow> value_ok (evalue e))"

definition keyspace_ok :: "keyspace \<Rightarrow> bool" where
  "keyspace_ok m \<longleftrightarrow> (\<forall>k. stored_ok (m k))"

lemma stored_ok_simps [simp]:
  "stored_ok None" "stored_ok (Some e) = value_ok (evalue e)"
  "value_ok (VString b) = bulk_response_fits (length b)" "value_ok (VList l) = (l \<noteq> [])"
  "value_ok (VHash hm) = (hm \<noteq> [] \<and> hm_ok hm)"
  by (simp_all add: stored_ok_def value_ok_def)

lemma show_i64_fits: "bulk_response_fits (length (show_i64 n))"
  using length_show_i64 [of n] show_nat_pow10 [of "length (show_i64 n)" 20]
  by (simp add: bulk_response_fits_iff limits_values)

lemma fits_zero: "bulk_response_fits 0"
  by (rule bulk_response_fits_mono [OF _ show_i64_fits]) simp

lemma hset_fields_ok: "hm_ok hm \<Longrightarrow> hm_ok (fst (hset_pairs pairs hm))"
  by (simp add: hset_pairs_eq hm.invar_inserts)

lemma hm_insert_nonempty: "hm_insert f v hm \<noteq> []"
  by (cases hm) auto

lemma hset_all_nonempty: "hm \<noteq> [] \<Longrightarrow> hset_all ps hm \<noteq> []"
proof (induction ps arbitrary: hm)
  case (Cons p ps)
  then show ?case using Cons.IH [OF hm_insert_nonempty] by (simp add: case_prod_beta)
qed simp

lemma hset_fields_nonempty:
  assumes "pairs \<noteq> []" shows "fst (hset_pairs pairs hm) \<noteq> []"
proof -
  obtain p ps where "pairs = p # ps" using assms by (cases pairs) auto
  then show ?thesis using hset_all_nonempty [OF hm_insert_nonempty] by (simp add: hset_pairs_eq case_prod_beta)
qed

lemma stored_keys:
  "stored_ok eo \<Longrightarrow> stored_ok (snd (spec_incr n eo))"
  "stored_ok eo \<Longrightarrow> stored_ok (snd (spec_append v eo))"
  "stored_ok eo \<Longrightarrow> stored_ok (snd (spec_expire_at t d eo))"
  "stored_ok eo \<Longrightarrow> stored_ok (snd (spec_persist eo))"
  "stored_ok eo \<Longrightarrow> vs \<noteq> [] \<Longrightarrow> stored_ok (snd (spec_push vs sd eo))"
  "stored_ok eo \<Longrightarrow> stored_ok (snd (spec_hincrby f i eo))"
  by (auto simp: spec_incr_def spec_append_def spec_expire_at_def spec_persist_def spec_push_def
      spec_hincrby_def Let_def show_i64_fits distinct_update hm_insert_nonempty fits_zero
      split: option.splits rvalue.splits if_splits side.splits)

lemma stored_pop: "stored_ok eo \<Longrightarrow> stored_ok (snd (spec_pop cnt sd eo))"
  by (auto simp: spec_pop_def Let_def unpopped_def split: option.splits rvalue.splits if_splits side.splits)

lemma stored_hset: "stored_ok eo \<Longrightarrow> pairs \<noteq> [] \<Longrightarrow> stored_ok (snd (spec_hset pairs eo))"
  by (auto simp: spec_hset_def Let_def hset_fields_ok hset_fields_nonempty split: option.splits rvalue.splits)

lemma stored_hdel: "stored_ok eo \<Longrightarrow> stored_ok (snd (spec_hdel fs eo))"
  by (auto simp: spec_hdel_def Let_def hdel_fields_eq hm.invar_removes split: option.splits rvalue.splits if_splits)

lemma stored_set: "bulk_response_fits (length v) \<Longrightarrow> stored_ok (snd (spec_set t v exp eo))"
  by (simp add: spec_set_def live_def stored_ok_def)

lemma keyspace_at_key:
  "keyspace_ok m \<Longrightarrow> (\<And>eo. stored_ok eo \<Longrightarrow> stored_ok (snd (g eo))) \<Longrightarrow> keyspace_ok (snd (reply (at_key k g m)))"
  by (auto simp: keyspace_ok_def reply_def at_key_def split: prod.splits) (metis snd_conv)

lemma keyspace_restrict: "keyspace_ok m \<Longrightarrow> keyspace_ok (m |` A)"
  by (simp add: keyspace_ok_def restrict_map_def)

lemma keyspace_mset:
  "keyspace_ok m \<Longrightarrow> \<forall>(k, v) \<in> set pairs. bulk_response_fits (length v) \<Longrightarrow>
   keyspace_ok (m ++ map_of (rev (map (\<lambda>(k, v). (k, string_entry v None)) pairs)))"
  by (fastforce simp: keyspace_ok_def map_add_def split: option.splits dest!: map_of_SomeD)

lemma spec_apply_keyspace_ok:
  "keyspace_ok m \<Longrightarrow> command_wf cmd \<Longrightarrow> keyspace_ok (snd (spec_apply ord t cmd m))"
proof (induction ord t cmd m rule: spec_apply.induct)
qed (auto intro!: keyspace_at_key keyspace_restrict keyspace_mset stored_keys stored_pop stored_hset
       stored_hdel stored_set)

section \<open>The same content\<close>

definition value_eq :: "rvalue \<Rightarrow> rvalue \<Rightarrow> bool" where
  "value_eq v w = (case v of
      VHash hm \<Rightarrow> (case w of VHash hm' \<Rightarrow> hm_ok hm \<and> hm_ok hm' \<and> hm_get hm = hm_get hm' | _ \<Rightarrow> False)
    | _ \<Rightarrow> v = w)"

definition entry_eq :: "entry \<Rightarrow> entry \<Rightarrow> bool" where
  "entry_eq e e' \<longleftrightarrow> expires_at e = expires_at e' \<and> value_eq (evalue e) (evalue e')"

definition content_eq :: "keyspace \<Rightarrow> keyspace \<Rightarrow> bool" where
  "content_eq m m' \<longleftrightarrow> (\<forall>k. rel_option entry_eq (m k) (m' k))"

lemma value_eq_simps [simp]:
  "value_eq (VString b) w \<longleftrightarrow> w = VString b"
  "value_eq (VList l) w \<longleftrightarrow> w = VList l"
  "value_eq (VHash hm) w \<longleftrightarrow> (\<exists>hm'. w = VHash hm' \<and> hm_ok hm \<and> hm_ok hm' \<and> hm_get hm = hm_get hm')"
  by (auto simp: value_eq_def split: rvalue.splits)

lemma entry_eq_cases:
  assumes "entry_eq e e'"
  obtains (string) b where "evalue e = VString b" "e' = e"
    | (list) l where "evalue e = VList l" "e' = e"
    | (hash) hm hm' where "evalue e = VHash hm" "e' = e\<lparr>evalue := VHash hm'\<rparr>" "hm_ok hm" "hm_ok hm'"
        "hm_get hm = hm_get hm'"
  using assms by (cases e; cases e'; cases "evalue e") (auto simp: entry_eq_def)

lemma entry_eq_refl: "value_ok (evalue e) \<Longrightarrow> entry_eq e e"
  by (cases "evalue e") (simp_all add: entry_eq_def)

lemma entry_eq_trans: "entry_eq e e' \<Longrightarrow> entry_eq e' e'' \<Longrightarrow> entry_eq e e''"
  by (cases "evalue e") (auto simp: entry_eq_def)

lemma content_eq_refl: "keyspace_ok m \<Longrightarrow> content_eq m m"
  by (auto simp: content_eq_def keyspace_ok_def stored_ok_def option.rel_sel entry_eq_refl split: option.splits)

lemma content_eq_trans: "content_eq m m' \<Longrightarrow> content_eq m' m'' \<Longrightarrow> content_eq m m''"
proof (unfold content_eq_def, rule allI)
  fix k
  assume "\<forall>k. rel_option entry_eq (m k) (m' k)" "\<forall>k. rel_option entry_eq (m' k) (m'' k)"
  then have "rel_option entry_eq (m k) (m' k)" "rel_option entry_eq (m' k) (m'' k)" by blast+
  then show "rel_option entry_eq (m k) (m'' k)"
    by (cases "m k"; cases "m' k"; cases "m'' k") (auto intro: entry_eq_trans)
qed

lemma entry_eq_sym: "entry_eq e e' \<Longrightarrow> entry_eq e' e"
  by (cases "evalue e") (auto simp: entry_eq_def)

lemma content_eq_sym: "content_eq m m' \<Longrightarrow> content_eq m' m"
  unfolding content_eq_def using entry_eq_sym by (metis option.rel_cases option.rel_intros)

lemma entry_eq_value_ok: "entry_eq e e' \<Longrightarrow> value_ok (evalue e') \<Longrightarrow> value_ok (evalue e)"
  by (elim entry_eq_cases) auto

lemma content_eq_keyspace_ok: "content_eq m m' \<Longrightarrow> keyspace_ok m' \<Longrightarrow> keyspace_ok m"
  unfolding content_eq_def keyspace_ok_def stored_ok_def
  by (metis (no_types, lifting) entry_eq_value_ok option.case_eq_if option.rel_sel)

lemma content_eq_lasting: "content_eq m m' \<Longrightarrow> lasting later m' \<Longrightarrow> lasting later m"
  unfolding content_eq_def lasting_def lasting_entry_def
  by (metis (no_types, lifting) entry_eq_def option.case_eq_if option.rel_sel)

lemma content_eq_canonical:
  assumes "keyspace_ok m" shows "content_eq (map_option canonical \<circ> m) m"
proof -
  have "entry_eq (canonical e) e" if "value_ok (evalue e)" for e
  proof (cases "evalue e")
    case (VHash hm)
    with that have ok: "hm_ok hm" by simp
    have "distinct (map fst (sort_key fst hm))" using ok by (simp add: distinct_map)
    moreover have "map_of (sort_key fst hm) = map_of hm"
      using ok calculation by (intro map_of_eqI) (auto simp: map_of_eq_Some_iff)
    ultimately show ?thesis using VHash ok by (simp add: canonical_def entry_eq_def)
  qed (use that in \<open>simp_all add: canonical_def entry_eq_refl\<close>)
  then show ?thesis
    using assms by (auto simp: content_eq_def keyspace_ok_def stored_ok_def option.rel_map option.rel_sel
        split: option.splits)
qed

text \<open>Commands that write have the same reply and the same effect on key spaces with the same content.\<close>

definition content_op :: "(entry option \<Rightarrow> frame \<times> entry option) \<Rightarrow> bool" where
  "content_op g \<longleftrightarrow> (\<forall>eo eo'. rel_option entry_eq eo eo' \<longrightarrow>
     fst (g eo) = fst (g eo') \<and> rel_option entry_eq (snd (g eo)) (snd (g eo')))"

lemma content_opI:
  assumes "rel_option entry_eq (snd (g None)) (snd (g None))"
    "\<And>e e'. entry_eq e e' \<Longrightarrow> fst (g (Some e)) = fst (g (Some e')) \<and>
       rel_option entry_eq (snd (g (Some e))) (snd (g (Some e')))"
  shows "content_op g"
  using assms by (auto simp: content_op_def elim: option.rel_cases)

lemma content_strings:
  "content_op (spec_set t v exp)" "content_op (spec_incr n)" "content_op (spec_append v)"
  "content_op (spec_expire_at t d)" "content_op spec_persist" "content_op (spec_push vs sd)"
  "content_op (spec_pop cnt sd)"
  by (rule content_opI; (erule entry_eq_cases)?;
      auto simp: spec_set_def live_def spec_incr_def spec_append_def spec_expire_at_def spec_persist_def
        spec_push_def spec_pop_def Let_def entry_eq_def split: option.splits if_splits side.splits)+

lemma content_hset: "content_op (spec_hset pairs)"
proof (rule content_opI)
  show "rel_option entry_eq (snd (spec_hset pairs None)) (snd (spec_hset pairs None))"
    using hset_fields_ok [of "[]" pairs] by (simp add: spec_hset_def entry_eq_def)
  fix e e' assume "entry_eq e e'"
  then show "fst (spec_hset pairs (Some e)) = fst (spec_hset pairs (Some e')) \<and>
      rel_option entry_eq (snd (spec_hset pairs (Some e))) (snd (spec_hset pairs (Some e')))"
    by (cases rule: entry_eq_cases)
       (auto simp: spec_hset_def entry_eq_def hset_pairs_eq hm.invar_inserts hm.lookup_inserts)
qed

lemma content_hdel: "content_op (spec_hdel fs)"
proof (rule content_opI)
  fix e e' assume "entry_eq e e'"
  then show "fst (spec_hdel fs (Some e)) = fst (spec_hdel fs (Some e')) \<and>
      rel_option entry_eq (snd (spec_hdel fs (Some e))) (snd (spec_hdel fs (Some e')))"
  proof (cases rule: entry_eq_cases)
    case (hash hm hm')
    have "hm_get (fold hm_remove fs hm) = hm_get (fold hm_remove fs hm')"
      using hash by (simp add: hm.lookup_removes)
    then have "fold hm_remove fs hm = [] \<longleftrightarrow> fold hm_remove fs hm' = []"
      by (metis map_of.simps(1) map_of_eq_empty_iff)
    with hash show ?thesis
      by (auto simp: spec_hdel_def entry_eq_def hdel_fields_eq hm.invar_removes hm.lookup_removes Let_def)
  qed (auto simp: spec_hdel_def entry_eq_def)
qed (simp add: spec_hdel_def)

lemma content_hincrby: "content_op (spec_hincrby f n)"
proof (rule content_opI)
  fix e e' assume "entry_eq e e'"
  then show "fst (spec_hincrby f n (Some e)) = fst (spec_hincrby f n (Some e')) \<and>
      rel_option entry_eq (snd (spec_hincrby f n (Some e))) (snd (spec_hincrby f n (Some e')))"
    by (cases rule: entry_eq_cases)
       (auto simp: spec_hincrby_def entry_eq_def distinct_update update_conv' split: option.splits)
qed (simp add: spec_hincrby_def entry_eq_def)

lemma content_at_key:
  assumes "content_op g" "content_eq m m'"
  shows "fst (reply (at_key k g m)) = fst (reply (at_key k g m')) \<and>
    content_eq (snd (reply (at_key k g m))) (snd (reply (at_key k g m')))"
proof -
  have "rel_option entry_eq (m k) (m' k)" using assms(2) by (simp add: content_eq_def)
  then have "fst (g (m k)) = fst (g (m' k)) \<and> rel_option entry_eq (snd (g (m k))) (snd (g (m' k)))"
    using assms(1) by (simp add: content_op_def)
  then show ?thesis using assms(2) by (auto simp: reply_def at_key_def content_eq_def split: prod.splits)
qed

lemma content_dom: "content_eq m m' \<Longrightarrow> dom m = dom m'"
  by (auto simp: content_eq_def dom_def) (metis option.rel_distinct option.exhaust)+

lemma content_restrict: "content_eq m m' \<Longrightarrow> content_eq (m |` A) (m' |` A)"
  by (simp add: content_eq_def restrict_map_def)

lemma content_mset:
  "content_eq m m' \<Longrightarrow>
   content_eq (m ++ map_of (rev (map (\<lambda>(k, v). (k, string_entry v None)) pairs)))
     (m' ++ map_of (rev (map (\<lambda>(k, v). (k, string_entry v None)) pairs)))"
  by (auto simp: content_eq_def map_add_def entry_eq_def split: option.splits dest!: map_of_SomeD)

lemmas content_ops = content_strings content_hset content_hdel content_hincrby

lemma spec_apply_content:
  "is_write cmd \<Longrightarrow> content_eq m m' \<Longrightarrow>
   fst (spec_apply ord t cmd m) = fst (spec_apply ord t cmd m') \<and>
   content_eq (snd (spec_apply ord t cmd m)) (snd (spec_apply ord t cmd m'))"
proof (induction ord t cmd m rule: spec_apply.induct)
qed (auto simp: content_dom content_at_key content_ops intro!: content_restrict content_mset)

end
