(* ===== verification/Writer.thy ===== *)
theory Writer
  imports Server
begin

text \<open>
  The writer of the append-only file: the statistics, the messages and the handle of
  \<^verbatim>\<open>src/src/aof.rs\<close>, and \<open>run_writer\<close> one message at a time. The active file and the temporary
  file of a rewrite are byte strings; what each call to the file system answers is an argument, so
  that every theorem holds for every pattern of failures.
\<close>

section \<open>Statistics\<close>

record aof_stats_inner =
  si_current_size :: u64
  si_rewrite_in_progress :: bool
  si_rewrite_count :: u64
  si_last_rewrite_ok :: bool
  si_last_rewrite_finished_ms :: u64
  si_write_failed :: bool
  si_last_error :: "bytes option"

definition default_stats :: aof_stats_inner where
  "default_stats = \<lparr>si_current_size = 0, si_rewrite_in_progress = False, si_rewrite_count = 0,
     si_last_rewrite_ok = False, si_last_rewrite_finished_ms = 0, si_write_failed = False,
     si_last_error = None\<rparr>"

definition handle_stats :: "bytes \<Rightarrow> fsync_policy \<Rightarrow> aof_stats_inner \<Rightarrow> aof_stats" where
  "handle_stats path policy st =
     \<lparr>as_enabled = True, as_path = path, as_fsync_policy = policy,
      as_current_size = si_current_size st, as_rewrite_in_progress = si_rewrite_in_progress st,
      as_rewrite_count = si_rewrite_count st,
      as_last_rewrite_status =
        (if si_rewrite_count st = 0 then ''none'' else if si_last_rewrite_ok st then ''ok'' else ''err''),
      as_last_rewrite_finished_ms = si_last_rewrite_finished_ms st,
      as_write_failed = si_write_failed st, as_last_error = si_last_error st\<rparr>"

definition finish_rewrite_stats :: "u128 \<Rightarrow> bool \<Rightarrow> bytes option \<Rightarrow> aof_stats_inner \<Rightarrow> aof_stats_inner" where
  "finish_rewrite_stats now ok err st =
     st\<lparr>si_last_rewrite_ok := ok, si_last_rewrite_finished_ms := ucast now,
        si_rewrite_count := si_rewrite_count st + 1, si_last_error := err,
        si_rewrite_in_progress := False\<rparr>"

definition mark_write_failed :: "bytes \<Rightarrow> aof_stats_inner \<Rightarrow> aof_stats_inner" where
  "mark_write_failed err st = st\<lparr>si_write_failed := True, si_last_error := Some err\<rparr>"

section \<open>The rewrite buffer\<close>

definition MAX_REWRITE_BUFFER_BYTES :: nat where
  "MAX_REWRITE_BUFFER_BYTES = 64 * 1024 * 1024"

record rewrite_buffer =
  rb_frames :: "bytes list"
  rb_bytes :: nat

definition rewrite_buffer_new :: rewrite_buffer where
  "rewrite_buffer_new = \<lparr>rb_frames = [], rb_bytes = 0\<rparr>"

definition rewrite_buffer_push :: "bytes \<Rightarrow> rewrite_buffer \<Rightarrow> (bytes, rewrite_buffer) result" where
  "rewrite_buffer_push bytes b =
     bind_result (ok_or ''AOF rewrite buffer size overflow'' (checked_add_usize (rb_bytes b) (length bytes)))
       (\<lambda>new_size.
          if new_size > MAX_REWRITE_BUFFER_BYTES
          then Inl (''AOF rewrite buffer exceeded limit of '' @ show_nat MAX_REWRITE_BUFFER_BYTES @ '' bytes'')
          else Inr (b\<lparr>rb_bytes := new_size, rb_frames := rb_frames b @ [bytes]\<rparr>))"

section \<open>Files and what the calls on them answer\<close>

text \<open>
  The answers of the calls one message may make: \<^const>\<open>None\<close> is success, \<open>Some e\<close> the error. A failed
  write has put some of its bytes into the file. \<open>io_rollback_sync\<close> is the answer to the \<open>sync_data\<close> of
  \<open>rollback_active_file\<close>.
\<close>

record io =
  io_write :: "(nat \<times> bytes) option"
  io_sync_due :: bool
  io_sync :: "bytes option"
  io_set_len :: "bytes option"
  io_rollback_sync :: "bytes option"
  io_open_temp :: "bytes option"
  io_temp_write :: "nat \<Rightarrow> (nat \<times> bytes) option"
  io_temp_sync :: "bytes option"
  io_rename :: "bytes option"
  io_parent_sync :: "bytes option"
  io_active_sync :: "bytes option"
  io_metadata :: "bytes option"

definition write_all :: "(nat \<times> bytes) option \<Rightarrow> bytes \<Rightarrow> bytes \<Rightarrow> (bytes, unit) result \<times> bytes" where
  "write_all answer bytes file = (case answer of
      None \<Rightarrow> (Inr (), file @ bytes)
    | Some (n, e) \<Rightarrow> (Inl e, file @ take n bytes))"

definition set_len :: "nat \<Rightarrow> bytes \<Rightarrow> bytes" where
  "set_len n file = take n file @ replicate (n - length file) (CHR 0x00)"

definition done_or :: "bytes option \<Rightarrow> (bytes, unit) result" where
  "done_or answer = (case answer of None \<Rightarrow> Inr () | Some e \<Rightarrow> Inl e)"

section \<open>The writer\<close>

datatype aof_message =
    MWrite bytes
  | MStartRewrite
  | MFinishRewrite
  | MAbortRewrite bytes

text \<open>
  \<open>w_file\<close> is the content of the active file, which is the one at the path of the log; \<open>w_temp\<close> that of
  the file at \<open>rewrite_temp_path\<close>, if it exists. The first \<open>w_synced\<close> bytes of the active file are those that
  were in it at the last \<open>sync_data\<close> that succeeded: \<open>write_all\<close> of a \<open>tokio::fs::File\<close> returns before
  its bytes are out of the process, so that of the bytes behind them a crash may lose any part from the end.
  What a process finds in the file when it starts is not lost by a crash of that process.
\<close>

record aof_writer =
  w_file :: bytes
  w_synced :: nat
  w_temp :: "bytes option"
  w_buffer :: "rewrite_buffer option"
  w_stats :: aof_stats_inner

definition spawn_writer :: "bytes \<Rightarrow> aof_writer" where
  "spawn_writer file = \<lparr>w_file = file, w_synced = length file, w_temp = None, w_buffer = None,
     w_stats = default_stats\<lparr>si_current_size := word_of_nat (length file)\<rparr>\<rparr>"

definition write_one :: "io \<Rightarrow> bytes \<Rightarrow> u64 \<Rightarrow> aof_writer \<Rightarrow> (bytes, unit) result \<times> aof_writer" where
  "write_one io bytes previous_len w =
     (case write_all (io_write io) bytes (w_file w) of
        (Inl e, file) \<Rightarrow> (Inl e, w\<lparr>w_file := file\<rparr>)
      | (Inr _, file) \<Rightarrow>
          (Inr (), w\<lparr>w_file := file,
                     w_stats := (w_stats w)\<lparr>si_current_size := previous_len + word_of_nat (length bytes)\<rparr>\<rparr>))"

definition sync_data :: "bytes option \<Rightarrow> aof_writer \<Rightarrow> (bytes, unit) result \<times> aof_writer" where
  "sync_data answer w = (case answer of
      None \<Rightarrow> (Inr (), w\<lparr>w_synced := length (w_file w)\<rparr>)
    | Some e \<Rightarrow> (Inl e, w))"

text \<open>The result of the rollback is ignored by its callers, as is that of its \<open>sync_data\<close>.\<close>

definition rollback_active_file :: "io \<Rightarrow> u64 \<Rightarrow> aof_writer \<Rightarrow> aof_writer" where
  "rollback_active_file io previous_len w =
     (case io_set_len io of
        Some _ \<Rightarrow> w
      | None \<Rightarrow>
          let w = w\<lparr>w_file := set_len (unat previous_len) (w_file w), w_synced := min (w_synced w) (unat previous_len)\<rparr>;
              w = snd (sync_data (io_rollback_sync io) w)
          in w\<lparr>w_stats := (w_stats w)\<lparr>si_current_size := previous_len\<rparr>\<rparr>)"

definition sync_after_write :: "fsync_policy \<Rightarrow> io \<Rightarrow> aof_writer \<Rightarrow> (bytes, unit) result \<times> aof_writer" where
  "sync_after_write policy io w = (case policy of
      FsyncAlways \<Rightarrow> sync_data (io_sync io) w
    | FsyncEverySec \<Rightarrow> if io_sync_due io then sync_data (io_sync io) w else (Inr (), w)
    | FsyncNo \<Rightarrow> (Inr (), w))"

definition write_logged :: "fsync_policy \<Rightarrow> io \<Rightarrow> bytes \<Rightarrow> aof_writer \<Rightarrow> (bytes, unit) result \<times> aof_writer" where
  "write_logged policy io bytes w =
     (let previous_len = si_current_size (w_stats w) in
      case write_one io bytes previous_len w of
        (Inl e, w) \<Rightarrow> (Inl e, rollback_active_file io previous_len w)
      | (Inr _, w) \<Rightarrow>
          (case sync_after_write policy io w of
             (Inl e, w) \<Rightarrow> (Inl e, rollback_active_file io previous_len w)
           | (Inr _, w) \<Rightarrow> (Inr (), w)))"

text \<open>The loop over the buffered frames of \<open>finish_rewrite_file\<close>, from frame \<open>i\<close> on.\<close>

fun append_frames :: "(nat \<Rightarrow> (nat \<times> bytes) option) \<Rightarrow> nat \<Rightarrow> bytes list \<Rightarrow> bytes \<Rightarrow> (bytes, unit) result \<times> bytes" where
  "append_frames answers i [] file = (Inr (), file)"
| "append_frames answers i (b # bs) file =
     (case write_all (answers i) b file of
        (Inl e, file) \<Rightarrow> (Inl e, file)
      | (Inr _, file) \<Rightarrow> append_frames answers (Suc i) bs file)"

definition finish_rewrite_file :: "fsync_policy \<Rightarrow> io \<Rightarrow> aof_writer \<Rightarrow> (bytes, unit) result \<times> aof_writer" where
  "finish_rewrite_file policy io w =
     (case w_buffer w of
        None \<Rightarrow> (Inl ''AOF rewrite is not in progress'', w)
      | Some buffer \<Rightarrow>
          let w = w\<lparr>w_buffer := None\<rparr> in
          (case (io_open_temp io, w_temp w) of
             (None, Some temp) \<Rightarrow>
               (case append_frames (io_temp_write io) 0 (rb_frames buffer) temp of
                  (Inl e, temp) \<Rightarrow> (Inl e, w\<lparr>w_temp := Some temp\<rparr>)
                | (Inr _, temp) \<Rightarrow>
                    let w = w\<lparr>w_temp := Some temp\<rparr> in
                    (case (io_temp_sync io, io_rename io) of
                       (Some e, _) \<Rightarrow> (Inl e, w)
                     | (None, Some e) \<Rightarrow> (Inl e, w)
                     | (None, None) \<Rightarrow>
                         let w = w\<lparr>w_file := temp, w_synced := length temp, w_temp := None\<rparr> in
                         (case (if policy = FsyncAlways then sync_data (io_active_sync io) w else (Inr (), w)) of
                            (Inl e, w) \<Rightarrow> (Inl e, w)
                          | (Inr _, w) \<Rightarrow>
                              let len = (case io_metadata io of None \<Rightarrow> word_of_nat (length temp) | Some _ \<Rightarrow> 0);
                                  w = w\<lparr>w_stats := (w_stats w)\<lparr>si_current_size := len\<rparr>\<rparr>
                              in (done_or (io_parent_sync io), w))))
           | (Some e, _) \<Rightarrow> (Inl e, w)
           | (None, None) \<Rightarrow> (Inl ''No such file or directory (os error 2)'', w)))"

text \<open>One message, with what is sent back.\<close>

fun writer_step :: "fsync_policy \<Rightarrow> io \<Rightarrow> aof_message \<Rightarrow> aof_writer \<Rightarrow> (bytes, unit) result \<times> aof_writer" where
  "writer_step policy io (MWrite bytes) w =
     (if si_write_failed (w_stats w) then (Inl ''AOF writer is in failed state'', w)
      else
        (case write_logged policy io bytes w of
           (Inr _, w) \<Rightarrow>
             (Inr (), case w_buffer w of
                None \<Rightarrow> w
              | Some buffer \<Rightarrow>
                  (case rewrite_buffer_push bytes buffer of
                     Inr buffer \<Rightarrow> w\<lparr>w_buffer := Some buffer\<rparr>
                   | Inl e \<Rightarrow> w\<lparr>w_buffer := None, w_stats := (w_stats w)\<lparr>si_last_error := Some e\<rparr>\<rparr>))
         | (Inl e, w) \<Rightarrow> (Inl e, w\<lparr>w_stats := mark_write_failed e (w_stats w)\<rparr>)))"
| "writer_step policy io MStartRewrite w =
     (if w_buffer w \<noteq> None then (Inl ''AOF rewrite already in progress'', w)
      else (Inr (), w\<lparr>w_buffer := Some rewrite_buffer_new\<rparr>))"
| "writer_step policy io MFinishRewrite w = finish_rewrite_file policy io w"
| "writer_step policy io (MAbortRewrite reason) w =
     (Inr (), w\<lparr>w_buffer := None, w_stats := (w_stats w)\<lparr>si_last_error := Some reason\<rparr>\<rparr>)"

text \<open>The timer of the policy \<open>everysec\<close>.\<close>

definition writer_tick :: "io \<Rightarrow> aof_writer \<Rightarrow> aof_writer" where
  "writer_tick io w = (case sync_data (io_sync io) w of
      (Inr _, w) \<Rightarrow> w
    | (Inl e, w) \<Rightarrow> w\<lparr>w_stats := mark_write_failed e (w_stats w)\<rparr>)"

text \<open>
  The loop of the task: it takes messages from its channel and, with the policy \<open>everysec\<close>, wakes up by its timer.
  The result has each message with its acknowledgement. When the channel is closed, at the end of the list,
  the file is synced once more; \<open>final\<close> is the answer, which is ignored.
\<close>

datatype wakeup = Message aof_message | Timer

fun run_writer ::
  "fsync_policy \<Rightarrow> bytes option \<Rightarrow> (io \<times> wakeup) list \<Rightarrow> aof_writer \<Rightarrow>
   (aof_message \<times> (bytes, unit) result) list \<times> aof_writer" where
  "run_writer policy final [] w = ([], snd (sync_data final w))"
| "run_writer policy final ((io, Message m) # evs) w =
     (case writer_step policy io m w of
        (r, w) \<Rightarrow> (case run_writer policy final evs w of (acks, w) \<Rightarrow> ((m, r) # acks, w)))"
| "run_writer policy final ((io, Timer) # evs) w =
     run_writer policy final evs (if policy = FsyncEverySec then writer_tick io w else w)"

section \<open>The handle\<close>

text \<open>
  The writer holds its end of the channel as long as a handle exists, so that sending fails only
  when the runtime is being shut down, which is left out.
\<close>

definition handle_write :: "fsync_policy \<Rightarrow> io \<Rightarrow> frame \<Rightarrow> aof_writer \<Rightarrow> (bytes, unit) result \<times> aof_writer" where
  "handle_write policy io frame w =
     (if si_write_failed (w_stats w) then (Inl ''AOF writer is in failed state'', w)
      else writer_step policy io (MWrite (encode frame)) w)"

definition begin_rewrite :: "aof_writer \<Rightarrow> (bytes, unit) result \<times> aof_writer" where
  "begin_rewrite w =
     (if si_rewrite_in_progress (w_stats w) then (Inl ''already in progress'', w)
      else (Inr (), w\<lparr>w_stats := (w_stats w)\<lparr>si_rewrite_in_progress := True\<rparr>\<rparr>))"

section \<open>The invariant of the writer\<close>

definition buffer_ok :: "rewrite_buffer \<Rightarrow> bool" where
  "buffer_ok b \<longleftrightarrow> rb_bytes b = length (concat (rb_frames b)) \<and> rb_bytes b \<le> MAX_REWRITE_BUFFER_BYTES"

definition writer_ok :: "aof_writer \<Rightarrow> bool" where
  "writer_ok w \<longleftrightarrow> (case w_buffer w of Some b \<Rightarrow> buffer_ok b | None \<Rightarrow> True)"

text \<open>The recorded size is the size of the file; it is what a rollback returns to.\<close>

definition size_ok :: "aof_writer \<Rightarrow> bool" where
  "size_ok w \<longleftrightarrow> si_current_size (w_stats w) = word_of_nat (length (w_file w)) \<and> length (w_file w) < 2 ^ 64"

lemma rewrite_buffer_push_Inr:
  assumes "rewrite_buffer_push bytes b = Inr b'" "buffer_ok b"
  shows "buffer_ok b'" "rb_frames b' = rb_frames b @ [bytes]"
  using assms by (auto simp: rewrite_buffer_push_def buffer_ok_def ok_or_def split: option.splits if_splits)

lemma set_len_prefix [simp]: "set_len (length file) (file @ junk) = file"
  by (simp add: set_len_def)

lemma append_frames_Inr: "append_frames answers i bs x = (Inr u, y) \<Longrightarrow> y = x @ concat bs"
  by (induction bs arbitrary: i x) (fastforce simp: write_all_def split: option.splits)+

lemma sync_data_simps [simp]:
  "w_file (snd (sync_data answer w)) = w_file w" "w_temp (snd (sync_data answer w)) = w_temp w"
  "w_buffer (snd (sync_data answer w)) = w_buffer w" "w_stats (snd (sync_data answer w)) = w_stats w"
  by (simp_all add: sync_data_def split: option.split)

text \<open>A sync changes nothing but how much of the file is safe, and that only for the better.\<close>

definition synced_more :: "aof_writer \<Rightarrow> aof_writer \<Rightarrow> bool" where
  "synced_more w w' \<longleftrightarrow> w' = w\<lparr>w_synced := w_synced w'\<rparr> \<and> w_synced w' \<in> {w_synced w, length (w_file w)}"

lemma synced_moreD:
  assumes "synced_more w w'"
  shows "w_file w' = w_file w" "w_temp w' = w_temp w" "w_buffer w' = w_buffer w" "w_stats w' = w_stats w"
    "w_synced w' = w_synced w \<or> w_synced w' = length (w_file w)"
proof -
  have w': "w' = w\<lparr>w_synced := w_synced w'\<rparr>" "w_synced w' \<in> {w_synced w, length (w_file w)}"
    using assms by (simp_all add: synced_more_def)
  show "w_file w' = w_file w" "w_temp w' = w_temp w" "w_buffer w' = w_buffer w" "w_stats w' = w_stats w"
    by (subst w'(1), simp)+
  show "w_synced w' = w_synced w \<or> w_synced w' = length (w_file w)" using w'(2) by simp
qed

lemma sync_data_more: "sync_data answer w = (r, w') \<Longrightarrow> synced_more w w'"
  by (auto simp: sync_data_def synced_more_def split: option.splits)

lemma sync_after_write_more: "sync_after_write policy io w = (r, w') \<Longrightarrow> synced_more w w'"
  by (auto simp: sync_after_write_def sync_data_def synced_more_def split: option.splits fsync_policy.splits if_splits)

lemma sync_after_write_always: "sync_after_write FsyncAlways io w = (Inr u, w') \<Longrightarrow> w_synced w' = length (w_file w')"
  by (auto simp: sync_after_write_def sync_data_def split: option.splits)

lemma write_logged_Inr:
  assumes "write_logged policy io bytes w = (Inr u, w')"
  shows "w_file w' = w_file w @ bytes" "w_temp w' = w_temp w" "w_buffer w' = w_buffer w"
    "w_stats w' = (w_stats w)\<lparr>si_current_size := si_current_size (w_stats w) + word_of_nat (length bytes)\<rparr>"
    "w_synced w' = w_synced w \<or> w_synced w' = length (w_file w')"
    "policy = FsyncAlways \<Longrightarrow> w_synced w' = length (w_file w')"
proof -
  let ?w1 = "w\<lparr>w_file := w_file w @ bytes,
    w_stats := (w_stats w)\<lparr>si_current_size := si_current_size (w_stats w) + word_of_nat (length bytes)\<rparr>\<rparr>"
  have s: "sync_after_write policy io ?w1 = (Inr (), w')"
    using assms by (auto simp: write_logged_def write_one_def write_all_def Let_def split: option.splits sum.splits prod.splits)
  note m = synced_moreD [OF sync_after_write_more [OF s]]
  show "w_file w' = w_file w @ bytes" "w_temp w' = w_temp w" "w_buffer w' = w_buffer w"
    "w_stats w' = (w_stats w)\<lparr>si_current_size := si_current_size (w_stats w) + word_of_nat (length bytes)\<rparr>"
    "w_synced w' = w_synced w \<or> w_synced w' = length (w_file w')"
    using m by simp_all
  show "policy = FsyncAlways \<Longrightarrow> w_synced w' = length (w_file w')" using s sync_after_write_always by blast
qed

lemma size_of_nat: "size_ok w \<Longrightarrow> unat (si_current_size (w_stats w)) = length (w_file w)"
  by (simp add: size_ok_def unat_of_nat take_bit_nat_eq_self)

text \<open>
  A write that fails leaves the file as it was or, when the file could not be cut back, with some
  bytes of the frame at its end.
\<close>

lemma write_logged_Inl:
  assumes "write_logged policy io bytes w = (Inl e, w')" "size_ok w"
  shows "\<exists>n. w_file w' = w_file w @ take n bytes \<and> (io_set_len io = None \<longrightarrow> w_file w' = w_file w \<and> size_ok w') \<and>
    w_temp w' = w_temp w \<and> w_buffer w' = w_buffer w \<and>
    si_rewrite_in_progress (w_stats w') = si_rewrite_in_progress (w_stats w) \<and>
    (w_synced w \<le> length (w_file w) \<longrightarrow> w_synced w \<le> w_synced w' \<and> w_synced w' \<le> length (w_file w'))"
proof -
  obtain r w1 where one: "write_one io bytes (si_current_size (w_stats w)) w = (r, w1)" by force
  have "\<exists>n. w_file w1 = w_file w @ take n bytes"
  proof (cases "io_write io")
    case None
    then show ?thesis using one by (intro exI [of _ "length bytes"]) (auto simp: write_one_def write_all_def)
  next
    case (Some answer)
    then show ?thesis
      using one by (intro exI [of _ "fst answer"]) (auto simp: write_one_def write_all_def split: prod.splits)
  qed
  with one have w1: "\<exists>n. w_file w1 = w_file w @ take n bytes" "w_temp w1 = w_temp w" "w_buffer w1 = w_buffer w"
      "si_rewrite_in_progress (w_stats w1) = si_rewrite_in_progress (w_stats w)" "w_synced w1 = w_synced w"
    by (auto simp: write_one_def write_all_def split: option.splits)
  obtain w2 where w2: "synced_more w1 w2" "w' = rollback_active_file io (si_current_size (w_stats w)) w2"
  proof (cases r)
    case (Inl e')
    then show ?thesis using that [of w1] assms(1) one by (simp add: write_logged_def synced_more_def)
  next
    case (Inr u)
    obtain r' w2 where s: "sync_after_write policy io w1 = (r', w2)" by force
    then show ?thesis
      using that [OF sync_after_write_more [OF s]] assms(1) one Inr by (simp add: write_logged_def split: sum.splits)
  qed
  note m = synced_moreD [OF w2(1)]
  obtain n where n: "w_file w2 = w_file w @ take n bytes" using w1(1) m(1) by auto
  have roll: "io_set_len io = None \<Longrightarrow> w' = (snd (sync_data (io_rollback_sync io)
      (w2\<lparr>w_file := w_file w, w_synced := min (w_synced w2) (length (w_file w))\<rparr>)))
      \<lparr>w_stats := (w_stats w2)\<lparr>si_current_size := si_current_size (w_stats w)\<rparr>\<rparr>"
    using n by (simp add: w2(2) rollback_active_file_def Let_def size_of_nat [OF assms(2)])
  show ?thesis
  proof (cases "io_set_len io")
    case None
    have "w_synced w \<le> w_synced w' \<and> w_synced w' \<le> length (w_file w')" if "w_synced w \<le> length (w_file w)"
      using that m(5) w1(5) n m(1) by (auto simp: roll [OF None] sync_data_def split: option.split)
    then show ?thesis
      using assms(2) m w1 by (intro exI [of _ 0]) (simp add: roll [OF None] size_ok_def)
  next
    case (Some e')
    then have "w' = w2" by (simp add: w2(2) rollback_active_file_def)
    then show ?thesis using Some m w1 n by (intro exI [of _ n]) auto
  qed
qed

lemma write_ack:
  assumes "writer_step policy io (MWrite bytes) w = (Inr u, w')" "writer_ok w"
  shows "\<not> si_write_failed (w_stats w)" "\<not> si_write_failed (w_stats w')" "w_file w' = w_file w @ bytes"
    "w_temp w' = w_temp w" "writer_ok w'" "size_ok w \<Longrightarrow> length (w_file w') < 2 ^ 64 \<Longrightarrow> size_ok w'"
    "si_rewrite_in_progress (w_stats w') = si_rewrite_in_progress (w_stats w)"
    "case w_buffer w' of None \<Rightarrow> True
     | Some b' \<Rightarrow> (\<exists>b. w_buffer w = Some b \<and> rb_frames b' = rb_frames b @ [bytes])"
    "w_synced w' = w_synced w \<or> w_synced w' = length (w_file w')"
    "policy = FsyncAlways \<Longrightarrow> w_synced w' = length (w_file w')"
proof -
  obtain w1 where l: "\<not> si_write_failed (w_stats w)" "write_logged policy io bytes w = (Inr (), w1)"
    using assms(1) by (auto split: if_splits prod.splits sum.splits)
  note w1 = write_logged_Inr [OF l(2)]
  have eq: "w' = (case w_buffer w1 of None \<Rightarrow> w1 | Some buffer \<Rightarrow>
      (case rewrite_buffer_push bytes buffer of
         Inr buffer \<Rightarrow> w1\<lparr>w_buffer := Some buffer\<rparr>
       | Inl e \<Rightarrow> w1\<lparr>w_buffer := None, w_stats := (w_stats w1)\<lparr>si_last_error := Some e\<rparr>\<rparr>))"
    using assms(1) l by simp
  show "\<not> si_write_failed (w_stats w)" by (rule l(1))
  show "\<not> si_write_failed (w_stats w')" "w_file w' = w_file w @ bytes" "w_temp w' = w_temp w"
    "si_rewrite_in_progress (w_stats w') = si_rewrite_in_progress (w_stats w)"
    using l(1) by (auto simp: eq w1 split: option.splits sum.splits)
  show "size_ok w \<Longrightarrow> length (w_file w') < 2 ^ 64 \<Longrightarrow> size_ok w'"
    by (auto simp: eq w1 size_ok_def split: option.splits sum.splits)
  show "writer_ok w'" using assms(2) rewrite_buffer_push_Inr(1)
    by (auto simp: eq w1 writer_ok_def split: option.splits sum.splits)
  show "w_synced w' = w_synced w \<or> w_synced w' = length (w_file w')"
    using w1(5) by (auto simp: eq split: option.splits sum.splits)
  show "policy = FsyncAlways \<Longrightarrow> w_synced w' = length (w_file w')"
    using w1(6) by (auto simp: eq split: option.splits sum.splits)
  show "case w_buffer w' of None \<Rightarrow> True
     | Some b' \<Rightarrow> (\<exists>b. w_buffer w = Some b \<and> rb_frames b' = rb_frames b @ [bytes])"
    using assms(2) rewrite_buffer_push_Inr(2)
    by (auto simp: eq w1 writer_ok_def split: option.splits sum.splits)
qed

lemma write_nack:
  assumes "writer_step policy io (MWrite bytes) w = (Inl e, w')" "size_ok w"
  shows "\<exists>n. w_file w' = w_file w @ take n bytes" "io_set_len io = None \<Longrightarrow> w_file w' = w_file w \<and> size_ok w'"
    "si_write_failed (w_stats w')" "w_temp w' = w_temp w" "w_buffer w' = w_buffer w"
    "si_rewrite_in_progress (w_stats w') = si_rewrite_in_progress (w_stats w)"
    "w_synced w \<le> length (w_file w) \<Longrightarrow> w_synced w \<le> w_synced w' \<and> w_synced w' \<le> length (w_file w')"
proof -
  consider (failed) "si_write_failed (w_stats w)" "w' = w"
    | (now) w1 where "write_logged policy io bytes w = (Inl e, w1)"
        "w' = w1\<lparr>w_stats := mark_write_failed e (w_stats w1)\<rparr>"
    using assms(1) by (auto split: if_splits prod.splits sum.splits)
  then have *: "(\<exists>n. w_file w' = w_file w @ take n bytes) \<and> (io_set_len io = None \<longrightarrow> w_file w' = w_file w \<and> size_ok w') \<and>
    si_write_failed (w_stats w') \<and> w_temp w' = w_temp w \<and> w_buffer w' = w_buffer w \<and>
    si_rewrite_in_progress (w_stats w') = si_rewrite_in_progress (w_stats w) \<and>
    (w_synced w \<le> length (w_file w) \<longrightarrow> w_synced w \<le> w_synced w' \<and> w_synced w' \<le> length (w_file w'))"
  proof cases
    case failed
    then show ?thesis using assms(2) by (auto intro: exI [of _ 0])
  next
    case now
    then show ?thesis using write_logged_Inl [OF now(1) assms(2)] by (auto simp: mark_write_failed_def size_ok_def)
  qed
  then show "\<exists>n. w_file w' = w_file w @ take n bytes" "io_set_len io = None \<Longrightarrow> w_file w' = w_file w \<and> size_ok w'"
    "si_write_failed (w_stats w')" "w_temp w' = w_temp w" "w_buffer w' = w_buffer w"
    "si_rewrite_in_progress (w_stats w') = si_rewrite_in_progress (w_stats w)"
    "w_synced w \<le> length (w_file w) \<Longrightarrow> w_synced w \<le> w_synced w' \<and> w_synced w' \<le> length (w_file w')"
    by blast+
qed

lemma finish_cases:
  assumes "finish_rewrite_file policy io w = (r, w')"
  shows "w_buffer w' = None" "si_write_failed (w_stats w') = si_write_failed (w_stats w)"
    "si_rewrite_in_progress (w_stats w') = si_rewrite_in_progress (w_stats w)"
    "(w_file w' = w_file w \<and> w_synced w' = w_synced w \<and> (\<exists>e. r = Inl e) \<and>
        si_current_size (w_stats w') = si_current_size (w_stats w)) \<or>
     (\<exists>b temp. w_buffer w = Some b \<and> w_temp w = Some temp \<and> w_file w' = temp @ concat (rb_frames b) \<and>
        w_synced w' = length (w_file w'))"
    "size_ok w \<Longrightarrow> io_active_sync io = None \<Longrightarrow> io_metadata io = None \<Longrightarrow> length (w_file w') < 2 ^ 64 \<Longrightarrow> size_ok w'"
  using assms
  by (auto simp: finish_rewrite_file_def sync_data_def Let_def size_ok_def split: option.splits sum.splits prod.splits if_splits
      dest: append_frames_Inr)

lemma finish_ack:
  assumes "finish_rewrite_file policy io w = (Inr u, w')"
  shows "\<exists>b temp. w_buffer w = Some b \<and> w_temp w = Some temp \<and> w_file w' = temp @ concat (rb_frames b)"
    "w_synced w' = length (w_file w')"
  using finish_cases(4) [OF assms] by blast+

section \<open>What a crash cannot take\<close>

text \<open>
  With the policy \<open>always\<close> all of the file is safe as long as the writer has not given up. A
  writer that has given up appends nothing any more that it acknowledges.
\<close>

definition synced_inv :: "fsync_policy \<Rightarrow> aof_writer \<Rightarrow> bool" where
  "synced_inv policy w \<longleftrightarrow>
     (policy = FsyncAlways \<and> \<not> si_write_failed (w_stats w) \<longrightarrow> w_synced w = length (w_file w))"

lemma synced_inv_spawn: "synced_inv policy (spawn_writer file)"
  by (simp add: synced_inv_def spawn_writer_def)

lemma synced_inv_step:
  assumes "synced_inv policy w" "writer_step policy io m w = (r, w')" shows "synced_inv policy w'"
proof (cases m)
  case (MWrite bytes)
  show ?thesis
  proof (cases "\<not> si_write_failed (w_stats w) \<and> r = Inr ()")
    case True
    then obtain w1 where l: "write_logged policy io bytes w = (Inr (), w1)"
      using assms(2) by (auto simp: MWrite split: if_splits prod.splits sum.splits)
    note w1 = write_logged_Inr [OF l]
    have "w_synced w' = w_synced w1 \<and> w_file w' = w_file w1"
      using assms(2) True l by (auto simp: MWrite split: option.splits sum.splits)
    then show ?thesis using w1(6) by (auto simp: synced_inv_def)
  next
    case False
    then have "si_write_failed (w_stats w')"
      using assms(2) by (auto simp: MWrite mark_write_failed_def split: if_splits prod.splits sum.splits)
    then show ?thesis by (simp add: synced_inv_def)
  qed
next
  case MFinishRewrite
  then have "finish_rewrite_file policy io w = (r, w')" using assms(2) by simp
  note c = finish_cases [OF this]
  show ?thesis using assms(1) c(2,4) by (auto simp: synced_inv_def)
qed (use assms in \<open>auto simp: synced_inv_def split: if_splits\<close>)

lemma synced_inv_tick: "synced_inv policy w \<Longrightarrow> synced_inv policy (writer_tick io w)"
  by (auto simp: synced_inv_def writer_tick_def sync_data_def mark_write_failed_def split: option.split)

lemma synced_inv_write:
  "synced_inv policy w \<Longrightarrow> handle_write policy io f w = (r, w') \<Longrightarrow> synced_inv policy w'"
  by (auto simp: handle_write_def simp del: writer_step.simps split: if_splits intro: synced_inv_step)

lemma synced_inv_begin: "synced_inv policy w \<Longrightarrow> synced_inv policy (snd (begin_rewrite w))"
  by (simp add: begin_rewrite_def synced_inv_def)

lemma synced_inv_cong:
  "synced_inv policy w \<Longrightarrow> w_file w' = w_file w \<Longrightarrow> w_synced w' = w_synced w \<Longrightarrow>
     si_write_failed (w_stats w') = si_write_failed (w_stats w) \<Longrightarrow> synced_inv policy w'"
  by (simp add: synced_inv_def)

section \<open>What was acknowledged is what is in the file\<close>

text \<open>The bytes of the writes that were acknowledged, in their order; the bytes a wakeup may write.\<close>

fun acknowledged :: "(aof_message \<times> (bytes, unit) result) list \<Rightarrow> bytes" where
  "acknowledged [] = []"
| "acknowledged ((MWrite bytes, Inr u) # acks) = bytes @ acknowledged acks"
| "acknowledged (_ # acks) = acknowledged acks"

fun wakeup_bytes :: "io \<times> wakeup \<Rightarrow> nat" where
  "wakeup_bytes (io, Message (MWrite bytes)) = length bytes"
| "wakeup_bytes _ = 0"

fun finishes_rewrite :: "io \<times> wakeup \<Rightarrow> bool" where
  "finishes_rewrite (io, Message MFinishRewrite) = True"
| "finishes_rewrite _ = False"

text \<open>A writer that has given up takes nothing any more.\<close>

lemma failed_step:
  assumes "si_write_failed (w_stats w)" "m \<noteq> MFinishRewrite" "writer_step policy io m w = (r, w')"
  shows "w_file w' = w_file w \<and> w_synced w' = w_synced w \<and> si_write_failed (w_stats w') \<and> acknowledged [(m, r)] = []"
  using assms by (cases m) (auto split: if_splits)

lemma tick_file [simp]: "w_file (writer_tick io w) = w_file w"
  by (simp add: writer_tick_def sync_data_def split: option.split)

lemma tick_cases:
  "(writer_tick io w = w\<lparr>w_synced := length (w_file w)\<rparr>) \<or>
   (\<exists>e. writer_tick io w = w\<lparr>w_stats := mark_write_failed e (w_stats w)\<rparr>)"
  by (cases "io_sync io") (auto simp: writer_tick_def sync_data_def)

text \<open>A sync never makes less of the file safe.\<close>

lemma sync_data_synced:
  "w_synced w \<le> length (w_file w) \<Longrightarrow> w_synced w \<le> w_synced (snd (sync_data answer w)) \<and>
     w_synced (snd (sync_data answer w)) \<le> length (w_file w)"
  by (simp add: sync_data_def split: option.split)

lemma run_writer_failed:
  "si_write_failed (w_stats w) \<Longrightarrow> list_all (\<lambda>ev. \<not> finishes_rewrite ev) evs \<Longrightarrow> run_writer policy final evs w = (acks, w') \<Longrightarrow>
     w_file w' = w_file w \<and> acknowledged acks = [] \<and> si_write_failed (w_stats w') \<and>
     (w_synced w \<le> length (w_file w) \<longrightarrow> w_synced w \<le> w_synced w')"
proof (induction policy final evs w arbitrary: acks rule: run_writer.induct)
  case (1 policy final w)
  then show ?case using sync_data_synced [of w final] by auto
next
  case (2 policy final io m evs w)
  obtain r w1 where s: "writer_step policy io m w = (r, w1)" by force
  then obtain acks1 where a: "run_writer policy final evs w1 = (acks1, w')" "acks = (m, r) # acks1"
    using "2.prems" by (auto split: prod.splits)
  have "m \<noteq> MFinishRewrite" using "2.prems"(2) by (cases m) auto
  note here = failed_step [OF "2.prems"(1) this s]
  have "acknowledged acks = acknowledged [(m, r)] @ acknowledged acks1"
    by (cases m; cases r) (simp_all add: a(2))
  with "2.IH" [OF s [symmetric] _ _ a(1)] here "2.prems"(2) show ?case by simp
next
  case (3 policy final io evs w)
  let ?w = "if policy = FsyncEverySec then writer_tick io w else w"
  have w: "si_write_failed (w_stats ?w)" "w_file ?w = w_file w"
      "w_synced w \<le> length (w_file w) \<longrightarrow> w_synced w \<le> w_synced ?w \<and> w_synced ?w \<le> length (w_file ?w)"
    using 3(2) tick_cases [of io w] by (auto simp: mark_write_failed_def)
  have "list_all (\<lambda>ev. \<not> finishes_rewrite ev) evs" "run_writer policy final evs ?w = (acks, w')" using "3.prems" by simp_all
  from "3.IH" [OF w(1) this] w(2,3) show ?case by auto
qed

text \<open>A write appends its frame and is acknowledged, or fails, and then the writer gives up.\<close>

lemma running_step:
  assumes "\<not> si_write_failed (w_stats w)" "size_ok w" "m \<noteq> MFinishRewrite" "writer_step policy io m w = (r, w')"
    "length (w_file w) + wakeup_bytes (io, Message m) < 2 ^ 64"
  shows "(\<not> si_write_failed (w_stats w') \<and> size_ok w' \<and> w_file w' = w_file w @ acknowledged [(m, r)] \<and>
      length (w_file w') \<le> length (w_file w) + wakeup_bytes (io, Message m)) \<or>
    (si_write_failed (w_stats w') \<and> (\<exists>bytes e n. m = MWrite bytes \<and> r = Inl e \<and> w_file w' = w_file w @ take n bytes) \<and>
      acknowledged [(m, r)] = [] \<and>
      (w_synced w \<le> length (w_file w) \<longrightarrow> w_synced w \<le> w_synced w' \<and> w_synced w' \<le> length (w_file w')))"
proof (cases m)
  case (MWrite bytes)
  obtain q w1 where q: "write_logged policy io bytes w = (q, w1)" by force
  show ?thesis
  proof (cases q)
    case (Inl e)
    then have r: "r = Inl e" using assms(1,4) q by (simp add: MWrite)
    note n = write_nack [OF assms(4) [unfolded MWrite r] assms(2)]
    from n(1) obtain n where "w_file w' = w_file w @ take n bytes" by blast
    then show ?thesis using n(3,7) by (auto simp: MWrite r)
  next
    case (Inr u)
    note w1 = write_logged_Inr [OF q [unfolded Inr]]
    have "r = Inr ()" "w_file w' = w_file w @ bytes" "si_write_failed (w_stats w') = si_write_failed (w_stats w)"
        "si_current_size (w_stats w') = si_current_size (w_stats w) + word_of_nat (length bytes)"
      using assms(1,4) q Inr w1 by (auto simp: MWrite split: option.splits sum.splits)
    then show ?thesis using assms(1,2,5) by (simp add: MWrite size_ok_def)
  qed
qed (use assms in \<open>auto simp: size_ok_def split: if_splits\<close>)

text \<open>
  The bytes after those that were acknowledged, if there are any, begin a write that was refused. With the
  policy \<open>always\<close>, what was acknowledged is safe.
\<close>

definition torn_write :: "(aof_message \<times> (bytes, unit) result) list \<Rightarrow> bytes \<Rightarrow> bool" where
  "torn_write acks junk \<longleftrightarrow> (\<exists>bytes e n. (MWrite bytes, Inl e) \<in> set acks \<and> junk = take n bytes)"

lemma torn_write_Cons: "torn_write acks junk \<Longrightarrow> torn_write (ack # acks) junk"
  by (auto simp: torn_write_def)

lemma run_writer_appends:
  "\<not> si_write_failed (w_stats w) \<Longrightarrow> size_ok w \<Longrightarrow> list_all (\<lambda>ev. \<not> finishes_rewrite ev) evs \<Longrightarrow>
     length (w_file w) + sum_list (map wakeup_bytes evs) < 2 ^ 64 \<Longrightarrow> run_writer policy final evs w = (acks, w') \<Longrightarrow>
     \<exists>junk. w_file w' = w_file w @ acknowledged acks @ junk \<and>
       (junk \<noteq> [] \<longrightarrow> si_write_failed (w_stats w') \<and> torn_write acks junk) \<and>
       (policy = FsyncAlways \<and> w_synced w = length (w_file w) \<longrightarrow> length (w_file w @ acknowledged acks) \<le> w_synced w')"
proof (induction policy final evs w arbitrary: acks rule: run_writer.induct)
  case (1 policy final w)
  then show ?case using sync_data_synced [of w final] by auto
next
  case (2 policy final io m evs w)
  obtain r w1 where s: "writer_step policy io m w = (r, w1)" by force
  then obtain acks1 where a: "run_writer policy final evs w1 = (acks1, w')" "acks = (m, r) # acks1"
    using "2.prems" by (auto split: prod.splits)
  have m: "m \<noteq> MFinishRewrite" "list_all (\<lambda>ev. \<not> finishes_rewrite ev) evs" using "2.prems"(3) by (cases m; auto)+
  have acks: "acknowledged acks = acknowledged [(m, r)] @ acknowledged acks1"
    by (cases m; cases r) (simp_all add: a(2))
  have "length (w_file w) + wakeup_bytes (io, Message m) < 2 ^ 64" using "2.prems"(4) by simp
  from running_step [OF "2.prems"(1,2) m(1) s this] show ?case
  proof
    assume on: "\<not> si_write_failed (w_stats w1) \<and> size_ok w1 \<and> w_file w1 = w_file w @ acknowledged [(m, r)] \<and>
        length (w_file w1) \<le> length (w_file w) + wakeup_bytes (io, Message m)"
    then have "length (w_file w1) \<le> length (w_file w) + wakeup_bytes (io, Message m)" by blast
    then have "length (w_file w1) + sum_list (map wakeup_bytes evs) < 2 ^ 64" using "2.prems"(4) by simp
    with "2.IH" [OF s [symmetric] _ _ m(2) this a(1)] on obtain junk where junk:
        "w_file w' = w_file w1 @ acknowledged acks1 @ junk" "junk \<noteq> [] \<longrightarrow> si_write_failed (w_stats w') \<and> torn_write acks1 junk"
        "policy = FsyncAlways \<and> w_synced w1 = length (w_file w1) \<longrightarrow> length (w_file w1 @ acknowledged acks1) \<le> w_synced w'"
      by auto
    have "w_synced w1 = length (w_file w1)" if "policy = FsyncAlways" "w_synced w = length (w_file w)"
      using synced_inv_step [OF _ s] that on by (simp add: synced_inv_def)
    moreover have "junk \<noteq> [] \<longrightarrow> torn_write acks junk" using junk(2) by (auto simp: a(2) torn_write_Cons)
    ultimately show ?thesis using junk on by (intro exI [of _ junk]) (auto simp: acks)
  next
    assume off: "si_write_failed (w_stats w1) \<and> (\<exists>bytes e n. m = MWrite bytes \<and> r = Inl e \<and> w_file w1 = w_file w @ take n bytes) \<and>
      acknowledged [(m, r)] = [] \<and>
      (w_synced w \<le> length (w_file w) \<longrightarrow> w_synced w \<le> w_synced w1 \<and> w_synced w1 \<le> length (w_file w1))"
    then obtain bytes e n where n: "m = MWrite bytes" "r = Inl e" "w_file w1 = w_file w @ take n bytes" by blast
    note f = run_writer_failed [OF _ m(2) a(1)]
    have "torn_write acks (take n bytes)" using n by (auto simp: torn_write_def a(2))
    moreover have "w_synced w = length (w_file w) \<longrightarrow> length (w_file w) \<le> w_synced w'" using f off by linarith
    ultimately show ?thesis using f off n(3) by (intro exI [of _ "take n bytes"]) (simp add: acks)
  qed
next
  case (3 policy final io evs w)
  let ?w = "if policy = FsyncEverySec then writer_tick io w else w"
  have evs: "list_all (\<lambda>ev. \<not> finishes_rewrite ev) evs" "run_writer policy final evs ?w = (acks, w')" using "3.prems"(3,5) by simp_all
  show ?case
  proof (cases "si_write_failed (w_stats ?w)")
    case True
    then have "policy \<noteq> FsyncAlways" using "3.prems"(1) by auto
    with run_writer_failed [OF True evs] show ?thesis by (auto split: if_splits)
  next
    case False
    then have w: "w_file ?w = w_file w" "w_stats ?w = w_stats w" "policy = FsyncAlways \<longrightarrow> ?w = w"
      using tick_cases [of io w] by (auto simp: mark_write_failed_def)
    then have "size_ok ?w" "length (w_file ?w) + sum_list (map wakeup_bytes evs) < 2 ^ 64"
      using "3.prems"(2,4) by (simp_all add: size_ok_def)
    from "3.IH" [OF False this(1) evs(1) this(2) evs(2)] w show ?thesis by metis
  qed
qed

end
