(* ===== verification/System.thy ===== *)
theory System
  imports Content Writer
begin

text \<open>
  The server as a whole: requests of any number of clients, the expiry sweeper, the fsync timer and
  the background rewrite, interleaved. The gate of the database (\<open>pause_writes\<close>) makes the execution
  and logging of a write one step, and the start of a rewrite with its snapshot another; everything
  else of a rewrite (\<open>rewrite_inner\<close>) runs between the steps of the clients.
\<close>

section \<open>State and events\<close>

datatype rewrite_phase =
    Idle
  | Scheduled
  | Snapshotted "(bytes \<times> entry) list"
  | TempWritten

record 'tx system =
  sys_db :: "'tx db"
  sys_writer :: aof_writer
  sys_phase :: rewrite_phase

text \<open>
  Each event has the time at which it happens and the answers of the file system it needs. \<open>TableStep\<close> is
  what a connection in the subscribed mode does to the database: it changes the table of channels.
\<close>

datatype 'tx sys_event =
    ClientRequest u128 io server_state frame
  | SweepTick u128
  | FsyncTick u128 io
  | TakeSnapshot u128
  | WriteTemp u128 "nat \<Rightarrow> clock" "bytes option"
  | FinishRewrite u128 io
  | TableStep u128 "(bytes, 'tx) hash_map"

fun ev_time :: "'tx sys_event \<Rightarrow> u128" where
  "ev_time (ClientRequest t io st f) = t"
| "ev_time (SweepTick t) = t"
| "ev_time (FsyncTick t io) = t"
| "ev_time (TakeSnapshot t) = t"
| "ev_time (WriteTemp t c e) = t"
| "ev_time (FinishRewrite t io) = t"
| "ev_time (TableStep t ps) = t"

definition aof_handle_of :: "bytes \<Rightarrow> fsync_policy \<Rightarrow> io \<Rightarrow> aof_writer \<Rightarrow> aof_handle" where
  "aof_handle_of path policy io w =
     \<lparr>ah_write = (\<lambda>f. fst (handle_write policy io f w)),
      ah_stats = handle_stats path policy (w_stats w),
      ah_schedule = fst (begin_rewrite w)\<rparr>"

text \<open>The frame for which a request calls \<open>AofHandle::write\<close>, if it does.\<close>

definition log_call :: "('tx, 'rx) env \<Rightarrow> u128 \<Rightarrow> frame \<Rightarrow> 'tx db \<Rightarrow> frame option" where
  "log_call E t f db = (case from_frame t f of
      Inl _ \<Rightarrow> None
    | Inr cmd \<Rightarrow>
        if is_write cmd then
          (case fst (apply_cmd E (\<lambda>_. t) cmd db) of Error _ \<Rightarrow> None | _ \<Rightarrow> aof_frame t cmd)
        else None)"

definition request_writer ::
  "('tx, 'rx) env \<Rightarrow> fsync_policy \<Rightarrow> u128 \<Rightarrow> io \<Rightarrow> frame \<Rightarrow> 'tx db \<Rightarrow> aof_writer \<Rightarrow> aof_writer" where
  "request_writer E policy t io f db w =
     (if from_frame t f = Inr BgRewriteAof then snd (begin_rewrite w)
      else case log_call E t f db of Some g \<Rightarrow> snd (handle_write policy io g w) | None \<Rightarrow> w)"

text \<open>The end of a rewrite that failed: the temporary file is removed and the statistics are set.\<close>

definition rewrite_failed :: "u128 \<Rightarrow> bytes \<Rightarrow> aof_writer \<Rightarrow> aof_writer" where
  "rewrite_failed t e w = w\<lparr>w_temp := None, w_stats := finish_rewrite_stats t False (Some e) (w_stats w)\<rparr>"

text \<open>Starting and aborting a rewrite call no file operation.\<close>

definition no_failures :: io where
  "no_failures = \<lparr>io_write = None, io_sync_due = False, io_sync = None, io_set_len = None,
     io_rollback_sync = None, io_open_temp = None, io_temp_write = (\<lambda>_. None), io_temp_sync = None, io_rename = None,
     io_parent_sync = None, io_active_sync = None, io_metadata = None\<rparr>"

text \<open>The next state, \<^const>\<open>None\<close> where the event cannot happen.\<close>

fun sys_next ::
  "('tx, 'rx) env \<Rightarrow> bytes \<Rightarrow> fsync_policy \<Rightarrow> 'tx sys_event \<Rightarrow> 'tx system \<Rightarrow> 'tx system option" where
  "sys_next E path policy (ClientRequest t io st f) s =
     (case handle_request E t t (\<lambda>_. t) (Some (aof_handle_of path policy io (sys_writer s))) st f (sys_db s) of
        (replies, step, db, logged) \<Rightarrow>
          Some (s\<lparr>sys_db := db,
                  sys_writer := request_writer E policy t io f (sys_db s) (sys_writer s),
                  sys_phase := (if from_frame t f = Inr BgRewriteAof \<and> fst (begin_rewrite (sys_writer s)) = Inr ()
                                then Scheduled else sys_phase s)\<rparr>))"
| "sys_next E path policy (SweepTick t) s = Some (s\<lparr>sys_db := sweep_once t (sys_db s)\<rparr>)"
| "sys_next E path policy (FsyncTick t io) s =
     (if policy = FsyncEverySec then Some (s\<lparr>sys_writer := writer_tick io (sys_writer s)\<rparr>) else None)"
| "sys_next E path policy (TakeSnapshot t) s = (case sys_phase s of
      Scheduled \<Rightarrow>
        (case writer_step policy no_failures MStartRewrite (sys_writer s) of
           (Inl e, w) \<Rightarrow> Some (s\<lparr>sys_writer := w\<lparr>w_stats := finish_rewrite_stats t False (Some e) (w_stats w)\<rparr>,
                                sys_phase := Idle\<rparr>)
         | (Inr _, w) \<Rightarrow> Some (s\<lparr>sys_writer := w, sys_phase := Snapshotted (aof_snapshot_entries t (sys_db s))\<rparr>))
    | _ \<Rightarrow> None)"
| "sys_next E path policy (WriteTemp t c err) s = (case sys_phase s of
      Snapshotted es \<Rightarrow>
        (case (write_snapshot_entries (hash_iter E) c 0 es, err) of
           (Inr fs, None) \<Rightarrow> Some (s\<lparr>sys_writer := (sys_writer s)\<lparr>w_temp := Some (concat (map encode fs))\<rparr>,
                                   sys_phase := TempWritten\<rparr>)
         | (r, _) \<Rightarrow>
             let e = (case (r, err) of (Inl e, _) \<Rightarrow> e | (_, Some e) \<Rightarrow> e | _ \<Rightarrow> []) in
             Some (s\<lparr>sys_writer := rewrite_failed t e (snd (writer_step policy no_failures (MAbortRewrite e) (sys_writer s))),
                     sys_phase := Idle\<rparr>))
    | _ \<Rightarrow> None)"
| "sys_next E path policy (FinishRewrite t io) s = (case sys_phase s of
      TempWritten \<Rightarrow>
        (case writer_step policy io MFinishRewrite (sys_writer s) of
           (Inl e, w) \<Rightarrow> Some (s\<lparr>sys_writer := rewrite_failed t e w, sys_phase := Idle\<rparr>)
         | (Inr _, w) \<Rightarrow> Some (s\<lparr>sys_writer := w\<lparr>w_stats := finish_rewrite_stats t True None (w_stats w)\<rparr>,
                                sys_phase := Idle\<rparr>))
    | _ \<Rightarrow> None)"
| "sys_next E path policy (TableStep t ps) s = Some (s\<lparr>sys_db := (sys_db s)\<lparr>pubsub := ps\<rparr>\<rparr>)"

section \<open>Logs that lead from one content to another\<close>

text \<open>
  The frames \<open>fs\<close>, read back and executed at \<open>later\<close>, lead from any key space with the content of \<open>m\<close>
  to one with the content of \<open>m'\<close>.
\<close>

definition leads :: "u128 \<Rightarrow> frame list \<Rightarrow> keyspace \<Rightarrow> keyspace \<Rightarrow> bool" where
  "leads later fs m m' \<longleftrightarrow> (\<exists>cmds. loads later fs cmds \<and> (\<forall>ord m0. content_eq m0 m \<longrightarrow>
     (\<exists>m1. spec_run ord later cmds m0 = Some m1 \<and> content_eq m1 m')))"

lemma leads_refl: "leads later [] m m"
  by (auto simp: leads_def)

lemma leads_append:
  assumes "leads later fs m m'" "leads later gs m' m''" shows "leads later (fs @ gs) m m''"
proof -
  obtain cmds where c: "loads later fs cmds"
      "\<And>ord m0. content_eq m0 m \<Longrightarrow> \<exists>m1. spec_run ord later cmds m0 = Some m1 \<and> content_eq m1 m'"
    using assms(1) by (auto simp: leads_def)
  obtain cmds' where c': "loads later gs cmds'"
      "\<And>ord m0. content_eq m0 m' \<Longrightarrow> \<exists>m1. spec_run ord later cmds' m0 = Some m1 \<and> content_eq m1 m''"
    using assms(2) by (auto simp: leads_def)
  have "\<exists>m1. spec_run ord later (cmds @ cmds') m0 = Some m1 \<and> content_eq m1 m''" if "content_eq m0 m" for ord m0
    using c(2) [OF that, of ord] c'(2) by (fastforce simp: spec_run_append)
  then show ?thesis using loads_append [OF c(1) c'(1)] by (auto simp: leads_def)
qed

lemma leads_write:
  assumes "is_write cmd" "settled t later cmd" "t \<le> later" "keyspace_ok m"
    "loads later [g] [read_back t later cmd]"
    "fst (spec_apply ord' t cmd m) = Some r" "\<forall>e. r \<noteq> Error e"
  shows "leads later [g] m (snd (spec_apply ord' t cmd m))"
proof -
  have "\<exists>m1. spec_run ord later [read_back t later cmd] m0 = Some m1 \<and>
      content_eq m1 (snd (spec_apply ord' t cmd m))" if "content_eq m0 m" for ord m0
  proof -
    have eq: "spec_apply ord later (read_back t later cmd) m0 = spec_apply ord' t cmd m0"
      using assms(1-3) by (rule spec_apply_later)
    then show ?thesis
      using spec_apply_content [OF assms(1) that, of ord' t] assms(6,7)
      by (auto simp: eq split: prod.splits frame.splits)
  qed
  then show ?thesis using assms(5) unfolding leads_def by blast
qed

text \<open>The same for every instant from \<open>t\<close> to \<open>later\<close>.\<close>

definition leads_in :: "u128 \<Rightarrow> u128 \<Rightarrow> frame list \<Rightarrow> keyspace \<Rightarrow> keyspace \<Rightarrow> bool" where
  "leads_in t later fs m m' \<longleftrightarrow> (\<forall>now. t \<le> now \<longrightarrow> now \<le> later \<longrightarrow> leads now fs m m')"

lemma leads_in_refl: "leads_in t later [] m m"
  by (simp add: leads_in_def leads_refl)

lemma leads_in_append: "leads_in t later fs m m' \<Longrightarrow> leads_in t later gs m' m'' \<Longrightarrow> leads_in t later (fs @ gs) m m''"
  using leads_append by (fastforce simp: leads_in_def)

lemma leads_in_passes: "leads_in t later fs m m' \<Longrightarrow> t \<le> t' \<Longrightarrow> leads_in t' later fs m m'"
  by (auto simp: leads_in_def intro: order_trans)

lemma leads_in_content: "leads_in t later fs m m' \<Longrightarrow> content_eq m' m'' \<Longrightarrow> leads_in t later fs m m''"
  unfolding leads_in_def leads_def by (meson content_eq_trans)

definition log_for :: "u128 \<Rightarrow> u128 \<Rightarrow> bytes \<Rightarrow> keyspace \<Rightarrow> bool" where
  "log_for t later file m \<longleftrightarrow> (\<exists>fs. file = concat (map encode fs) \<and> leads_in t later fs Map.empty m)"

lemma log_for_append: "log_for t later file m \<Longrightarrow> leads_in t later fs m m' \<Longrightarrow> log_for t later (file @ concat (map encode fs)) m'"
  unfolding log_for_def by (metis concat_append leads_in_append map_append)

lemma content_eq_empty: "content_eq m0 Map.empty \<longleftrightarrow> m0 = Map.empty"
  by (auto simp: content_eq_def fun_eq_iff)

lemma log_for_replay:
  assumes "log_for t later file m" "t \<le> now" "now \<le> later" "wire_frame g" "encode g = torn @ q" "q \<noteq> []"
    "concat chunks = file @ torn"
  shows "\<exists>n db. replay E (\<lambda>_ _. now) chunks new_db = (n, db, file) \<and> db_wf (xxh E) db \<and>
    content_eq (db_live (xxh E) now db) m"
proof -
  obtain fs cmds where fs: "file = concat (map encode fs)" "loads now fs cmds"
      "\<And>ord. \<exists>m1. spec_run ord now cmds Map.empty = Some m1 \<and> content_eq m1 m"
    using assms(1-3) by (auto simp: log_for_def leads_in_def leads_def content_eq_empty)
  obtain m1 where m1: "spec_run (hash_iter E) now cmds Map.empty = Some m1" "content_eq m1 m" using fs(3) by blast
  obtain db where db: "run_log E (\<lambda>_ _. now) 0 fs new_db = Some db" "db_wf (xxh E) db" "db_live (xxh E) now db = m1"
    using run_log_spec [OF fs(2) db_wf_new, of E m1 0] m1(1) by (auto simp: db_live_new)
  show ?thesis
    using replay_log [OF loads_wire [OF fs(2)] db(1) assms(4-6), of chunks] assms(7) db(2,3) m1(2) by (auto simp: fs(1))
qed

lemma loads_unique: "loads t fs cmds \<Longrightarrow> loads t fs cmds' \<Longrightarrow> cmds = cmds'"
proof (induction fs arbitrary: cmds cmds')
  case (Cons f fs)
  then show ?case by (cases cmds; cases cmds') (auto simp: loads_def)
qed simp

lemma leads_snapshot:
  assumes "write_snapshot_entries ord c 0 es = Inr fs" "distinct (map fst es)" "\<forall>(k, e) \<in> set es. rewritable later e"
    "keyspace_ok (map_of es)" "\<forall>j. c j 0 \<le> later" "\<forall>hm. mset (ord hm) = mset hm"
    "unat later + unat MAX_EXPIRE_AT_MS < 2 ^ 128"
  shows "leads later fs Map.empty (map_of es)"
proof -
  have live: "\<forall>j e. e \<in> snd ` set es \<longrightarrow> \<not> entry_expired (c j 0) e"
  proof (intro allI impI)
    fix j e assume "e \<in> snd ` set es"
    then have "rewritable later e" using assms(3) by auto
    moreover have "c j 0 \<le> later" using assms(5) by blast
    ultimately show "\<not> entry_expired (c j 0) e" by (auto simp: rewritable_def entry_expired_def split: option.splits)
  qed
  have eq: "Map.empty ++ (map_option canonical \<circ> map_of es) = map_option canonical \<circ> map_of es"
    by (simp add: map_add_def fun_eq_iff split: option.splits)
  have run: "\<exists>cmds. loads later fs cmds \<and> spec_run ord' later cmds Map.empty = Some (map_option canonical \<circ> map_of es)" for ord'
    using snapshot_rebuilt [OF assms(1,2) _ assms(3) live assms(6,7), of Map.empty ord'] by (simp add: eq)
  obtain cmds where cmds: "loads later fs cmds" using run by blast
  have "spec_run ord' later cmds Map.empty = Some (map_option canonical \<circ> map_of es)" for ord'
    using run [of ord'] loads_unique [OF cmds] by auto
  then show ?thesis
    using cmds content_eq_canonical [OF assms(4)] by (auto simp: leads_def content_eq_empty)
qed

lemma rewritable_mono: "rewritable later e \<Longrightarrow> now \<le> later \<Longrightarrow> rewritable now e"
  by (auto simp: rewritable_def split: option.splits)

lemma unat_passes: "unat (later :: u128) + n < b \<Longrightarrow> now \<le> later \<Longrightarrow> unat now + n < b"
  by (simp add: word_le_nat_alt)

lemma leads_in_snapshot:
  assumes "write_snapshot_entries ord c 0 es = Inr fs" "distinct (map fst es)" "\<forall>(k, e) \<in> set es. rewritable later e"
    "keyspace_ok (map_of es)" "\<forall>j. c j 0 \<le> t" "\<forall>hm. mset (ord hm) = mset hm"
    "unat later + unat MAX_EXPIRE_AT_MS < 2 ^ 128"
  shows "leads_in t later fs Map.empty (map_of es)"
  unfolding leads_in_def
proof (intro allI impI)
  fix now assume now: "t \<le> now" "now \<le> later"
  have "\<forall>(k, e) \<in> set es. rewritable now e" using assms(3) rewritable_mono [OF _ now(2)] by fastforce
  moreover have "\<forall>j. c j 0 \<le> now" using assms(5) now(1) order_trans by blast
  ultimately show "leads now fs Map.empty (map_of es)"
    using leads_snapshot [OF assms(1,2) _ assms(4) _ assms(6) unat_passes [OF assms(7) now(2)]] by blast
qed

section \<open>Logs of which the end may be lost\<close>

text \<open>What a key space must satisfy so that a log for it can be used until \<open>later\<close>.\<close>

definition usable :: "u128 \<Rightarrow> keyspace \<Rightarrow> bool" where
  "usable later m \<longleftrightarrow> keyspace_ok m \<and> lasting later m"

text \<open>
  A log for \<open>m\<close> of which a crash leaves at least the first \<open>n\<close> bytes: at each frame behind them, the
  frames before lead to a content from which the frames after it lead to \<open>m\<close>.
\<close>

definition log_since :: "u128 \<Rightarrow> u128 \<Rightarrow> nat \<Rightarrow> bytes \<Rightarrow> keyspace \<Rightarrow> bool" where
  "log_since t later n file m \<longleftrightarrow> (\<exists>fs gs. file = concat (map encode (fs @ gs)) \<and> n = length (concat (map encode fs)) \<and>
     (\<forall>i \<le> length gs. \<exists>m1. leads_in t later (fs @ take i gs) Map.empty m1 \<and> usable later m1 \<and>
        leads_in t later (drop i gs) m1 m))"

lemma log_since_for: "log_since t later n file m \<Longrightarrow> log_for t later file m"
  unfolding log_since_def log_for_def
  by (metis append_take_drop_id append.assoc le_refl leads_in_append)

lemma log_since_all: "log_for t later file m \<Longrightarrow> usable later m \<Longrightarrow> log_since t later (length file) file m"
  unfolding log_since_def log_for_def
  using leads_in_refl by (fastforce intro: exI [of _ "[]"])

lemma log_since_append:
  assumes "log_since t later n file m" "leads_in t later [g] m m'" "usable later m'"
  shows "log_since t later n (file @ encode g) m'"
proof -
  obtain fs gs where l: "file = concat (map encode (fs @ gs))" "n = length (concat (map encode fs))"
      "\<And>i. i \<le> length gs \<Longrightarrow> \<exists>m1. leads_in t later (fs @ take i gs) Map.empty m1 \<and> usable later m1 \<and>
         leads_in t later (drop i gs) m1 m"
    using assms(1) by (auto simp: log_since_def)
  have "leads_in t later (fs @ gs @ [g]) Map.empty m'"
    using l(3) [of "length gs"] leads_in_append [OF _ assms(2)] leads_in_append by fastforce
  have "\<exists>m1. leads_in t later (fs @ take i (gs @ [g])) Map.empty m1 \<and> usable later m1 \<and>
      leads_in t later (drop i (gs @ [g])) m1 m'" if i: "i \<le> length (gs @ [g])" for i
  proof (cases "i \<le> length gs")
    case True
    then obtain m1 where "leads_in t later (fs @ take i gs) Map.empty m1" "usable later m1" "leads_in t later (drop i gs) m1 m"
      using l(3) by blast
    then show ?thesis using True leads_in_append [OF _ assms(2)] by auto
  next
    case False
    then have "i = Suc (length gs)" using i by simp
    moreover obtain m1 where "leads_in t later (fs @ gs) Map.empty m1" "leads_in t later [] m1 m"
      using l(3) [of "length gs"] by auto
    then have "leads_in t later ((fs @ gs) @ [] @ [g]) Map.empty m'"
      using leads_in_append [OF _ leads_in_append [OF _ assms(2)]] by blast
    ultimately show ?thesis using assms(3) leads_in_refl by auto
  qed
  then show ?thesis
    unfolding log_since_def by (intro exI [of _ fs] exI [of _ "gs @ [g]"]) (simp add: l(1,2))
qed

lemma log_since_passes: "log_since t later n file m \<Longrightarrow> t \<le> t' \<Longrightarrow> log_since t' later n file m"
  unfolding log_since_def by (elim exE conjE, intro exI conjI; (assumption)?) (meson leads_in_passes)

text \<open>
  What a crash leaves of such a log, and of a frame that was being appended: a log for an earlier content,
  and the beginning of one frame.
\<close>

lemma torn_frames:
  assumes "list_all wire_frame (gs @ [g])" "encode g = torn @ lost" "lost \<noteq> []"
  shows "\<exists>i torn' g' lost'. i \<le> length gs \<and> take k (concat (map encode gs) @ torn) = concat (map encode (take i gs)) @ torn' \<and>
    wire_frame g' \<and> encode g' = torn' @ lost' \<and> lost' \<noteq> []"
  using assms
proof (induction gs arbitrary: k)
  case Nil
  have "encode g = take k torn @ drop k torn @ lost" using Nil(2) by simp
  then show ?case using Nil by (intro exI [of _ 0] exI [of _ "take k torn"] exI [of _ g] exI [of _ "drop k torn @ lost"]) simp
next
  case (Cons f gs)
  show ?case
  proof (cases "k < length (encode f)")
    case True
    then show ?thesis
      using Cons.prems(1)
      by (intro exI [of _ 0] exI [of _ "take k (encode f)"] exI [of _ f] exI [of _ "drop k (encode f)"]) (simp del: encode.simps)
  next
    case False
    obtain i torn' g' lost' where i: "i \<le> length gs"
        "take (k - length (encode f)) (concat (map encode gs) @ torn) = concat (map encode (take i gs)) @ torn'"
        "wire_frame g'" "encode g' = torn' @ lost'" "lost' \<noteq> []"
      using Cons.IH [of "k - length (encode f)"] Cons.prems by auto
    then show ?thesis
      using False by (intro exI [of _ "Suc i"] exI [of _ torn'] exI [of _ g'] exI [of _ lost']) (simp del: encode.simps)
  qed
qed

lemma leads_in_wire: "leads_in t later fs m m' \<Longrightarrow> t \<le> later \<Longrightarrow> list_all wire_frame fs"
  using loads_wire by (fastforce simp: leads_in_def leads_def list_all_iff)

lemma log_since_cut:
  assumes "log_since t later n file m" "t \<le> later" "n \<le> k" "wire_frame g" "encode g = torn @ lost" "lost \<noteq> []"
  shows "\<exists>kept gs m1 torn' g' lost'. take k (file @ torn) = kept @ torn' \<and> file = kept @ concat (map encode gs) \<and>
    n \<le> length kept \<and> log_for t later kept m1 \<and> usable later m1 \<and> leads_in t later gs m1 m \<and>
    wire_frame g' \<and> encode g' = torn' @ lost' \<and> lost' \<noteq> []"
proof -
  obtain fs gs where l: "file = concat (map encode (fs @ gs))" "n = length (concat (map encode fs))"
      "\<And>i. i \<le> length gs \<Longrightarrow> \<exists>m1. leads_in t later (fs @ take i gs) Map.empty m1 \<and> usable later m1 \<and>
         leads_in t later (drop i gs) m1 m"
    using assms(1) by (auto simp: log_since_def)
  have "list_all wire_frame (gs @ [g])" using l(3) [of 0] leads_in_wire [OF _ assms(2)] assms(4) by fastforce
  from torn_frames [OF this assms(5,6), of "k - n"] obtain i torn' g' lost' where i: "i \<le> length gs"
      "take (k - n) (concat (map encode gs) @ torn) = concat (map encode (take i gs)) @ torn'"
      "wire_frame g'" "encode g' = torn' @ lost'" "lost' \<noteq> []"
    by blast
  obtain m1 where m1: "leads_in t later (fs @ take i gs) Map.empty m1" "usable later m1" "leads_in t later (drop i gs) m1 m"
    using l(3) [OF i(1)] by blast
  let ?kept = "concat (map encode (fs @ take i gs))"
  have "take k (file @ torn) = ?kept @ torn'" using i(2) assms(3) l(2) by (simp add: l(1))
  moreover have "file = ?kept @ concat (map encode (drop i gs))"
    unfolding l(1) by (metis append.assoc append_take_drop_id concat_append map_append)
  moreover have "n \<le> length ?kept" by (simp add: l(2))
  moreover have "log_for t later ?kept m1" using m1(1) unfolding log_for_def by blast
  ultimately show ?thesis using m1(2,3) i(3-5) by blast
qed

section \<open>The invariant of the server\<close>

text \<open>What a run must satisfy for its log to be recoverable at the time \<open>later\<close>.\<close>

fun admissible :: "u128 \<Rightarrow> 'tx sys_event \<Rightarrow> 'tx system \<Rightarrow> bool" where
  "admissible later (ClientRequest t io st f) s \<longleftrightarrow> wire_request t f \<and>
     (case from_frame t f of Inl _ \<Rightarrow> True | Inr cmd \<Rightarrow> settled t later cmd \<and> log_fits t cmd)"
| "admissible later (TakeSnapshot t) s \<longleftrightarrow>
     (\<forall>(k, e) \<in> set (aof_snapshot_entries t (sys_db s)). rewritable later e)"
| "admissible later (WriteTemp t c err) s \<longleftrightarrow> (\<forall>j. c j 0 \<le> t)"
| "admissible later (FinishRewrite t io) s \<longleftrightarrow> io_active_sync io = None \<and> io_metadata io = None"
| "admissible later (SweepTick t) s \<longleftrightarrow> True"
| "admissible later (FsyncTick t io) s \<longleftrightarrow> True"
| "admissible later (TableStep t ps) s \<longleftrightarrow> True"

text \<open>
  The start of the program: the log, if there is one, is replayed into an empty database, and the
  writer is opened on what is left of it.
\<close>

definition boot :: "('tx, 'rx) env \<Rightarrow> (nat \<Rightarrow> clock) \<Rightarrow> bytes list option \<Rightarrow> 'tx db \<times> aof_writer option" where
  "boot E c aof = (case aof of
      None \<Rightarrow> (new_db, None)
    | Some chunks \<Rightarrow> (case replay E c chunks new_db of (applied, db, file) \<Rightarrow> (db, Some (spawn_writer file))))"

text \<open>The environments of a process: a hash map is iterated over in some order of its pairs.\<close>

definition iterates :: "('tx, 'rx) env \<Rightarrow> bool" where
  "iterates E \<longleftrightarrow> (\<forall>hm. mset (hash_iter E hm) = mset hm)"

text \<open>
  The reachable states, over any number of lives of the server. A life starts with a log, at first
  an empty one, and goes on event by event; it may end at any moment, also in the middle of appending a
  frame, of which \<open>torn\<close> has then been written. Of the file a crash leaves some prefix, which has at least the
  bytes that were synced. The next process reads it in any pieces.
\<close>

inductive reachable ::
  "bytes \<Rightarrow> fsync_policy \<Rightarrow> u128 \<Rightarrow> ('tx, 'rx) env \<Rightarrow> u128 \<Rightarrow> 'tx system \<Rightarrow> bool"
  for path policy later where
  first: "iterates E \<Longrightarrow> boot E c (Some []) = (db, Some w) \<Longrightarrow>
    reachable path policy later E 0 \<lparr>sys_db = db, sys_writer = w, sys_phase = Idle\<rparr>"
| step: "reachable path policy later E t s \<Longrightarrow> t \<le> ev_time ev \<Longrightarrow> ev_time ev \<le> later \<Longrightarrow>
    admissible later ev s \<Longrightarrow> sys_next E path policy ev s = Some s' \<Longrightarrow>
    length (w_file (sys_writer s')) < 2 ^ 64 \<Longrightarrow> reachable path policy later E (ev_time ev) s'"
| restart: "reachable path policy later E t s \<Longrightarrow> \<not> si_write_failed (w_stats (sys_writer s)) \<Longrightarrow>
    iterates E' \<Longrightarrow> t \<le> now \<Longrightarrow> now \<le> later \<Longrightarrow> wire_frame g \<Longrightarrow> encode g = torn @ lost \<Longrightarrow> lost \<noteq> [] \<Longrightarrow>
    w_synced (sys_writer s) \<le> k \<Longrightarrow> concat chunks = take k (w_file (sys_writer s) @ torn) \<Longrightarrow> boot E' (\<lambda>_ _. now) (Some chunks) = (db, Some w) \<Longrightarrow>
    reachable path policy later E' now \<lparr>sys_db = db, sys_writer = w, sys_phase = Idle\<rparr>"

text \<open>The database and the log of a state at time \<open>t\<close>.\<close>

definition db_inv :: "(bytes \<Rightarrow> u64) \<Rightarrow> u128 \<Rightarrow> u128 \<Rightarrow> 'tx db \<Rightarrow> bool" where
  "db_inv h t later db \<longleftrightarrow> db_wf h db \<and> keyspace_ok (db_live h t db) \<and> lasting later (db_live h t db)"

definition log_inv :: "u128 \<Rightarrow> u128 \<Rightarrow> aof_writer \<Rightarrow> keyspace \<Rightarrow> bool" where
  "log_inv t later w m \<longleftrightarrow> (\<exists>good junk n. w_file w = good @ junk \<and> log_since t later n good m \<and>
     (\<not> si_write_failed (w_stats w) \<longrightarrow> junk = [] \<and> n = w_synced w))"

lemma log_invD:
  "log_inv t later w m \<Longrightarrow> \<not> si_write_failed (w_stats w) \<Longrightarrow> log_since t later (w_synced w) (w_file w) m"
  by (auto simp: log_inv_def)

lemma log_invI: "log_since t later (w_synced w) (w_file w) m \<Longrightarrow> log_inv t later w m"
  unfolding log_inv_def by (metis append_Nil2)

text \<open>
  The buffer of a rewrite has the frames that were logged since the snapshot was taken; \<open>phase_base\<close>
  is the key space of the snapshot, which the temporary file rebuilds once it is written.
\<close>

definition phase_base :: "u128 \<Rightarrow> u128 \<Rightarrow> rewrite_phase \<Rightarrow> bytes option \<Rightarrow> keyspace \<Rightarrow> bool" where
  "phase_base t later phase temp m0 \<longleftrightarrow> (case phase of
      Snapshotted es \<Rightarrow> m0 = map_of es \<and> distinct (map fst es) \<and> keyspace_ok (map_of es) \<and>
        (\<forall>(k, e) \<in> set es. rewritable later e)
    | TempWritten \<Rightarrow> (case temp of Some file \<Rightarrow> log_for t later file m0 | None \<Rightarrow> False)
    | _ \<Rightarrow> False)"

definition rewrite_inv :: "u128 \<Rightarrow> u128 \<Rightarrow> rewrite_phase \<Rightarrow> aof_writer \<Rightarrow> keyspace \<Rightarrow> bool" where
  "rewrite_inv t later phase w m \<longleftrightarrow> (case w_buffer w of
      None \<Rightarrow> True
    | Some b \<Rightarrow> (\<exists>fs m0. rb_frames b = map encode fs \<and> phase_base t later phase (w_temp w) m0 \<and> leads_in t later fs m0 m))"

definition writer_inv :: "rewrite_phase \<Rightarrow> aof_writer \<Rightarrow> bool" where
  "writer_inv phase w \<longleftrightarrow> writer_ok w \<and> (\<not> si_write_failed (w_stats w) \<longrightarrow> size_ok w) \<and>
     (si_rewrite_in_progress (w_stats w) \<longleftrightarrow> phase \<noteq> Idle)"

definition sys_inv :: "(bytes \<Rightarrow> u64) \<Rightarrow> u128 \<Rightarrow> u128 \<Rightarrow> 'tx system \<Rightarrow> bool" where
  "sys_inv h t later s \<longleftrightarrow> db_inv h t later (sys_db s) \<and> writer_inv (sys_phase s) (sys_writer s) \<and>
     log_inv t later (sys_writer s) (db_live h t (sys_db s)) \<and>
     rewrite_inv t later (sys_phase s) (sys_writer s) (db_live h t (sys_db s))"

lemma keyspace_ok_empty: "keyspace_ok Map.empty"
  by (simp add: keyspace_ok_def)

lemma log_for_passes: "log_for t later file m \<Longrightarrow> t \<le> t' \<Longrightarrow> log_for t' later file m"
  unfolding log_for_def using leads_in_passes by blast

text \<open>A process that starts on a log for the content \<open>m\<close> has that content.\<close>

lemma boot_inv:
  assumes "boot E (\<lambda>_ _. now) (Some chunks) = (db, Some w)" "log_for t later file m" "t \<le> now" "now \<le> later"
    "wire_frame g" "encode g = torn @ lost" "lost \<noteq> []" "concat chunks = file @ torn" "length file < 2 ^ 64"
    "usable later m"
  shows "sys_inv (xxh E) now later \<lparr>sys_db = db, sys_writer = w, sys_phase = Idle\<rparr>"
proof -
  let ?m = "db_live (xxh E) now db"
  have db: "db_wf (xxh E) db" "content_eq ?m m" "w = spawn_writer file"
    using log_for_replay [OF assms(2-8), of E] assms(1) by (auto simp: boot_def)
  have u: "usable later ?m"
    using content_eq_keyspace_ok [OF db(2)] content_eq_lasting [OF db(2)] assms(10) by (simp add: usable_def)
  have "log_for now later file ?m"
    using log_for_passes [OF assms(2,3)] leads_in_content content_eq_sym [OF db(2)] unfolding log_for_def by blast
  then have "log_inv now later w ?m" using log_since_all [OF _ u] by (intro log_invI) (simp add: db(3) spawn_writer_def)
  moreover have "db_inv (xxh E) now later db" using u db(1) by (simp add: db_inv_def usable_def)
  ultimately show ?thesis
    using assms(9)
    by (simp add: sys_inv_def db(3) spawn_writer_def writer_inv_def writer_ok_def size_ok_def default_stats_def rewrite_inv_def)
qed

lemma replay_nothing: "replay E c [] db = (0, db, [])"
  using replay_log [of "[]" E c db db "Simple []" "[]" "encode (Simple [])" "[]"] by (simp add: eval_limits)

text \<open>The start after a crash that has left the prefix \<open>take k\<close> of the file.\<close>

lemma crash_inv:
  assumes "boot E (\<lambda>_ _. now) (Some chunks) = (db, Some w)" "log_since t later n file m" "t \<le> now" "now \<le> later"
    "wire_frame g" "encode g = torn @ lost" "lost \<noteq> []" "n \<le> k" "concat chunks = take k (file @ torn)" "length file < 2 ^ 64"
  shows "sys_inv (xxh E) now later \<lparr>sys_db = db, sys_writer = w, sys_phase = Idle\<rparr>" "length (w_file w) < 2 ^ 64"
    "\<exists>file. w = spawn_writer file"
proof -
  have "t \<le> later" using assms(3,4) by simp
  from log_since_cut [OF assms(2) this assms(8,5-7)] obtain kept gs m1 torn' g' lost' where c:
      "take k (file @ torn) = kept @ torn'" "file = kept @ concat (map encode gs)" "log_for t later kept m1" "usable later m1"
      "wire_frame g'" "encode g' = torn' @ lost'" "lost' \<noteq> []"
    by blast
  have chunks: "concat chunks = kept @ torn'" using assms(9) c(1) by simp
  have len: "length kept < 2 ^ 64" using assms(10) by (simp add: c(2))
  show "sys_inv (xxh E) now later \<lparr>sys_db = db, sys_writer = w, sys_phase = Idle\<rparr>"
    by (rule boot_inv [OF assms(1) c(3) assms(3,4) c(5-7) chunks len c(4)])
  have "w = spawn_writer kept"
    using log_for_replay [OF c(3) assms(3,4) c(5-7) chunks, of E] assms(1) by (auto simp: boot_def)
  then show "length (w_file w) < 2 ^ 64" "\<exists>file. w = spawn_writer file" using len by (auto simp: spawn_writer_def)
qed

lemma boot_first_inv:
  assumes "boot E c (Some []) = (db, Some w)"
  shows "sys_inv (xxh E) 0 later \<lparr>sys_db = db, sys_writer = w, sys_phase = Idle\<rparr>"
proof -
  have b: "db = new_db" "w = spawn_writer []" using assms by (auto simp: boot_def replay_nothing)
  have u: "usable later Map.empty" by (simp add: usable_def keyspace_ok_empty lasting_def)
  have "log_for 0 later [] Map.empty" using leads_in_refl by (auto simp: log_for_def intro!: exI [of _ "[]"])
  from log_since_all [OF this u] have "log_inv 0 later w Map.empty" by (intro log_invI) (simp add: b(2) spawn_writer_def)
  then show ?thesis
    using u by (auto simp: b sys_inv_def db_inv_def usable_def db_wf_new db_live_new
        writer_inv_def spawn_writer_def writer_ok_def size_ok_def default_stats_def rewrite_inv_def)
qed

text \<open>Time that passes does not change the key space.\<close>

lemma db_live_passes: "db_inv h t later db \<Longrightarrow> t \<le> t' \<Longrightarrow> t' \<le> later \<Longrightarrow> db_live h t' db = db_live h t db"
  by (rule lasting_live) (simp_all add: db_inv_def)

lemma log_inv_passes: "log_inv t later w m \<Longrightarrow> t \<le> t' \<Longrightarrow> log_inv t' later w m"
  unfolding log_inv_def using log_since_passes by blast

lemma rewrite_inv_passes:
  assumes "rewrite_inv t later phase w m" "t \<le> t'" shows "rewrite_inv t' later phase w m"
proof (cases "w_buffer w")
  case (Some b)
  with assms(1) obtain fs m0 where fs: "rb_frames b = map encode fs" "phase_base t later phase (w_temp w) m0"
      "leads_in t later fs m0 m"
    by (auto simp: rewrite_inv_def)
  have "phase_base t' later phase (w_temp w) m0"
    using fs(2) log_for_passes [OF _ assms(2)] by (auto simp: phase_base_def split: rewrite_phase.splits option.splits)
  with Some fs leads_in_passes [OF fs(3) assms(2)] show ?thesis by (auto simp: rewrite_inv_def)
qed (simp add: rewrite_inv_def)

lemma sys_inv_passes: "sys_inv h t later s \<Longrightarrow> t \<le> t' \<Longrightarrow> t' \<le> later \<Longrightarrow> sys_inv h t' later s"
  using db_live_passes [of h t later "sys_db s" t'] by (auto simp: sys_inv_def db_inv_def intro: log_inv_passes rewrite_inv_passes)

section \<open>Every event keeps the invariant\<close>

lemma log_call_cases:
  assumes "handle_request E t t (\<lambda>_. t) (Some (aof_handle_of path policy io w)) st f db = (replies, step, db', logged)"
  shows "case log_call E t f db of
      None \<Rightarrow> logged = None
    | Some g \<Rightarrow> logged = (case fst (handle_write policy io g w) of Inr _ \<Rightarrow> Some g | Inl _ \<Rightarrow> None)"
proof -
  let ?w = "\<lambda>f. fst (handle_write policy io f w)"
  have ex: "case log_call E t f db of
      None \<Rightarrow> logged = None
    | Some g \<Rightarrow> logged = (case ?w g of Inr _ \<Rightarrow> Some g | Inl _ \<Rightarrow> None)"
    if "from_frame t f = Inr cmd" "execute E t (\<lambda>_. t) (Some ?w) cmd db = (r, db', logged)" for cmd r
  proof (cases "is_write cmd")
    case True
    obtain r1 db1 where a: "apply_cmd E (\<lambda>_. t) cmd db = (r1, db1)" by force
    obtain g where g: "aof_frame t cmd = Some g" using True aof_frame_is_write by blast
    have lc: "log_call E t f db = (if \<exists>m. r1 = Error m then None else Some g)"
      using that(1) True a g by (cases r1) (simp_all add: log_call_def)
    show ?thesis
      using that(2) execute_cases [OF True a g, of ?w] by (auto simp: lc split: if_splits sum.splits)
  next
    case False
    then show ?thesis using that by (auto simp: execute_read log_call_def split: prod.splits)
  qed
  show ?thesis
  proof (cases "from_frame t f")
    case (Inl e)
    then show ?thesis using assms by (auto simp: handle_request_def log_call_def split: prod.splits)
  next
    case (Inr cmd)
    then show ?thesis
      using assms ex [OF Inr]
      by (cases cmd) (auto simp: handle_request_def aof_handle_of_def log_call_def split: prod.splits option.splits)
  qed
qed

lemma log_inv_cong: "w_file w' = w_file w \<Longrightarrow> w_synced w' = w_synced w \<Longrightarrow>
   si_write_failed (w_stats w) \<longrightarrow> si_write_failed (w_stats w') \<Longrightarrow> log_inv t later w m \<Longrightarrow> log_inv t later w' m"
  by (auto simp: log_inv_def)

lemma rewrite_invI:
  "w_buffer w = Some b \<Longrightarrow> rb_frames b = map encode fs \<Longrightarrow> phase_base t later phase (w_temp w) m0 \<Longrightarrow>
   leads_in t later fs m0 m \<Longrightarrow> rewrite_inv t later phase w m"
  by (auto simp: rewrite_inv_def)

lemma rewrite_inv_cong:
  "w_temp w' = w_temp w \<Longrightarrow> w_buffer w' = w_buffer w \<Longrightarrow> rewrite_inv t later phase w m \<Longrightarrow> rewrite_inv t later phase w' m"
  by (cases "w_buffer w") (simp_all add: rewrite_inv_def)

text \<open>A frame that is logged leads from the key space before to the one after.\<close>

lemma settled_mono: "settled t later cmd \<Longrightarrow> now \<le> later \<Longrightarrow> settled t now cmd"
  by (cases "(t, later, cmd)" rule: settled.cases) auto

text \<open>The frame of a settled command does not depend on when it was built.\<close>

lemma settled_read_back: "settled t later cmd \<Longrightarrow> read_back logged now cmd = read_back t now cmd"
  by (cases "(logged, now, cmd)" rule: read_back.cases) auto

lemma logged_leads:
  assumes "db_inv (xxh E) t later db" "t \<le> later" "unat later + unat MAX_EXPIRE_AT_MS < 2 ^ 128"
    "settled t later cmd" "command_wf cmd" "is_write cmd" "aof_frame logged cmd = Some g" "wire_frame g"
    "\<forall>m. r \<noteq> Error m" "apply_cmd E (\<lambda>_. t) cmd db = (r, db')"
  shows "leads_in t later [g] (db_live (xxh E) t db) (db_live (xxh E) t db')" "db_inv (xxh E) t later db'"
proof -
  let ?m = "db_live (xxh E) t db"
  have wf: "db_wf (xxh E) db" "keyspace_ok ?m" "lasting later ?m" using assms(1) by (simp_all add: db_inv_def)
  have i: "db_live (xxh E) t db' = snd (spec_apply (hash_iter E) t cmd ?m)"
      "fst (spec_apply (hash_iter E) t cmd ?m) = Some r"
    using apply_refines [OF wf(1), of t cmd] spec_apply_write_reply [OF assms(6), of "hash_iter E" t ?m] assms(10)
    by (auto simp: implements_def)
  have "leads now [g] ?m (db_live (xxh E) t db')" if now: "t \<le> now" "now \<le> later" for now
  proof -
    have "from_frame now g = Inr (read_back logged now cmd)"
      by (rule read_back_ok [OF assms(5,7) unat_passes [OF assms(3) now(2)]])
    then have "loads now [g] [read_back t now cmd]" using assms(8) settled_read_back [OF assms(4)] by simp
    from leads_write [OF assms(6) settled_mono [OF assms(4) now(2)] now(1) wf(2) this i(2) assms(9)]
    show ?thesis by (simp add: i(1))
  qed
  then show "leads_in t later [g] ?m (db_live (xxh E) t db')" by (simp add: leads_in_def)
  have "db_wf (xxh E) db'" using apply_keeps [OF wf(1), of cmd "\<lambda>_. t"] assms(10) by (simp add: keeps_def)
  then show "db_inv (xxh E) t later db'"
    using spec_apply_keyspace_ok [OF wf(2) assms(5)] spec_apply_lasting [OF wf(3) assms(4)]
    by (simp add: db_inv_def i(1))
qed

lemma writer_ack_inv:
  assumes "handle_write policy io g w = (Inr u, w')" "writer_inv phase w" "log_inv t later w m" "rewrite_inv t later phase w m"
    "leads_in t later [g] m m'" "usable later m'" "length (w_file w') < 2 ^ 64"
  shows "writer_inv phase w' \<and> log_inv t later w' m' \<and> rewrite_inv t later phase w' m'"
proof -
  have st: "writer_step policy io (MWrite (encode g)) w = (Inr (), w')" "writer_ok w"
    using assms(1,2) by (auto simp: handle_write_def writer_inv_def split: if_splits)
  note a = write_ack [OF st]
  have "size_ok w" using assms(2) a(1) by (simp add: writer_inv_def)
  then have "writer_inv phase w'" using assms(2,7) a by (simp add: writer_inv_def)
  moreover have "log_since t later (w_synced w) (w_file w') m'"
    using log_since_append [OF log_invD [OF assms(3) a(1)] assms(5,6)] by (simp add: a(3))
  then have "log_inv t later w' m'"
    using a(9) log_since_all [OF log_since_for assms(6)] by (intro log_invI) metis
  moreover have "rewrite_inv t later phase w' m'"
  proof (cases "w_buffer w'")
    case (Some b')
    then obtain b where b: "w_buffer w = Some b" "rb_frames b' = rb_frames b @ [encode g]" using a(8) by auto
    then obtain fs m0 where fs: "rb_frames b = map encode fs" "phase_base t later phase (w_temp w) m0" "leads_in t later fs m0 m"
      using assms(4) by (auto simp: rewrite_inv_def)
    then have "rb_frames b' = map encode (fs @ [g])" "leads_in t later (fs @ [g]) m0 m'"
      using b(2) leads_in_append [OF fs(3) assms(5)] by simp_all
    then show ?thesis using Some fs(2) by (intro rewrite_invI [of w' b']) (simp_all add: a(4))
  qed (simp add: rewrite_inv_def)
  ultimately show ?thesis by blast
qed

lemma writer_nack_inv:
  assumes "handle_write policy io g w = (Inl e, w')" "writer_inv phase w" "log_inv t later w m" "rewrite_inv t later phase w m"
  shows "writer_inv phase w' \<and> log_inv t later w' m \<and> rewrite_inv t later phase w' m"
proof (cases "si_write_failed (w_stats w)")
  case True
  then show ?thesis using assms by (simp add: handle_write_def)
next
  case False
  then have st: "writer_step policy io (MWrite (encode g)) w = (Inl e, w')" "size_ok w"
    using assms(1,2) by (auto simp: handle_write_def writer_inv_def)
  note a = write_nack [OF st]
  have "writer_inv phase w'" using assms(2) a(3,5,6) by (simp add: writer_inv_def writer_ok_def)
  moreover have "log_inv t later w' m" using log_invD [OF assms(3) False] a(1,3) by (auto simp: log_inv_def)
  moreover have "rewrite_inv t later phase w' m" using a(4,5) assms(4) by (rule rewrite_inv_cong)
  ultimately show ?thesis by blast
qed

lemma begin_rewrite_inv:
  assumes "writer_inv phase w" "log_inv t later w m" "rewrite_inv t later phase w m"
  shows "writer_inv (if fst (begin_rewrite w) = Inr () then Scheduled else phase) (snd (begin_rewrite w)) \<and>
    log_inv t later (snd (begin_rewrite w)) m \<and>
    rewrite_inv t later (if fst (begin_rewrite w) = Inr () then Scheduled else phase) (snd (begin_rewrite w)) m"
proof (cases "si_rewrite_in_progress (w_stats w)")
  case True
  then show ?thesis using assms by (simp add: begin_rewrite_def)
next
  case False
  then have "phase = Idle" using assms(1) by (simp add: writer_inv_def)
  then have "w_buffer w = None" using assms(3) by (auto simp: rewrite_inv_def phase_base_def split: option.splits)
  with False assms(1,2) show ?thesis
    by (auto simp: begin_rewrite_def writer_inv_def writer_ok_def size_ok_def log_inv_def rewrite_inv_def)
qed

lemma db_inv_same:
  "db_inv h t later db \<Longrightarrow> db_wf h db' \<Longrightarrow> db_live h t db' = db_live h t db \<Longrightarrow> db_inv h t later db'"
  by (simp add: db_inv_def)

lemma request_inv:
  assumes inv: "sys_inv (xxh E) t later s" and t: "t \<le> later" "unat later + unat MAX_EXPIRE_AT_MS < 2 ^ 128"
    and adm: "admissible later (ClientRequest t io st f) s"
    and nxt: "sys_next E path policy (ClientRequest t io st f) s = Some s'"
    and len: "length (w_file (sys_writer s')) < 2 ^ 64"
  shows "sys_inv (xxh E) t later s'"
proof -
  let ?db = "sys_db s" and ?w = "sys_writer s" and ?phase = "sys_phase s"
  obtain replies step db' logged where
    h: "handle_request E t t (\<lambda>_. t) (Some (aof_handle_of path policy io ?w)) st f ?db = (replies, step, db', logged)"
    by (metis prod_cases4)
  have i: "db_inv (xxh E) t later ?db" "writer_inv ?phase ?w" "log_inv t later ?w (db_live (xxh E) t ?db)"
      "rewrite_inv t later ?phase ?w (db_live (xxh E) t ?db)"
    using inv by (simp_all add: sys_inv_def)
  have wf: "db_wf (xxh E) ?db" "wire_request t f" using i(1) adm by (simp_all add: db_inv_def)
  have wf': "db_wf (xxh E) db'" using handle_request_wf [OF wf(1)] h by (metis fst_conv snd_conv)
  note cases = request_cases [OF wf h] and call = log_call_cases [OF h]
  show ?thesis
  proof (cases "from_frame t f = Inr BgRewriteAof")
    case True
    then have "log_call E t f ?db = None" by (simp add: log_call_def)
    then have "db_live (xxh E) t db' = db_live (xxh E) t ?db" using call cases by simp
    then show ?thesis
      using nxt h True begin_rewrite_inv [OF i(2-4)] db_inv_same [OF i(1) wf']
      by (auto simp: sys_inv_def request_writer_def)
  next
    case False
    then have s': "sys_db s' = db'" "sys_phase s' = ?phase"
        "sys_writer s' = (case log_call E t f ?db of Some g \<Rightarrow> snd (handle_write policy io g ?w) | None \<Rightarrow> ?w)"
      using nxt h by (auto simp: request_writer_def)
    show ?thesis
    proof (cases "log_call E t f ?db")
      case None
      then have "db_live (xxh E) t db' = db_live (xxh E) t ?db" using call cases by simp
      then show ?thesis using s' i None db_inv_same [OF i(1) wf'] by (simp add: sys_inv_def)
    next
      case (Some g)
      obtain r w' where w': "handle_write policy io g ?w = (r, w')" by force
      show ?thesis
      proof (cases r)
        case (Inl e)
        then have "db_live (xxh E) t db' = db_live (xxh E) t ?db" using call cases Some w' by simp
        moreover have "writer_inv ?phase w' \<and> log_inv t later w' (db_live (xxh E) t ?db) \<and>
            rewrite_inv t later ?phase w' (db_live (xxh E) t ?db)"
          by (rule writer_nack_inv [OF w' [unfolded Inl] i(2-4)])
        ultimately show ?thesis using s' Some w' db_inv_same [OF i(1) wf'] by (simp add: sys_inv_def)
      next
        case (Inr u)
        then obtain cmd r1 where c: "from_frame t f = Inr cmd" "is_write cmd" "aof_frame t cmd = Some g"
            "\<forall>m. r1 \<noteq> Error m" "apply_cmd E (\<lambda>_. t) cmd ?db = (r1, db')"
          using call cases Some w' by auto
        have "settled t later cmd" "wire_frame g"
          using adm c(1) log_fits_wire [OF wf(2) c(1) _ c(3)] by simp_all
        note l = logged_leads [OF i(1) t this(1) from_frame_wf [OF c(1)] c(2,3) this(2) c(4,5)]
        have "length (w_file w') < 2 ^ 64" using len s'(3) Some w' by simp
        moreover have "usable later (db_live (xxh E) t db')" using l(2) by (simp add: db_inv_def usable_def)
        ultimately show ?thesis using writer_ack_inv [OF w' [unfolded Inr] i(2-4) l(1)] l(2) s' Some w'
          by (simp add: sys_inv_def)
      qed
    qed
  qed
qed

lemma sweep_inv:
  assumes "sys_inv h t later s" shows "sys_inv h t later (s\<lparr>sys_db := sweep_once t (sys_db s)\<rparr>)"
proof -
  have wf: "db_wf h (sys_db s)" using assms by (simp add: sys_inv_def db_inv_def)
  have "db_live h t (sweep_once t (sys_db s)) = db_live h t (sys_db s)"
    using db_at_sweep [OF wf, of t] live_later [of t t] by (simp add: db_live_def fun_eq_iff)
  then show ?thesis using assms db_wf_sweep [OF wf, of t] by (simp add: sys_inv_def db_inv_def)
qed

lemma table_live [simp]: "db_live h t (db\<lparr>pubsub := ps\<rparr>) = db_live h t db"
  by (rule db_live_shards) simp

lemma table_wf [simp]: "db_wf h (db\<lparr>pubsub := ps\<rparr>) = db_wf h db"
  by (rule db_wf_cong) simp

lemma table_inv:
  assumes "sys_inv h t later s" shows "sys_inv h t later (s\<lparr>sys_db := (sys_db s)\<lparr>pubsub := ps\<rparr>\<rparr>)"
  using assms by (simp add: sys_inv_def db_inv_def)

lemma tick_inv:
  assumes "sys_inv h t later s" shows "sys_inv h t later (s\<lparr>sys_writer := writer_tick io (sys_writer s)\<rparr>)"
proof -
  let ?w = "sys_writer s" and ?m = "db_live h t (sys_db s)"
  have "usable later ?m" using assms by (simp add: sys_inv_def db_inv_def usable_def)
  then have synced: "log_inv t later ?w ?m \<Longrightarrow> log_inv t later (?w\<lparr>w_synced := length (w_file ?w)\<rparr>) ?m"
    using log_since_all [OF log_since_for, of t later _ "w_file ?w" ?m] by (cases "si_write_failed (w_stats ?w)") (auto simp: log_inv_def)
  from tick_cases [of io ?w] show ?thesis
  proof (elim disjE exE)
    assume "writer_tick io ?w = ?w\<lparr>w_synced := length (w_file ?w)\<rparr>"
    then show ?thesis
      using assms synced
      by (simp add: sys_inv_def writer_inv_def writer_ok_def size_ok_def rewrite_inv_cong [of _ ?w])
  next
    fix e assume "writer_tick io ?w = ?w\<lparr>w_stats := mark_write_failed e (w_stats ?w)\<rparr>"
    then show ?thesis
      using assms by (auto simp: sys_inv_def writer_inv_def writer_ok_def size_ok_def log_inv_def mark_write_failed_def
          rewrite_inv_cong [of _ ?w])
  qed
qed

lemma not_rewriting: "rewrite_inv t later phase w m \<Longrightarrow> phase = Idle \<or> phase = Scheduled \<Longrightarrow> w_buffer w = None"
  by (auto simp: rewrite_inv_def phase_base_def split: option.splits)

lemma snapshot_inv:
  assumes inv: "sys_inv (xxh E) t later s" and adm: "admissible later (TakeSnapshot t) s"
    and nxt: "sys_next E path policy (TakeSnapshot t) s = Some s'"
  shows "sys_inv (xxh E) t later s'"
proof -
  let ?es = "aof_snapshot_entries t (sys_db s)" and ?m = "db_live (xxh E) t (sys_db s)"
  have phase: "sys_phase s = Scheduled" using nxt by (simp split: rewrite_phase.splits)
  have wf: "db_wf (xxh E) (sys_db s)" "keyspace_ok ?m" using inv by (simp_all add: sys_inv_def db_inv_def)
  have "w_buffer (sys_writer s) = None" using inv phase not_rewriting by (auto simp: sys_inv_def)
  then have s': "s' = s\<lparr>sys_writer := (sys_writer s)\<lparr>w_buffer := Some rewrite_buffer_new\<rparr>, sys_phase := Snapshotted ?es\<rparr>"
    using nxt phase by simp
  have "map_of ?es = ?m" by (rule map_of_aof_snapshot [OF wf(1)])
  then have "phase_base t later (Snapshotted ?es) (w_temp (sys_writer s)) ?m"
    using distinct_snapshot [OF wf(1)] wf(2) adm by (simp add: phase_base_def)
  then have "rewrite_inv t later (Snapshotted ?es) ((sys_writer s)\<lparr>w_buffer := Some rewrite_buffer_new\<rparr>) ?m"
    using leads_in_refl by (intro rewrite_invI [of _ rewrite_buffer_new "[]"]) (simp_all add: rewrite_buffer_new_def)
  then show ?thesis
    using inv phase
    by (auto simp: s' sys_inv_def writer_inv_def writer_ok_def buffer_ok_def rewrite_buffer_new_def size_ok_def log_inv_def)
qed

text \<open>The end of a rewrite that leaves the log alone.\<close>

lemma rewrite_ends:
  assumes "sys_inv h t later s" "w_file w = w_file (sys_writer s)" "w_synced w = w_synced (sys_writer s)" "w_buffer w = None"
    "si_write_failed (w_stats w) = si_write_failed (w_stats (sys_writer s))"
    "si_current_size (w_stats w) = si_current_size (w_stats (sys_writer s))" "\<not> si_rewrite_in_progress (w_stats w)"
  shows "sys_inv h t later (s\<lparr>sys_writer := w, sys_phase := Idle\<rparr>)"
  using assms by (auto simp: sys_inv_def writer_inv_def writer_ok_def size_ok_def log_inv_def rewrite_inv_def)

lemma write_temp_inv:
  assumes inv: "sys_inv (xxh E) t later s" and adm: "admissible later (WriteTemp t c err) s"
    and ord: "\<forall>hm. mset (hash_iter E hm) = mset hm" and later: "unat later + unat MAX_EXPIRE_AT_MS < 2 ^ 128"
    and nxt: "sys_next E path policy (WriteTemp t c err) s = Some s'"
  shows "sys_inv (xxh E) t later s'"
proof -
  let ?w = "sys_writer s" and ?m = "db_live (xxh E) t (sys_db s)"
  obtain es where phase: "sys_phase s = Snapshotted es" using nxt by (auto split: rewrite_phase.splits)
  show ?thesis
  proof (cases "\<exists>fs. write_snapshot_entries (hash_iter E) c 0 es = Inr fs \<and> err = None")
    case True
    then obtain fs where fs: "write_snapshot_entries (hash_iter E) c 0 es = Inr fs" "err = None" by blast
    let ?w' = "?w\<lparr>w_temp := Some (concat (map encode fs))\<rparr>"
    have s': "s' = s\<lparr>sys_writer := ?w', sys_phase := TempWritten\<rparr>" using nxt phase fs by simp
    have "rewrite_inv t later TempWritten ?w' ?m"
    proof (cases "w_buffer ?w")
      case None
      then show ?thesis by (simp add: rewrite_inv_def)
    next
      case (Some b)
      then obtain gs where b: "rb_frames b = map encode gs" "distinct (map fst es)" "keyspace_ok (map_of es)"
          "\<forall>(k, e) \<in> set es. rewritable later e" "leads_in t later gs (map_of es) ?m"
        using inv phase by (auto simp: sys_inv_def rewrite_inv_def phase_base_def)
      have "leads_in t later fs Map.empty (map_of es)"
        using adm by (intro leads_in_snapshot [OF fs(1) b(2,4,3) _ ord later]) simp
      then have "log_for t later (concat (map encode fs)) (map_of es)" by (auto simp: log_for_def)
      then show ?thesis using Some b(1,5) by (intro rewrite_invI) (simp_all add: phase_base_def)
    qed
    then show ?thesis
      using inv phase by (auto simp: s' sys_inv_def writer_inv_def writer_ok_def size_ok_def log_inv_def)
  next
    case False
    then obtain e where "s' = s\<lparr>sys_writer := rewrite_failed t e
        (?w\<lparr>w_buffer := None, w_stats := (w_stats ?w)\<lparr>si_last_error := Some e\<rparr>\<rparr>), sys_phase := Idle\<rparr>"
      using nxt phase by (auto simp: Let_def split: sum.splits option.splits)
    then show ?thesis
      using rewrite_ends [OF inv] by (simp add: rewrite_failed_def finish_rewrite_stats_def)
  qed
qed

lemma finish_inv:
  assumes inv: "sys_inv (xxh E) t later s" and adm: "admissible later (FinishRewrite t io) s"
    and nxt: "sys_next E path policy (FinishRewrite t io) s = Some s'"
    and len: "length (w_file (sys_writer s')) < 2 ^ 64"
  shows "sys_inv (xxh E) t later s'"
proof -
  let ?w = "sys_writer s" and ?m = "db_live (xxh E) t (sys_db s)"
  have phase: "sys_phase s = TempWritten" using nxt by (simp split: rewrite_phase.splits)
  obtain r w1 where f: "finish_rewrite_file policy io ?w = (r, w1)" by force
  define w2 where "w2 = sys_writer s'"
  have s': "s' = s\<lparr>sys_writer := w2, sys_phase := Idle\<rparr>" and w2: "w_file w2 = w_file w1" "w_synced w2 = w_synced w1" "w_buffer w2 = w_buffer w1"
      "si_write_failed (w_stats w2) = si_write_failed (w_stats w1)"
      "si_current_size (w_stats w2) = si_current_size (w_stats w1)" "\<not> si_rewrite_in_progress (w_stats w2)"
    using nxt phase f by (cases r; auto simp: w2_def rewrite_failed_def finish_rewrite_stats_def)+
  note c = finish_cases [OF f]
  from c(4) show ?thesis
  proof (elim disjE exE conjE)
    assume "w_file w1 = w_file ?w" "w_synced w1 = w_synced ?w" "si_current_size (w_stats w1) = si_current_size (w_stats ?w)"
    then show ?thesis using rewrite_ends [OF inv, of w2] w2 c(1,2) by (simp add: s')
  next
    fix b temp assume b: "w_buffer ?w = Some b" "w_temp ?w = Some temp" "w_file w1 = temp @ concat (rb_frames b)"
        "w_synced w1 = length (w_file w1)"
    then obtain fs m0 where fs: "rb_frames b = map encode fs" "log_for t later temp m0" "leads_in t later fs m0 ?m"
      using inv phase by (auto simp: sys_inv_def rewrite_inv_def phase_base_def)
    have "log_for t later (w_file w2) ?m" using log_for_append [OF fs(2,3)] by (simp add: w2(1) b(3) fs(1))
    moreover have "usable later ?m" using inv by (simp add: sys_inv_def db_inv_def usable_def)
    ultimately have "log_inv t later w2 ?m" using log_since_all by (intro log_invI) (metis b(4) w2(1,2))
    moreover have "\<not> si_write_failed (w_stats w2) \<longrightarrow> size_ok w2"
      using inv c(2,5) adm len w2 by (auto simp: s' sys_inv_def writer_inv_def size_ok_def)
    ultimately show ?thesis
      using inv w2 c(1) by (simp add: s' sys_inv_def writer_inv_def writer_ok_def rewrite_inv_def)
  qed
qed

section \<open>Reachable states\<close>

lemma sys_next_inv:
  assumes "sys_inv (xxh E) t later s" "t = ev_time ev" "t \<le> later" "admissible later ev s"
    "sys_next E path policy ev s = Some s'" "length (w_file (sys_writer s')) < 2 ^ 64"
    "\<forall>hm. mset (hash_iter E hm) = mset hm" "unat later + unat MAX_EXPIRE_AT_MS < 2 ^ 128"
  shows "sys_inv (xxh E) t later s'"
proof (cases ev)
  case (ClientRequest t' io st f)
  then show ?thesis using assms request_inv [of E t later s io st f path policy s'] by simp
next
  case (SweepTick t')
  then show ?thesis using assms sweep_inv [of "xxh E" t later s] by simp
next
  case (FsyncTick t' io)
  then show ?thesis using assms tick_inv [of "xxh E" t later s io] by (auto split: if_splits)
next
  case (TakeSnapshot t')
  then show ?thesis using assms snapshot_inv [of E t later s path policy s'] by simp
next
  case (WriteTemp t' c err)
  then show ?thesis using assms write_temp_inv [of E t later s c err path policy s'] by simp
next
  case (FinishRewrite t' io)
  then show ?thesis using assms finish_inv [of E t later s io path policy s'] by simp
next
  case (TableStep t' ps)
  then show ?thesis using assms table_inv [of "xxh E" t later s ps] by auto
qed

lemma reachable_inv:
  assumes "reachable path policy later E t s" "unat later + unat MAX_EXPIRE_AT_MS < 2 ^ 128"
  shows "sys_inv (xxh E) t later s \<and> t \<le> later \<and> iterates E \<and> length (w_file (sys_writer s)) < 2 ^ 64"
  using assms(1)
proof (induction rule: reachable.induct)
  case (first E c db w)
  moreover have "w_file w = []" using first(2) by (auto simp: boot_def replay_nothing spawn_writer_def)
  ultimately show ?case using boot_first_inv by auto
next
  case (step E t s ev s')
  then have "sys_inv (xxh E) (ev_time ev) later s" "iterates E" using sys_inv_passes by blast+
  from sys_next_inv [OF this(1) refl step.hyps(3,4,5,6) _ assms(2)] this(2) step.hyps(3,6) show ?case
    by (simp add: iterates_def)
next
  case (restart E t s E' now g torn lost k chunks db w)
  have "log_since t later (w_synced (sys_writer s)) (w_file (sys_writer s)) (db_live (xxh E) t (sys_db s))"
    using restart.IH restart.hyps(2) by (simp add: sys_inv_def log_invD)
  from crash_inv [OF restart.hyps(11) this restart.hyps(4-10)] restart.IH restart.hyps(3,5) show ?case by simp
qed

text \<open>With the policy \<open>always\<close> no part of the file is at risk.\<close>

lemma sys_next_synced:
  assumes "synced_inv policy (sys_writer s)" "sys_next E path policy ev s = Some s'"
  shows "synced_inv policy (sys_writer s')"
proof (cases ev)
  case (ClientRequest t io st f)
  then have "sys_writer s' = request_writer E policy t io f (sys_db s) (sys_writer s)"
    using assms(2) by (auto split: prod.splits)
  moreover have "synced_inv policy (snd (handle_write policy io g (sys_writer s)))" for g
    using synced_inv_write [OF assms(1)] by (metis surjective_pairing)
  ultimately show ?thesis
    using synced_inv_begin [OF assms(1)] assms(1) by (auto simp: request_writer_def split: option.splits)
next
  case (FsyncTick t io)
  then show ?thesis using assms synced_inv_tick by (auto split: if_splits)
next
  case (FinishRewrite t io)
  obtain r w where w: "writer_step policy io MFinishRewrite (sys_writer s) = (r, w)" by force
  have "synced_inv policy w" using assms(1) w by (rule synced_inv_step)
  then show ?thesis
    using assms(2) w FinishRewrite
    by (auto simp: rewrite_failed_def finish_rewrite_stats_def synced_inv_def split: rewrite_phase.splits sum.splits)
qed (use assms in \<open>auto simp: synced_inv_def rewrite_failed_def finish_rewrite_stats_def Let_def
      split: rewrite_phase.splits if_splits sum.splits option.splits\<close>)

lemma reachable_synced:
  assumes "reachable path policy later E t s" shows "synced_inv policy (sys_writer s)"
  using assms
proof (induction rule: reachable.induct)
  case (first E c db w)
  then show ?case by (auto simp: boot_def synced_inv_spawn split: prod.splits)
next
  case (step E t s ev s')
  then show ?case using sys_next_synced by blast
next
  case (restart E t s E' now g torn lost k chunks db w)
  then show ?case by (auto simp: boot_def synced_inv_spawn split: prod.splits)
qed

section \<open>What a crash leaves\<close>

text \<open>
  The recovery of \<open>chunks\<close>, which a crash has left of the file of \<open>w\<close> when the content was \<open>m\<close>: it keeps at
  least the bytes that were synced and cuts the file between two frames, and the frames \<open>gs\<close> that are lost
  are exactly what leads from the recovered content to \<open>m\<close>. With the policy \<open>always\<close> nothing is lost.
\<close>

definition recovers ::
  "('tx, 'rx) env \<Rightarrow> fsync_policy \<Rightarrow> u128 \<Rightarrow> bytes list \<Rightarrow> aof_writer \<Rightarrow> keyspace \<Rightarrow> bool" where
  "recovers E policy now chunks w m \<longleftrightarrow> (\<exists>n db kept gs. replay E (\<lambda>_ _. now) chunks new_db = (n, db, kept) \<and>
     db_wf (xxh E) db \<and> w_file w = kept @ concat (map encode gs) \<and> w_synced w \<le> length kept \<and>
     leads now gs (db_live (xxh E) now db) m \<and>
     (policy = FsyncAlways \<longrightarrow> gs = [] \<and> content_eq (db_live (xxh E) now db) m))"

lemma leads_source: "leads now gs m m' \<Longrightarrow> content_eq m0 m \<Longrightarrow> leads now gs m0 m'"
  unfolding leads_def by (meson content_eq_trans)

lemma leads_nothing: "leads now [] m m' \<Longrightarrow> content_eq m0 m \<Longrightarrow> content_eq m0 m'"
  by (fastforce simp: leads_def loads_def)

lemma crash_recovers_log:
  assumes "log_since t later (w_synced w) (w_file w) m" "policy = FsyncAlways \<longrightarrow> w_synced w = length (w_file w)"
    "t \<le> now" "now \<le> later" "wire_frame g" "encode g = torn @ lost" "lost \<noteq> []"
    "w_synced w \<le> k" "concat chunks = take k (w_file w @ torn)"
  shows "recovers E policy now chunks w m"
proof -
  have "t \<le> later" using assms(3,4) by simp
  from log_since_cut [OF assms(1) this assms(8,5-7)] obtain kept gs m1 torn' g' lost' where c:
      "take k (w_file w @ torn) = kept @ torn'" "w_file w = kept @ concat (map encode gs)" "w_synced w \<le> length kept"
      "log_for t later kept m1" "leads_in t later gs m1 m" "wire_frame g'" "encode g' = torn' @ lost'" "lost' \<noteq> []"
    by blast
  have "concat chunks = kept @ torn'" using assms(9) c(1) by simp
  from log_for_replay [OF c(4) assms(3,4) c(6-8) this, of E] obtain n db where db:
      "replay E (\<lambda>_ _. now) chunks new_db = (n, db, kept)" "db_wf (xxh E) db" "content_eq (db_live (xxh E) now db) m1"
    by blast
  have "leads now gs m1 m" using c(5) assms(3,4) by (simp add: leads_in_def)
  then have gs: "leads now gs (db_live (xxh E) now db) m" using db(3) by (rule leads_source)
  moreover have "gs = []" if "policy = FsyncAlways"
  proof -
    have "length (concat (map encode gs)) = 0" using assms(2) that c(2,3) by simp
    moreover have "encode f \<noteq> []" for f by (cases f) auto
    ultimately show ?thesis by (cases gs) auto
  qed
  ultimately show ?thesis unfolding recovers_def using db c(2,3) \<open>leads now gs m1 m\<close> leads_nothing by metis
qed

text \<open>The log of a reachable state, with the beginning of one more frame.\<close>

lemma reachable_replays:
  assumes "reachable path policy later E t s" "\<not> si_write_failed (w_stats (sys_writer s))"
    "unat later + unat MAX_EXPIRE_AT_MS < 2 ^ 128" "t \<le> now" "now \<le> later"
    "wire_frame g" "encode g = torn @ lost" "lost \<noteq> []"
    "w_synced (sys_writer s) \<le> k" "concat chunks = take k (w_file (sys_writer s) @ torn)"
  shows "recovers E' policy now chunks (sys_writer s) (db_live (xxh E) now (sys_db s))"
proof -
  have inv: "sys_inv (xxh E) t later s" using reachable_inv [OF assms(1,3)] by simp
  then have "log_since t later (w_synced (sys_writer s)) (w_file (sys_writer s)) (db_live (xxh E) t (sys_db s))"
    using assms(2) by (simp add: sys_inv_def log_invD)
  moreover have "db_live (xxh E) now (sys_db s) = db_live (xxh E) t (sys_db s)"
    using inv assms(4,5) by (intro db_live_passes [of _ _ later]) (simp_all add: sys_inv_def)
  ultimately show ?thesis using crash_recovers_log [OF _ _ assms(4-10)] reachable_synced [OF assms(1)] assms(2) by (simp add: synced_inv_def)
qed

end
