(* ===== verification/Subscribed.thy ===== *)
theory Subscribed
  imports Server "HOL-Library.Sublist"
begin

text \<open>
  The subscribed mode of a connection: \<open>run_subscribed\<close>, \<open>subscribe_one\<close> and the acknowledgements of
  \<^verbatim>\<open>src/src/server.rs\<close>, and the connection around it. Each subscription has a task that forwards what
  its broadcast receiver yields into a bounded queue; a task that has ended has dropped its receiver.
  What the receiver yields is tokio's and comes with the event.
\<close>

section \<open>State and operations\<close>

definition PUBSUB_OUTPUT_CAP :: nat where "PUBSUB_OUTPUT_CAP = 1024"

text \<open>
  \<open>sb_tasks\<close> has the receiver of each task that is still running, \<^const>\<open>None\<close> for one that has ended;
  \<open>sb_queue\<close> is the channel \<open>msg_tx\<close>/\<open>msg_rx\<close>, \<open>sb_slow\<close> the channel \<open>slow_tx\<close>/\<open>slow_rx\<close>, and \<open>sb_writes\<close> the
  number of frames that the socket still takes before it fails.
\<close>

record 'rx subscription =
  sb_tasks :: "(bytes, 'rx option) hash_map"
  sb_queue :: "(bytes \<times> bytes) list"
  sb_slow :: "bytes list"
  sb_writes :: nat

definition new_subscription :: "nat \<Rightarrow> 'rx subscription" where
  "new_subscription writes = \<lparr>sb_tasks = [], sb_queue = [], sb_slow = [], sb_writes = writes\<rparr>"

definition ack_subscribe :: "bytes \<Rightarrow> bytes \<Rightarrow> nat \<Rightarrow> frame" where
  "ack_subscribe tag channel n = Array [Bulk tag, Bulk channel, Integer (i64_of_usize n)]"

definition subscribe_one ::
  "('tx, 'rx) broadcast \<Rightarrow> bytes \<Rightarrow> 'tx db \<Rightarrow> 'rx subscription \<Rightarrow> 'tx db \<times> 'rx subscription" where
  "subscribe_one B channel db sub =
     (if hm_get (sb_tasks sub) channel \<noteq> None then (db, sub)
      else case pubsub_subscribe B channel db of
        (rx, db) \<Rightarrow> (db, sub\<lparr>sb_tasks := hm_insert channel (Some rx) (sb_tasks sub)\<rparr>))"

text \<open>Dropping the receiver of a channel.\<close>

definition drop_receiver :: "('tx, 'rx) broadcast \<Rightarrow> bytes \<Rightarrow> 'rx \<Rightarrow> 'tx db \<Rightarrow> 'tx db" where
  "drop_receiver B channel rx db = (case hm_get (pubsub db) channel of
      Some tx \<Rightarrow> db\<lparr>pubsub := hm_insert channel (bc_drop B rx tx) (pubsub db)\<rparr>
    | None \<Rightarrow> db)"

text \<open>\<open>h.abort(); h.await; db.pubsub_gc(&ch)\<close>.\<close>

definition end_task :: "('tx, 'rx) broadcast \<Rightarrow> bytes \<Rightarrow> 'rx option \<Rightarrow> 'tx db \<Rightarrow> 'tx db" where
  "end_task B channel task db =
     pubsub_gc B channel (case task of Some rx \<Rightarrow> drop_receiver B channel rx db | None \<Rightarrow> db)"

text \<open>What a round of the loop leads to; \<open>Fail\<close> is a return with an error.\<close>

datatype sub_next = Stay | Leave | Fail

text \<open>
  \<open>write_frame\<close> on the connection, followed by \<open>n\<close>; an error of the write ends the mode. The result has the
  frame when it was written.
\<close>

definition reply_then ::
  "frame \<Rightarrow> sub_next \<Rightarrow> 'tx db \<Rightarrow> 'rx subscription \<Rightarrow> frame list \<times> sub_next \<times> 'tx db \<times> 'rx subscription" where
  "reply_then f n db sub =
     (if sb_writes sub = 0 then ([], Fail, db, sub)
      else case write_frame f of
        Inl _ \<Rightarrow> ([], Fail, db, sub)
      | Inr _ \<Rightarrow> ([f], n, db, sub\<lparr>sb_writes := sb_writes sub - 1\<rparr>))"

fun subscribe_loop ::
  "('tx, 'rx) broadcast \<Rightarrow> bytes list \<Rightarrow> 'tx db \<Rightarrow> 'rx subscription \<Rightarrow>
   frame list \<times> sub_next \<times> 'tx db \<times> 'rx subscription" where
  "subscribe_loop B [] db sub = ([], Stay, db, sub)"
| "subscribe_loop B (ch # chs) db sub =
     (case subscribe_one B ch db sub of (db, sub) \<Rightarrow>
        (case reply_then (ack_subscribe ''subscribe'' ch (length (sb_tasks sub))) Stay db sub of
           (fs, Stay, db, sub) \<Rightarrow> (case subscribe_loop B chs db sub of (acks, n, db, sub) \<Rightarrow> (fs @ acks, n, db, sub))
         | r \<Rightarrow> r))"

text \<open>The part of the loop over the channels to unsubscribe that ends the task.\<close>

definition unsubscribe_one ::
  "('tx, 'rx) broadcast \<Rightarrow> bytes \<Rightarrow> 'tx db \<Rightarrow> 'rx subscription \<Rightarrow> 'tx db \<times> 'rx subscription" where
  "unsubscribe_one B ch db sub = (case hm_get (sb_tasks sub) ch of
      Some task \<Rightarrow> (end_task B ch task db, sub\<lparr>sb_tasks := hm_remove ch (sb_tasks sub)\<rparr>)
    | None \<Rightarrow> (db, sub))"

fun unsubscribe_loop ::
  "('tx, 'rx) broadcast \<Rightarrow> bytes list \<Rightarrow> 'tx db \<Rightarrow> 'rx subscription \<Rightarrow>
   frame list \<times> sub_next \<times> 'tx db \<times> 'rx subscription" where
  "unsubscribe_loop B [] db sub = ([], Stay, db, sub)"
| "unsubscribe_loop B (ch # chs) db sub =
     (case unsubscribe_one B ch db sub of (db, sub) \<Rightarrow>
        (case reply_then (ack_subscribe ''unsubscribe'' ch (length (sb_tasks sub))) Stay db sub of
           (fs, Stay, db, sub) \<Rightarrow> (case unsubscribe_loop B chs db sub of (acks, n, db, sub) \<Rightarrow> (fs @ acks, n, db, sub))
         | r \<Rightarrow> r))"

text \<open>The loop over the tasks that are left when the mode ends.\<close>

fun close_tasks :: "('tx, 'rx) broadcast \<Rightarrow> (bytes, 'rx option) hash_map \<Rightarrow> 'tx db \<Rightarrow> 'tx db" where
  "close_tasks B [] db = db"
| "close_tasks B ((ch, task) # tasks) db = close_tasks B tasks (end_task B ch task db)"

section \<open>One round of the loop\<close>

text \<open>The branch for a frame of the client; \<open>ord\<close> is the iteration order of \<open>tasks.keys()\<close>.\<close>

definition sub_request ::
  "('tx, 'rx) broadcast \<Rightarrow> (bytes list \<Rightarrow> bytes list) \<Rightarrow> u128 \<Rightarrow> frame \<Rightarrow> 'tx db \<Rightarrow> 'rx subscription \<Rightarrow>
   frame list \<times> sub_next \<times> 'tx db \<times> 'rx subscription" where
  "sub_request B ord now frame db sub =
     (case from_frame now frame of
        Inr (Subscribe chs) \<Rightarrow> subscribe_loop B chs db sub
      | Inr (Unsubscribe chs_opt) \<Rightarrow>
          let chs = (case chs_opt of Some chs \<Rightarrow> chs | None \<Rightarrow> ord (map fst (sb_tasks sub))) in
          if chs = [] then reply_then (Array [Bulk ''unsubscribe'', Null, Integer 0]) Leave db sub
          else (case unsubscribe_loop B chs db sub of
                  (acks, Stay, db, sub) \<Rightarrow> (acks, if sb_tasks sub = [] then Leave else Stay, db, sub)
                | r \<Rightarrow> r)
      | Inr (Ping msg) \<Rightarrow>
          reply_then (Array [Bulk ''pong'', Bulk (case msg of Some m \<Rightarrow> m | None \<Rightarrow> [])]) Stay db sub
      | Inr _ \<Rightarrow> reply_then (Error (''ERR Can'' @ [CHR 0x27] @ ''t execute command in subscribed context'')) Stay db sub
      | Inl err \<Rightarrow>
          (case handle_command_parse_error err of
             (f # _, Close) \<Rightarrow> reply_then f Fail db sub
           | (f # _, _) \<Rightarrow> reply_then f Stay db sub
           | ([], _) \<Rightarrow> ([], Stay, db, sub)))"

text \<open>What a broadcast receiver yields, and what its task does with it.\<close>

datatype received = ROk bytes | RLagged | RClosed

definition task_ends :: "('tx, 'rx) broadcast \<Rightarrow> bytes \<Rightarrow> 'rx \<Rightarrow> 'tx db \<Rightarrow> 'rx subscription \<Rightarrow> 'tx db \<times> 'rx subscription" where
  "task_ends B channel rx db sub =
     (drop_receiver B channel rx db, sub\<lparr>sb_tasks := hm_insert channel None (sb_tasks sub)\<rparr>)"

definition task_receives ::
  "('tx, 'rx) broadcast \<Rightarrow> bytes \<Rightarrow> received \<Rightarrow> 'tx db \<Rightarrow> 'rx subscription \<Rightarrow> 'tx db \<times> 'rx subscription" where
  "task_receives B channel r db sub = (case hm_get (sb_tasks sub) channel of
      Some (Some rx) \<Rightarrow>
        (case r of
           ROk msg \<Rightarrow>
             if length (sb_queue sub) < PUBSUB_OUTPUT_CAP
             then (db, sub\<lparr>sb_queue := sb_queue sub @ [(channel, msg)]\<rparr>)
             else task_ends B channel rx db (sub\<lparr>sb_slow := sb_slow sub @ [channel]\<rparr>)
         | RLagged \<Rightarrow> task_ends B channel rx db (sub\<lparr>sb_slow := sb_slow sub @ [channel]\<rparr>)
         | RClosed \<Rightarrow> task_ends B channel rx db sub)
    | _ \<Rightarrow> (db, sub))"

text \<open>
  The events of the subscribed mode: the three branches of \<open>select!\<close> and a task that receives. A
  branch on an empty channel is not ready.
\<close>

datatype sub_event =
    SubFrame u128 frame
  | SubEof
  | SubReadError read_error
  | SubMessage
  | SubSlow
  | SubTask bytes received

fun sub_step ::
  "('tx, 'rx) broadcast \<Rightarrow> (bytes list \<Rightarrow> bytes list) \<Rightarrow> sub_event \<Rightarrow> 'tx db \<Rightarrow> 'rx subscription \<Rightarrow>
   (frame list \<times> sub_next \<times> 'tx db \<times> 'rx subscription) option" where
  "sub_step B ord (SubFrame now frame) db sub = Some (sub_request B ord now frame db sub)"
| "sub_step B ord SubEof db sub = Some ([], Leave, db, sub)"
| "sub_step B ord (SubReadError err) db sub = (case err of
      ReadProtocol msg \<Rightarrow> Some (reply_then (protocol_error_frame msg) Fail db sub)
    | _ \<Rightarrow> Some ([], Fail, db, sub))"
| "sub_step B ord SubMessage db sub = (case sb_queue sub of
      [] \<Rightarrow> None
    | (ch, msg) # q \<Rightarrow> Some (reply_then (Array [Bulk ''message'', Bulk ch, Bulk msg]) Stay db (sub\<lparr>sb_queue := q\<rparr>)))"
| "sub_step B ord SubSlow db sub = (case sb_slow sub of
      [] \<Rightarrow> None
    | ch # chs \<Rightarrow> Some (reply_then (Error ''ERR subscriber output buffer limit exceeded'') Leave db (sub\<lparr>sb_slow := chs\<rparr>)))"
| "sub_step B ord (SubTask ch r) db sub =
     (case task_receives B ch r db sub of (db, sub) \<Rightarrow> Some ([], Stay, db, sub))"

text \<open>
  The mode as a whole, up to the events that have happened: how it ended, if it did. Leaving it
  ends all tasks; an error returns without doing so, and the tasks go on by themselves.
\<close>

datatype 'rx sub_result = SubRunning "'rx subscription" | SubLeft | SubFailed

fun sub_loop ::
  "('tx, 'rx) broadcast \<Rightarrow> (bytes list \<Rightarrow> bytes list) \<Rightarrow> sub_event list \<Rightarrow> 'tx db \<Rightarrow> 'rx subscription \<Rightarrow>
   frame list \<times> 'rx sub_result \<times> 'tx db" where
  "sub_loop B ord [] db sub = ([], SubRunning sub, db)"
| "sub_loop B ord (ev # evs) db sub = (case sub_step B ord ev db sub of
      None \<Rightarrow> sub_loop B ord evs db sub
    | Some (fs, Stay, db, sub) \<Rightarrow> (case sub_loop B ord evs db sub of (gs, r, db) \<Rightarrow> (fs @ gs, r, db))
    | Some (fs, Leave, db, sub) \<Rightarrow> (fs, SubLeft, close_tasks B (sb_tasks sub) db)
    | Some (fs, Fail, db, sub) \<Rightarrow> (fs, SubFailed, db))"

definition run_subscribed ::
  "('tx, 'rx) broadcast \<Rightarrow> (bytes list \<Rightarrow> bytes list) \<Rightarrow> nat \<Rightarrow> bytes list \<Rightarrow> sub_event list \<Rightarrow> 'tx db \<Rightarrow>
   frame list \<times> 'rx sub_result \<times> 'tx db" where
  "run_subscribed B ord writes initial_channels evs db =
     (case subscribe_loop B initial_channels db (new_subscription writes) of
        (acks, Stay, db, sub) \<Rightarrow> (case sub_loop B ord evs db sub of (fs, r, db) \<Rightarrow> (acks @ fs, r, db))
      | (acks, _, db, sub) \<Rightarrow> (acks, SubFailed, db))"

section \<open>Counting receivers\<close>

text \<open>The channels of the table that have no receiver.\<close>

definition orphans :: "('tx, 'rx) broadcast \<Rightarrow> 'tx db \<Rightarrow> bytes set" where
  "orphans B db = {ch. \<exists>tx. hm_get (pubsub db) ch = Some tx \<and> bc_receiver_count B tx = 0}"

lemma subscribers_drop:
  "broadcast_ok B \<Longrightarrow> subscribers B (drop_receiver B ch rx db) = (subscribers B db)(ch := subscribers B db ch - 1)"
  by (auto simp: fun_eq_iff subscribers_def drop_receiver_def broadcast_ok_def update_conv' split: option.splits)

lemma subscribers_end_task:
  "broadcast_ok B \<Longrightarrow> subscribers B (end_task B ch task db) =
     (subscribers B db)(ch := subscribers B db ch - (if task = None then 0 else 1))"
  by (auto simp: end_task_def subscribers_gc subscribers_drop split: option.splits)

lemma orphans_subscribe:
  "broadcast_ok B \<Longrightarrow> orphans B (snd (pubsub_subscribe B ch db)) \<subseteq> orphans B db"
  by (auto simp: orphans_def pubsub_subscribe_def hm_or_insert_def broadcast_ok_def update_conv' Let_def
      case_prod_beta split: option.splits if_splits)

lemma orphans_drop: "orphans B (drop_receiver B ch rx db) \<subseteq> insert ch (orphans B db)"
  by (auto simp: orphans_def drop_receiver_def update_conv' split: option.splits if_splits)

lemma orphans_gc: "orphans B (pubsub_gc B ch db) = orphans B db - {ch}"
  by (auto simp: orphans_def pubsub_gc_def delete_conv' split: option.splits if_splits)

lemma orphans_end_task: "orphans B (end_task B ch task db) \<subseteq> orphans B db - {ch}"
  using orphans_drop [of B ch _ db] by (auto simp: end_task_def orphans_gc split: option.splits)

text \<open>
  The invariant of a connection in subscribed mode, relative to the receivers \<open>others\<close> that belong to other
  connections and the channels \<open>A\<close> they look after.
\<close>

definition running :: "'rx subscription \<Rightarrow> bytes \<Rightarrow> bool" where
  "running sub ch = (case hm_get (sb_tasks sub) ch of Some (Some rx) \<Rightarrow> True | _ \<Rightarrow> False)"

definition sub_inv ::
  "('tx, 'rx) broadcast \<Rightarrow> (bytes \<Rightarrow> nat) \<Rightarrow> bytes set \<Rightarrow> 'tx db \<Rightarrow> 'rx subscription \<Rightarrow> bool" where
  "sub_inv B others A db sub \<longleftrightarrow>
     (\<forall>ch. subscribers B db ch = others ch + (if running sub ch then 1 else 0)) \<and>
     orphans B db \<subseteq> A \<union> dom (hm_get (sb_tasks sub)) \<and> hm_ok (sb_tasks sub) \<and>
     length (sb_queue sub) \<le> PUBSUB_OUTPUT_CAP"

lemma subscribe_one_inv:
  assumes "broadcast_ok B" "sub_inv B others A db sub" "subscribe_one B ch db sub = (db', sub')"
  shows "sub_inv B others A db' sub'" "sb_queue sub' = sb_queue sub"
    "dom (hm_get (sb_tasks sub')) = insert ch (dom (hm_get (sb_tasks sub)))"
proof -
  have "sub_inv B others A db' sub' \<and> sb_queue sub' = sb_queue sub \<and>
      dom (hm_get (sb_tasks sub')) = insert ch (dom (hm_get (sb_tasks sub)))"
  proof (cases "hm_get (sb_tasks sub) ch")
    case None
    then obtain rx where s: "pubsub_subscribe B ch db = (rx, db')"
        "sub' = sub\<lparr>sb_tasks := hm_insert ch (Some rx) (sb_tasks sub)\<rparr>"
      using assms(3) by (auto simp: subscribe_one_def split: prod.splits)
    have "subscribers B db' = (subscribers B db)(ch := Suc (subscribers B db ch))" "orphans B db' \<subseteq> orphans B db"
      using subscribers_subscribe [OF assms(1), of ch db] orphans_subscribe [OF assms(1), of ch db] s(1) by simp_all
    with assms(2) None show ?thesis
      by (auto simp: s(2) sub_inv_def running_def update_conv' distinct_update)
  qed (use assms in \<open>auto simp: subscribe_one_def\<close>)
  then show "sub_inv B others A db' sub'" "sb_queue sub' = sb_queue sub"
    "dom (hm_get (sb_tasks sub')) = insert ch (dom (hm_get (sb_tasks sub)))" by blast+
qed

text \<open>Writing to the client changes only the count of writes.\<close>

lemma sub_inv_writes [simp]:
  "sub_inv B others A db (sub\<lparr>sb_writes := n\<rparr>) = sub_inv B others A db sub"
  "running (sub\<lparr>sb_writes := n\<rparr>) = running sub"
  by (simp_all add: sub_inv_def running_def fun_eq_iff)

lemma reply_then_cases:
  assumes "reply_then f n db sub = (fs, m, db', sub')"
  shows "(fs = [] \<and> m = Fail \<and> sub' = sub \<or> fs = [f] \<and> m = n \<and> sub' = sub\<lparr>sb_writes := sb_writes sub - 1\<rparr>) \<and> db' = db"
  using assms by (auto simp: reply_then_def split: if_splits sum.splits)

lemma reply_then_keeps:
  assumes "reply_then f n db sub = (fs, m, db', sub')"
  shows "db' = db" "sb_tasks sub' = sb_tasks sub" "sb_queue sub' = sb_queue sub" "running sub' = running sub"
    "sub_inv B others A db sub' = sub_inv B others A db sub"
  using reply_then_cases [OF assms] by auto

lemma subscribe_loop_inv:
  assumes "broadcast_ok B" "sub_inv B others A db sub" "subscribe_loop B chs db sub = (acks, n, db', sub')"
  shows "sub_inv B others A db' sub' \<and> sb_queue sub' = sb_queue sub"
  using assms(2,3)
proof (induction chs arbitrary: db sub acks)
  case (Cons ch chs)
  obtain db1 sub1 where s: "subscribe_one B ch db sub = (db1, sub1)" by force
  obtain fs m db2 sub2 where r: "reply_then (ack_subscribe ''subscribe'' ch (length (sb_tasks sub1))) Stay db1 sub1 =
      (fs, m, db2, sub2)" by (metis prod_cases4)
  have inv: "sub_inv B others A db2 sub2" "sb_queue sub2 = sb_queue sub"
    using subscribe_one_inv(1,2) [OF assms(1) Cons.prems(1) s] reply_then_keeps [OF r] by simp_all
  show ?case
    using Cons.prems(2) Cons.IH [OF inv(1)] inv by (cases m) (auto simp: s r split: prod.splits)
qed simp

lemma end_task_inv:
  assumes "broadcast_ok B" "sub_inv B others A db sub" "hm_get (sb_tasks sub) ch = Some task"
  shows "sub_inv B others A (end_task B ch task db) (sub\<lparr>sb_tasks := hm_remove ch (sb_tasks sub)\<rparr>)"
  using assms(2,3) subscribers_end_task [OF assms(1), of ch task db] orphans_end_task [of B ch task db]
  by (auto simp: sub_inv_def running_def delete_conv' distinct_delete split: option.splits if_splits)

lemma unsubscribe_one_inv:
  assumes "broadcast_ok B" "sub_inv B others A db sub" "unsubscribe_one B ch db sub = (db', sub')"
  shows "sub_inv B others A db' sub'" "sb_queue sub' = sb_queue sub"
  using assms end_task_inv [OF assms(1,2)] by (auto simp: unsubscribe_one_def split: option.splits)

lemma unsubscribe_loop_inv:
  assumes "broadcast_ok B" "sub_inv B others A db sub" "unsubscribe_loop B chs db sub = (acks, n, db', sub')"
  shows "sub_inv B others A db' sub' \<and> sb_queue sub' = sb_queue sub"
  using assms(2,3)
proof (induction chs arbitrary: db sub acks)
  case (Cons ch chs)
  obtain db1 sub1 where s: "unsubscribe_one B ch db sub = (db1, sub1)" by force
  obtain fs m db2 sub2 where r: "reply_then (ack_subscribe ''unsubscribe'' ch (length (sb_tasks sub1))) Stay db1 sub1 =
      (fs, m, db2, sub2)" by (metis prod_cases4)
  have inv: "sub_inv B others A db2 sub2" "sb_queue sub2 = sb_queue sub"
    using unsubscribe_one_inv [OF assms(1) Cons.prems(1) s] reply_then_keeps [OF r] by simp_all
  show ?case
    using Cons.prems(2) Cons.IH [OF inv(1)] inv by (cases m) (auto simp: s r split: prod.splits)
qed simp

lemma close_tasks_inv:
  assumes "broadcast_ok B" "sub_inv B others A db sub"
  shows "subscribers B (close_tasks B (sb_tasks sub) db) = others \<and> orphans B (close_tasks B (sb_tasks sub) db) \<subseteq> A"
proof -
  have "sub_inv B others A db (sub\<lparr>sb_tasks := tasks\<rparr>) \<Longrightarrow>
      subscribers B (close_tasks B tasks db) = others \<and> orphans B (close_tasks B tasks db) \<subseteq> A" for tasks
  proof (induction tasks arbitrary: db)
    case Nil
    then show ?case by (auto simp: sub_inv_def running_def fun_eq_iff)
  next
    case (Cons p tasks)
    obtain ch task where p: "p = (ch, task)" by (cases p)
    have "hm_remove ch (p # tasks) = tasks"
      using Cons.prems by (auto simp: p sub_inv_def AList.delete_eq filter_id_conv rev_image_eqI)
    then have "sub_inv B others A (end_task B ch task db) (sub\<lparr>sb_tasks := tasks\<rparr>)"
      using end_task_inv [OF assms(1) Cons.prems, of ch task] by (simp add: p)
    from Cons.IH [OF this] show ?case by (simp add: p)
  qed
  from this [of "sb_tasks sub"] assms(2) show ?thesis by simp
qed

lemma task_ends_inv:
  assumes "broadcast_ok B" "sub_inv B others A db sub" "hm_get (sb_tasks sub) ch = Some (Some rx)"
    "task_ends B ch rx db sub = (db', sub')"
  shows "sub_inv B others A db' sub'"
proof -
  have "orphans B db' \<subseteq> insert ch (orphans B db)" using assms(4) orphans_drop [of B ch rx db] by (auto simp: task_ends_def)
  then have "orphans B db' \<subseteq> A \<union> insert ch (dom (hm_get (sb_tasks sub)))" using assms(2) by (auto simp: sub_inv_def)
  moreover have "subscribers B db' = (subscribers B db)(ch := subscribers B db ch - 1)"
    using assms(4) subscribers_drop [OF assms(1), of ch rx db] by (auto simp: task_ends_def)
  ultimately show ?thesis
    using assms(2-4)
    by (auto simp: task_ends_def sub_inv_def running_def update_conv' distinct_update split: option.splits if_splits)
qed

lemma sub_inv_slow [simp]: "sub_inv B others A db (sub\<lparr>sb_slow := x\<rparr>) = sub_inv B others A db sub"
  by (simp add: sub_inv_def running_def)

lemma sub_inv_queue: "sub_inv B others A db sub \<Longrightarrow> sb_queue sub = p # q \<Longrightarrow> sub_inv B others A db (sub\<lparr>sb_queue := q\<rparr>)"
  by (simp add: sub_inv_def running_def)

lemma task_receives_inv:
  assumes "broadcast_ok B" "sub_inv B others A db sub" "task_receives B ch r db sub = (db', sub')"
  shows "sub_inv B others A db' sub'"
proof (cases "running sub ch")
  case True
  then obtain rx where rx: "hm_get (sb_tasks sub) ch = Some (Some rx)"
    by (auto simp: running_def split: option.splits)
  have ends: "task_ends B ch rx db (sub\<lparr>sb_slow := x\<rparr>) = (db', sub') \<Longrightarrow> sub_inv B others A db' sub'" for x
    using task_ends_inv [OF assms(1), of others A db "sub\<lparr>sb_slow := x\<rparr>"] assms(2) rx by (simp add: sub_inv_slow)
  show ?thesis
  proof (cases r)
    case (ROk msg)
    then show ?thesis
      using assms(2,3) rx ends
      by (auto simp: task_receives_def sub_inv_def running_def split: if_splits)
  next
    case RLagged
    then show ?thesis using assms(3) rx ends by (simp add: task_receives_def)
  next
    case RClosed
    then show ?thesis using assms(3) rx ends [of "sb_slow sub"] by (simp add: task_receives_def)
  qed
next
  case False
  then have "db' = db" "sub' = sub"
    using assms(3) by (auto simp: task_receives_def running_def split: option.splits)
  with assms(2) show ?thesis by simp
qed

lemma sub_request_inv:
  assumes "broadcast_ok B" "sub_inv B others A db sub" "sub_request B ord now f db sub = (fs, n, db', sub')"
  shows "sub_inv B others A db' sub' \<and> sb_queue sub' = sb_queue sub"
proof -
  have reply: "sub_inv B others A db' sub' \<and> sb_queue sub' = sb_queue sub"
    if "reply_then g m db sub = (fs, n, db', sub')" for g m
    using assms(2) reply_then_keeps [OF that] by simp
  have unsub: "sub_inv B others A db1 sub1 \<and> sb_queue sub1 = sb_queue sub"
    if "unsubscribe_loop B chs db sub = (acks, m, db1, sub1)" for chs acks m db1 sub1
    using unsubscribe_loop_inv [OF assms(1,2) that] .
  show ?thesis
    using assms(2,3) reply unsub subscribe_loop_inv [OF assms(1,2)]
    by (auto simp: sub_request_def Let_def split: sum.splits command.splits prod.splits if_splits next_step.splits
        list.splits sub_next.splits)
qed

lemma sub_step_inv:
  assumes "broadcast_ok B" "sub_inv B others A db sub" "sub_step B ord ev db sub = Some (fs, n, db', sub')"
  shows "sub_inv B others A db' sub'"
proof (cases ev)
  case (SubFrame now f)
  then show ?thesis using sub_request_inv [OF assms(1,2), of ord now f] assms(3) by simp
next
  case (SubTask ch r)
  then show ?thesis using task_receives_inv [OF assms(1,2), of ch r] assms(3) by (auto split: prod.splits)
next
  case SubMessage
  with assms(3) obtain p q where q: "sb_queue sub = p # q" by (auto split: list.splits)
  with SubMessage assms(3) reply_then_keeps(1,5) sub_inv_queue [OF assms(2) q] show ?thesis
    by (cases p) fastforce
qed (use assms(2,3) reply_then_keeps(1,5) in \<open>fastforce split: read_error.splits list.splits\<close>)+

lemma sub_loop_left:
  assumes "broadcast_ok B" "sub_inv B others A db sub" "sub_loop B ord evs db sub = (fs, SubLeft, db')"
  shows "subscribers B db' = others \<and> orphans B db' \<subseteq> A"
  using assms(2,3)
proof (induction evs arbitrary: db sub fs)
  case (Cons ev evs)
  show ?case
  proof (cases "sub_step B ord ev db sub")
    case None
    then show ?thesis using Cons by simp
  next
    case (Some p)
    obtain gs n db1 sub1 where p: "p = (gs, n, db1, sub1)" by (cases p)
    have inv: "sub_inv B others A db1 sub1" using sub_step_inv [OF assms(1) Cons.prems(1)] Some p by simp
    show ?thesis
      using Cons.prems(2) Cons.IH [OF inv] close_tasks_inv [OF assms(1) inv] Some p
      by (cases n) (auto split: prod.splits)
  qed
qed simp

lemma sub_inv_new: "sub_inv B (subscribers B db) (orphans B db) db (new_subscription writes)"
  by (simp add: sub_inv_def running_def new_subscription_def)

lemma run_subscribed_left:
  assumes "broadcast_ok B" "run_subscribed B ord writes chs evs db = (fs, SubLeft, db')"
  shows "subscribers B db' = subscribers B db \<and> orphans B db' \<subseteq> orphans B db"
proof -
  obtain acks n db1 sub1 where s: "subscribe_loop B chs db (new_subscription writes) = (acks, n, db1, sub1)"
    by (metis prod_cases4)
  then obtain gs where "sub_loop B ord evs db1 sub1 = (gs, SubLeft, db')"
    using assms(2) by (auto simp: run_subscribed_def split: sub_next.splits prod.splits)
  then show ?thesis using subscribe_loop_inv [OF assms(1) sub_inv_new s] sub_loop_left [OF assms(1)] by blast
qed

section \<open>Acknowledgements count distinct channels\<close>

lemma length_tasks: "hm_ok (sb_tasks sub) \<Longrightarrow> length (sb_tasks sub) = card (dom (hm_get (sb_tasks sub)))"
  by (rule hm.length_items)

text \<open>The acknowledgements that are written, also when not all of them are.\<close>

lemma subscribe_loop_acks:
  assumes "broadcast_ok B" "sub_inv B others A db sub" "subscribe_loop B chs db sub = (acks, n, db', sub')"
  shows "acks = map (\<lambda>i. ack_subscribe ''subscribe'' (chs ! i)
      (card (dom (hm_get (sb_tasks sub)) \<union> set (take (Suc i) chs)))) [0..<length acks] \<and>
    length acks \<le> length chs \<and> (n = Stay \<longrightarrow> length acks = length chs)"
  using assms(2,3)
proof (induction chs arbitrary: db sub acks)
  case (Cons ch chs)
  obtain db1 sub1 where s: "subscribe_one B ch db sub = (db1, sub1)" by force
  note one = subscribe_one_inv [OF assms(1) Cons.prems(1) s]
  let ?ack = "ack_subscribe ''subscribe'' ch (length (sb_tasks sub1))"
  obtain fs m db2 sub2 where r: "reply_then ?ack Stay db1 sub1 = (fs, m, db2, sub2)" by (metis prod_cases4)
  have "hm_ok (sb_tasks sub1)" using one(1) by (simp add: sub_inv_def)
  then have len: "length (sb_tasks sub1) = card (insert ch (dom (hm_get (sb_tasks sub))))"
    using length_tasks one(3) by metis
  show ?case
  proof (cases "m = Stay")
    case True
    then have fs: "fs = [?ack]" using reply_then_cases [OF r] by auto
    obtain acks1 where a: "subscribe_loop B chs db2 sub2 = (acks1, n, db', sub')" "acks = ?ack # acks1"
      using Cons.prems(2) by (auto simp: s r True fs split: prod.splits)
    have "sub_inv B others A db2 sub2" "sb_tasks sub2 = sb_tasks sub1" using one(1) reply_then_keeps [OF r] by simp_all
    with Cons.IH [OF this(1) a(1)] one(3) len a(2) show ?thesis
      by (auto simp: upt_conv_Cons map_Suc_upt [symmetric] comp_def simp del: upt_Suc)
  next
    case False
    then show ?thesis using Cons.prems(2) reply_then_cases [OF r] by (cases m) (auto simp: s r)
  qed
qed simp

section \<open>Messages arrive in order\<close>

text \<open>The message a frame delivers; the message a running task takes from its channel, whatever it then does with it.\<close>

fun delivery :: "frame \<Rightarrow> (bytes \<times> bytes) list" where
  "delivery (Array [Bulk tag, Bulk ch, Bulk msg]) = (if tag = ''message'' then [(ch, msg)] else [])"
| "delivery _ = []"

fun taken :: "sub_event \<Rightarrow> 'rx subscription \<Rightarrow> (bytes \<times> bytes) list" where
  "taken (SubTask ch (ROk msg)) sub = (if running sub ch then [(ch, msg)] else [])"
| "taken _ sub = []"

text \<open>The messages that are taken in the course of the mode.\<close>

fun taken_run ::
  "('tx, 'rx) broadcast \<Rightarrow> (bytes list \<Rightarrow> bytes list) \<Rightarrow> sub_event list \<Rightarrow> 'tx db \<Rightarrow> 'rx subscription \<Rightarrow>
   (bytes \<times> bytes) list" where
  "taken_run B ord [] db sub = []"
| "taken_run B ord (ev # evs) db sub = (case sub_step B ord ev db sub of
      Some (fs, Stay, db', sub') \<Rightarrow> taken ev sub @ taken_run B ord evs db' sub'
    | Some _ \<Rightarrow> []
    | None \<Rightarrow> taken_run B ord evs db sub)"

lemma delivery_ack [simp]: "delivery (ack_subscribe tag ch n) = []"
  by (simp add: ack_subscribe_def)

lemma reply_delivers_nothing:
  "reply_then f n db sub = (fs, m, db', sub') \<Longrightarrow> delivery f = [] \<Longrightarrow> concat (map delivery fs) = []"
  by (auto dest: reply_then_cases)

lemma acks_deliver_nothing:
  "subscribe_loop B chs db sub = (acks, n, db', sub') \<Longrightarrow> concat (map delivery acks) = []"
  "unsubscribe_loop B chs db sub = (acks, n, db', sub') \<Longrightarrow> concat (map delivery acks) = []"
  by (induction chs arbitrary: db sub acks)
     (fastforce split: prod.splits sub_next.splits dest: reply_then_cases)+

lemma parse_error_delivers_nothing:
  "handle_command_parse_error e = (f # fs, n) \<Longrightarrow> delivery f = []"
  by (auto simp: handle_command_parse_error_def protocol_error_frame_def split: if_splits)

lemma sub_request_delivers_nothing:
  "sub_request B ord now f db sub = (fs, n, db', sub') \<Longrightarrow> concat (map delivery fs) = []"
  by (auto simp: sub_request_def Let_def split: sum.splits command.splits prod.splits if_splits next_step.splits
      list.splits sub_next.splits
      dest: acks_deliver_nothing parse_error_delivers_nothing reply_delivers_nothing)

text \<open>The slow tasks that are reported are not forgotten while the mode goes on.\<close>

lemma reply_then_slow: "reply_then f n db sub = (fs, m, db', sub') \<Longrightarrow> sb_slow sub' = sb_slow sub"
  by (auto dest: reply_then_cases)

lemma loops_slow:
  "subscribe_loop B chs db sub = (acks, n, db', sub') \<Longrightarrow> sb_slow sub' = sb_slow sub"
  "unsubscribe_loop B chs db sub = (acks, n, db', sub') \<Longrightarrow> sb_slow sub' = sb_slow sub"
  by (induction chs arbitrary: db sub acks)
     (fastforce simp: subscribe_one_def unsubscribe_one_def split: prod.splits sub_next.splits if_splits option.splits
        dest: reply_then_slow)+

lemma sub_request_slow: "sub_request B ord now f db sub = (fs, n, db', sub') \<Longrightarrow> sb_slow sub' = sb_slow sub"
  by (auto simp: sub_request_def Let_def split: sum.splits command.splits prod.splits if_splits next_step.splits
      list.splits sub_next.splits dest: loops_slow reply_then_slow)

text \<open>A step that goes on loses a message only by reporting its task as slow.\<close>

lemma sub_step_order:
  assumes "broadcast_ok B" "sub_inv B others A db sub" "sub_step B ord ev db sub = Some (fs, Stay, db', sub')"
  shows "\<exists>lost reported. sb_queue sub @ taken ev sub = concat (map delivery fs) @ sb_queue sub' @ lost \<and>
    sb_slow sub' = sb_slow sub @ reported \<and> length lost \<le> length reported \<and> fst ` set lost \<subseteq> set reported"
  using assms(3)
proof (cases ev)
  case (SubFrame now f)
  with assms(3) have r: "sub_request B ord now f db sub = (fs, Stay, db', sub')" by simp
  show ?thesis
    using sub_request_inv [OF assms(1,2) r] sub_request_delivers_nothing [OF r] sub_request_slow [OF r]
    by (intro exI [of _ "[]"]) (simp add: SubFrame)
next
  case (SubTask ch r)
  then have t: "task_receives B ch r db sub = (db', sub')" "fs = []" using assms(3) by (auto split: prod.splits)
  show ?thesis
  proof (cases "running sub ch \<and> r \<noteq> RClosed \<and> (\<forall>msg. r = ROk msg \<longrightarrow> PUBSUB_OUTPUT_CAP \<le> length (sb_queue sub))")
    case True
    then show ?thesis
      using t SubTask
      by (intro exI [of _ "taken ev sub"] exI [of _ "[ch]"], cases r)
         (auto simp: task_receives_def task_ends_def running_def split: option.splits)
  next
    case False
    then show ?thesis
      using t SubTask
      by (intro exI [of _ "[]"] exI [of _ "[]"], cases r)
         (auto simp: task_receives_def task_ends_def running_def split: option.splits if_splits)
  qed
next
  case SubMessage
  then obtain ch msg q where q: "sb_queue sub = (ch, msg) # q" using assms(3) by (auto split: list.splits)
  then show ?thesis
    using assms(3) SubMessage by (intro exI [of _ "[]"]) (auto dest: reply_then_cases)
qed (auto split: read_error.splits list.splits dest: reply_then_cases)

text \<open>
  From \<open>base\<close>, what is in the queue and what is taken, to \<open>out\<close>, what is delivered and what is still in the
  queue: in the same order, without one message for each task that was reported slow, and those of that channel.
\<close>

definition in_order :: "(bytes \<times> bytes) list \<Rightarrow> (bytes \<times> bytes) list \<Rightarrow> bytes list \<Rightarrow> bool" where
  "in_order base out slow \<longleftrightarrow> subseq out base \<and> length base \<le> length out + length slow \<and>
     (\<forall>ch. ch \<notin> set slow \<longrightarrow> filter (\<lambda>p. fst p = ch) out = filter (\<lambda>p. fst p = ch) base)"

lemma in_order_step:
  assumes "in_order (q @ rest) out slow" "length lost \<le> length reported" "fst ` set lost \<subseteq> set reported"
  shows "in_order (d @ q @ lost @ rest) (d @ out) (reported @ slow)"
proof -
  have "subseq (q @ rest) (q @ lost @ rest)" by (simp add: subseq_append' subseq_drop_many)
  then have "subseq out (q @ lost @ rest)" using assms(1) subseq_order.trans by (auto simp: in_order_def)
  moreover have "filter (\<lambda>p. fst p = ch) lost = []" if "ch \<notin> set reported" for ch
    using assms(3) that by (auto simp: filter_empty_conv)
  ultimately show ?thesis using assms(1,2) by (auto simp: in_order_def subseq_append')
qed

lemma sub_loop_order:
  assumes "broadcast_ok B" "sub_inv B others A db sub" "sub_loop B ord evs db sub = (fs, SubRunning sub', db')"
  shows "\<exists>slow. sb_slow sub' = sb_slow sub @ slow \<and>
      in_order (sb_queue sub @ taken_run B ord evs db sub) (concat (map delivery fs) @ sb_queue sub') slow \<and>
    length (sb_queue sub') \<le> PUBSUB_OUTPUT_CAP"
  using assms(2,3)
proof (induction evs arbitrary: db sub fs)
  case Nil
  then show ?case by (simp add: sub_inv_def in_order_def)
next
  case (Cons ev evs)
  show ?case
  proof (cases "sub_step B ord ev db sub")
    case None
    then show ?thesis using Cons by simp
  next
    case (Some p)
    obtain gs n db1 sub1 where p: "p = (gs, n, db1, sub1)" by (cases p)
    have n: "n = Stay" using Cons.prems(2) Some p by (cases n) auto
    have inv: "sub_inv B others A db1 sub1" using sub_step_inv [OF assms(1) Cons.prems(1)] Some p n by simp
    obtain lost reported where l: "sb_queue sub @ taken ev sub = concat (map delivery gs) @ sb_queue sub1 @ lost"
        "sb_slow sub1 = sb_slow sub @ reported" "length lost \<le> length reported" "fst ` set lost \<subseteq> set reported"
      using sub_step_order [OF assms(1) Cons.prems(1), of ord ev gs db1 sub1] Some p n by auto
    obtain hs where hs: "sub_loop B ord evs db1 sub1 = (hs, SubRunning sub', db')" "fs = gs @ hs"
      using Cons.prems(2) Some p n by (auto split: prod.splits)
    obtain slow where IH: "sb_slow sub' = sb_slow sub1 @ slow" "length (sb_queue sub') \<le> PUBSUB_OUTPUT_CAP"
        "in_order (sb_queue sub1 @ taken_run B ord evs db1 sub1) (concat (map delivery hs) @ sb_queue sub') slow"
      using Cons.IH [OF inv hs(1)] by blast
    have "taken_run B ord (ev # evs) db sub = taken ev sub @ taken_run B ord evs db1 sub1"
      using Some p n by simp
    then have "sb_queue sub @ taken_run B ord (ev # evs) db sub =
        concat (map delivery gs) @ sb_queue sub1 @ lost @ taken_run B ord evs db1 sub1"
      using l(1) by (metis append.assoc)
    then show ?thesis
      using in_order_step [OF IH(3) l(3,4), of "concat (map delivery gs)"] IH(1,2) l(2) hs(2)
      by (intro exI [of _ "reported @ slow"]) simp
  qed
qed

definition taken_session ::
  "('tx, 'rx) broadcast \<Rightarrow> (bytes list \<Rightarrow> bytes list) \<Rightarrow> nat \<Rightarrow> bytes list \<Rightarrow> sub_event list \<Rightarrow> 'tx db \<Rightarrow>
   (bytes \<times> bytes) list" where
  "taken_session B ord writes channels evs db = (case subscribe_loop B channels db (new_subscription writes) of
      (acks, n, db, sub) \<Rightarrow> taken_run B ord evs db sub)"

lemma run_subscribed_order:
  assumes "broadcast_ok B" "run_subscribed B ord writes channels evs db = (fs, SubRunning sub, db')"
  shows "in_order (taken_session B ord writes channels evs db) (concat (map delivery fs) @ sb_queue sub) (sb_slow sub) \<and>
    length (sb_queue sub) \<le> PUBSUB_OUTPUT_CAP"
proof -
  obtain acks n db1 sub1 where s: "subscribe_loop B channels db (new_subscription writes) = (acks, n, db1, sub1)"
    by (metis prod_cases4)
  then obtain gs where g: "sub_loop B ord evs db1 sub1 = (gs, SubRunning sub, db')" "fs = acks @ gs"
    using assms(2) by (auto simp: run_subscribed_def split: sub_next.splits prod.splits)
  have inv: "sub_inv B (subscribers B db) (orphans B db) db1 sub1" "sb_queue sub1 = []"
    using subscribe_loop_inv [OF assms(1) sub_inv_new s] by (simp_all add: new_subscription_def)
  moreover have "sb_slow sub1 = []" using loops_slow(1) [OF s] by (simp add: new_subscription_def)
  ultimately show ?thesis
    using sub_loop_order [OF assms(1) inv(1) g(1)] acks_deliver_nothing(1) [OF s]
    by (simp add: taken_session_def s g(2) del: concat_eq_Nil_conv)
qed

lemma in_order_all: "in_order base out [] \<Longrightarrow> out = base"
  using list_emb_length by (fastforce simp: in_order_def intro: subseq_same_length)

section \<open>A session that fails\<close>

lemma running_insert: "running (sub\<lparr>sb_tasks := hm_insert c (Some rx) (sb_tasks sub)\<rparr>) ch \<longleftrightarrow> ch = c \<or> running sub ch"
  by (simp add: running_def update_conv')

text \<open>
  The channels that have been subscribed to when the subscriptions end: those that were acknowledged,
  and one more when its acknowledgement failed.
\<close>

lemma subscribe_loop_running:
  assumes "\<forall>ch \<in> dom (hm_get (sb_tasks sub)). running sub ch" "subscribe_loop B chs db sub = (acks, n, db', sub')"
  shows "running sub' ch \<longleftrightarrow>
    ch \<in> dom (hm_get (sb_tasks sub)) \<union> set (take (if n = Stay then length chs else Suc (length acks)) chs)"
  using assms
proof (induction chs arbitrary: db sub acks)
  case Nil
  then show ?case by (auto simp: running_def split: option.splits)
next
  case (Cons c chs)
  obtain db1 sub1 where s: "subscribe_one B c db sub = (db1, sub1)" by force
  let ?ack = "ack_subscribe ''subscribe'' c (length (sb_tasks sub1))"
  obtain fs m db2 sub2 where r: "reply_then ?ack Stay db1 sub1 = (fs, m, db2, sub2)" by (metis prod_cases4)
  have run: "\<forall>ch \<in> dom (hm_get (sb_tasks sub2)). running sub2 ch"
      and d: "dom (hm_get (sb_tasks sub2)) = insert c (dom (hm_get (sb_tasks sub)))"
    using Cons.prems(1) s reply_then_keeps [OF r]
    by (auto simp: subscribe_one_def running_insert update_conv' split: if_splits prod.splits)
  show ?case
  proof (cases "m = Stay")
    case True
    then have fs: "fs = [?ack]" using reply_then_cases [OF r] by auto
    obtain acks1 where a: "subscribe_loop B chs db2 sub2 = (acks1, n, db', sub')" "acks = ?ack # acks1"
      using Cons.prems(2) by (auto simp: s r True fs split: prod.splits)
    from Cons.IH [OF run a(1)] d a(2) show ?thesis by auto
  next
    case False
    then have "n = Fail" "acks = []" "sub' = sub2" using Cons.prems(2) reply_then_cases [OF r] by (cases m; auto simp: s r)+
    moreover have "running sub2 ch \<longleftrightarrow> ch \<in> dom (hm_get (sb_tasks sub2))" using run by (auto simp: running_def split: option.splits)
    ultimately show ?thesis using d by auto
  qed
qed

lemma subscribe_loop_next: "subscribe_loop B chs db sub = (acks, n, db', sub') \<Longrightarrow> n = Stay \<or> n = Fail"
proof (induction chs arbitrary: db sub acks)
  case (Cons ch chs)
  then show ?case by (auto split: prod.splits sub_next.splits dest: reply_then_cases)
qed simp

lemma run_subscribed_failed:
  assumes "broadcast_ok B" "run_subscribed B ord writes channels [SubReadError err] db = (fs, r, db')"
  shows "r = SubFailed" "ch \<in> set (take (length fs) channels) \<Longrightarrow> subscribers B db' ch = Suc (subscribers B db ch)"
proof -
  obtain acks n db1 sub1 where s: "subscribe_loop B channels db (new_subscription writes) = (acks, n, db1, sub1)"
    by (metis prod_cases4)
  have inv: "sub_inv B (subscribers B db) (orphans B db) db1 sub1"
    using subscribe_loop_inv [OF assms(1) sub_inv_new s] by simp
  let ?k = "if n = Stay then length channels else Suc (length acks)"
  have run: "running sub1 c \<longleftrightarrow> c \<in> set (take ?k channels)" for c
    using subscribe_loop_running [OF _ s] by (simp add: new_subscription_def)
  have r: "r = SubFailed \<and> db' = db1 \<and> (n = Stay \<or> length fs = length acks)"
  proof (cases "n = Stay")
    case True
    then show ?thesis
      using assms(2) s by (cases err) (auto simp: run_subscribed_def split: prod.splits sub_next.splits dest!: reply_then_cases)
  next
    case False
    then have "n = Fail" using subscribe_loop_next [OF s] by blast
    then show ?thesis using assms(2) s by (auto simp: run_subscribed_def)
  qed
  then show "r = SubFailed" by simp
  assume ch: "ch \<in> set (take (length fs) channels)"
  have "running sub1 ch"
  proof (cases "n = Stay")
    case True
    then show ?thesis using run [of ch] in_set_takeD [OF ch] by simp
  next
    case False
    then have "set (take (length fs) channels) \<subseteq> set (take ?k channels)" using r by (intro set_take_subset_set_take) simp
    then show ?thesis using run [of ch] ch by blast
  qed
  then show "subscribers B db' ch = Suc (subscribers B db ch)" using inv r by (simp add: sub_inv_def)
qed

end
