(* ===== verification/Rereading.thy ===== *)
theory Rereading
  imports Replay
begin

text \<open>
  Reading a log again. \<open>replay\<close> (\<^verbatim>\<open>src/src/aof.rs\<close>) may find anything in the file: garbage, torn
  frames, commands that fail. It cuts the file where it stopped. Here is shown that a later replay of the
  file that was left, read in the same pieces, applies the same commands and finds nothing to cut.
  The first section shows that the parser never looks behind the frame it returns.
\<close>

section \<open>The parser does not look ahead\<close>

text \<open>A function on a cursor that succeeds without touching \<open>x\<close> succeeds in the same way when \<open>x\<close> is not there.\<close>

definition within :: "(bytes \<Rightarrow> ('e, 'a \<times> bytes) result) \<Rightarrow> bytes \<Rightarrow> bytes \<Rightarrow> bool" where
  "within p c x \<longleftrightarrow> (\<forall>v r'. p (c @ x) = Inr (v, r') \<longrightarrow> length x \<le> length r' \<longrightarrow> (\<exists>r. r' = r @ x \<and> p c = Inr (v, r)))"

lemma withinD: "within p c x \<Longrightarrow> p (c @ x) = Inr (v, r') \<Longrightarrow> length x \<le> length r' \<Longrightarrow> \<exists>r. r' = r @ x \<and> p c = Inr (v, r)"
  by (simp add: within_def)

lemma find_crlf_local: "find_crlf (c @ x) = Some i \<Longrightarrow> i + 2 \<le> length c \<Longrightarrow> find_crlf c = Some i"
proof (induction c arbitrary: i)
  case (Cons a c)
  then obtain b c' where c: "c = b # c'" by (cases c) auto
  show ?case
  proof (cases "a = CR \<and> b = LF")
    case False
    then obtain j where "find_crlf (c @ x) = Some j" "i = Suc j" using Cons.prems(1) by (auto simp: c)
    with Cons.IH [of j] Cons.prems(2) False show ?thesis by (auto simp: c)
  qed (use Cons.prems(1) in \<open>auto simp: c\<close>)
qed simp

lemma read_line_within: "within read_line c x"
  unfolding within_def
proof (intro allI impI)
  fix v r' assume "read_line (c @ x) = Inr (v, r')" "length x \<le> length r'"
  then obtain i where i: "find_crlf (c @ x) = Some i" "v = take i (c @ x)" "r' = drop (i + 2) (c @ x)"
    by (auto simp: read_line_Inr)
  have "i + 2 \<le> length (c @ x)" using find_crlf_append [OF i(1), of "[]"] by simp
  with i(3) \<open>length x \<le> length r'\<close> have "i + 2 \<le> length c" by simp
  with find_crlf_local [OF i(1)] i(2,3) show "\<exists>r. r' = r @ x \<and> read_line c = Inr (v, r)"
    by (auto simp: read_line_Inr)
qed

lemma read_line_string_within: "within read_line_string c x"
  using read_line_within [of c x] by (auto simp: within_def read_line_string_Inr)

lemma read_line_int_within: "within read_line_int c x"
  using read_line_within [of c x] by (fastforce simp: within_def read_line_int_Inr)

lemma parse_bulk_within: "within parse_bulk c x"
  unfolding within_def
proof (intro allI impI)
  fix f r' assume "parse_bulk (c @ x) = Inr (f, r')" and len: "length x \<le> length r'"
  then obtain n c1 where n: "read_line_int (c @ x) = Inr (n, c1)" and
    body: "(n = -1 \<and> f = Null \<and> r' = c1) \<or> (0 \<le> sint n \<and> bulk_response_fits (nat (sint n)) \<and>
       drop (nat (sint n)) c1 = CR # LF # r' \<and> f = Bulk (take (nat (sint n)) c1))"
    unfolding parse_bulk_Inr by blast
  let ?k = "nat (sint n)"
  have k: "?k + 2 + length r' = length c1" if "drop ?k c1 = CR # LF # r'"
  proof -
    have "length (drop ?k c1) = length r' + 2" using that by simp
    then show ?thesis unfolding length_drop by arith
  qed
  from body k len have "length x \<le> length c1" by fastforce
  then obtain c2 where c: "c1 = c2 @ x" "read_line_int c = Inr (n, c2)"
    using withinD [OF read_line_int_within n] by blast
  show "\<exists>r. r' = r @ x \<and> parse_bulk c = Inr (f, r)"
  proof (cases "n = -1 \<and> f = Null \<and> r' = c1")
    case True
    then show ?thesis unfolding parse_bulk_Inr using c by blast
  next
    case False
    with body have b: "0 \<le> sint n" "bulk_response_fits ?k" "drop ?k c1 = CR # LF # r'" "f = Bulk (take ?k c1)"
      by blast+
    have "?k + 2 \<le> length c2" using k [OF b(3)] len c(1) by simp
    then have "2 \<le> length (drop ?k c2)" unfolding length_drop by arith
    then obtain u v r where d: "drop ?k c2 = u # v # r" by (metis One_nat_def Suc_1 Suc_le_length_iff)
    have "drop ?k c1 = drop ?k c2 @ x" using \<open>?k + 2 \<le> length c2\<close> by (simp add: c(1))
    with b(3) d have r: "drop ?k c2 = CR # LF # r" "r' = r @ x" by simp_all
    then show ?thesis
      unfolding parse_bulk_Inr using c b \<open>?k + 2 \<le> length c2\<close> by (intro exI [of _ r]) auto
  qed
qed

lemma parse_frame_within_aux:
  "parse_frame d c0 = Inr (f, r') \<Longrightarrow> c0 = c @ x \<Longrightarrow> length x \<le> length r' \<Longrightarrow>
     \<exists>r. r' = r @ x \<and> parse_frame d c = Inr (f, r)"
  "parse_items n d c0 = Inr (fs, rs') \<Longrightarrow> c0 = c @ x \<Longrightarrow> length x \<le> length rs' \<Longrightarrow>
     \<exists>r. rs' = r @ x \<and> parse_items n d c = Inr (fs, r)"
proof (induction d c0 and n d c0 arbitrary: c f r' and c fs rs' rule: parse_frame_parse_items.induct)
  case (1 depth c0)
  from "1.prems"(1) have d: "depth \<le> MAX_NESTING_DEPTH" by (rule parse_frame_Inr_depth)
  have "length r' < length c0" using parse_frame_shrinks "1.prems"(1) by blast
  then obtain tag c1 where c: "c = tag # c1" "c0 = tag # c1 @ x"
    using "1.prems" by (cases c) auto
  show ?case
  proof (cases "tag = CHR ''*''")
    case True
    with "1.prems"(1) d obtain n c2 where n: "read_line_int (c1 @ x) = Inr (n, c2)" and
      body: "(n = -1 \<and> f = NullArray \<and> r' = c2) \<or>
        (n \<noteq> -1 \<and> \<not> sint n < 0 \<and> \<not> MAX_ARRAY_LEN < nat (sint n) \<and>
         (\<exists>items. parse_items (nat (sint n)) (Suc depth) c2 = Inr (items, r') \<and> f = Array items))"
      unfolding c by (auto simp: parse_frame_Cons result_cases split: if_splits)
    have "length r' \<le> length c2" using body parse_frame_shrinks_aux(2) by auto
    then obtain c3 where c3: "c2 = c3 @ x" "read_line_int c1 = Inr (n, c3)"
      using withinD [OF read_line_int_within n] "1.prems"(3) by auto
    show ?thesis
    proof (cases "n = -1 \<and> f = NullArray \<and> r' = c2")
      case True
      then show ?thesis using \<open>tag = _\<close> d c3 by (simp add: c parse_frame_Cons)
    next
      case False
      with body obtain items where h: "n \<noteq> -1" "\<not> sint n < 0" "\<not> MAX_ARRAY_LEN < nat (sint n)"
          "parse_items (nat (sint n)) (Suc depth) c2 = Inr (items, r')" "f = Array items" by blast
      obtain r where r: "r' = r @ x" "parse_items (nat (sint n)) (Suc depth) c3 = Inr (items, r)"
        using "1.IH" True d n h "1.prems"(3) by (simp add: c(2) c3(1) read_u8_def) metis
      then show ?thesis using True d c3 h by (simp add: c(1) parse_frame_Cons)
    qed
  next
    case False
    note w = withinD [OF read_line_string_within, of c1 x] withinD [OF read_line_int_within, of c1 x]
      withinD [OF parse_bulk_within, of c1 x]
    show ?thesis
      using "1.prems"(1,3) d False unfolding c
      by (auto simp: parse_frame_Cons result_cases dest!: w split: if_splits)
  qed
next
  case (3 cnt depth c0)
  from "3.prems"(1) obtain item c1 items where i: "parse_frame depth c0 = Inr (item, c1)"
      "parse_items cnt depth c1 = Inr (items, rs')" "fs = item # items"
    by (auto simp: result_cases)
  have "length rs' \<le> length c1" using parse_frame_shrinks_aux(2) i(2) by blast
  then obtain c2 where c2: "c1 = c2 @ x" "parse_frame depth c = Inr (item, c2)"
    using "3.IH"(1) [OF i(1) "3.prems"(2)] "3.prems"(3) by auto
  then obtain r where "rs' = r @ x" "parse_items cnt depth c2 = Inr (items, r)"
    using "3.IH"(2) [OF i(2) c2(1) "3.prems"(3)] by blast
  with c2 i(3) show ?case by (auto simp: result_cases)
qed simp

lemma parse_frame_within: "within (parse_frame d) c x"
  using parse_frame_within_aux(1) unfolding within_def by blast

lemma find_lf_local: "find_lf (c @ x) = Some i \<Longrightarrow> i < length c \<Longrightarrow> find_lf c = Some i"
  by (induction c arbitrary: i) (auto split: if_splits)

text \<open>What an inline request, or a blank line, takes off the buffer.\<close>

lemma parse_inline_took:
  assumes "parse_inline buf = Inr (fo, b)" "fo \<noteq> None \<or> length b \<noteq> length buf"
  obtains l where "buf = l @ b" "l \<noteq> []" "\<And>z. parse_inline (l @ z) = Inr (fo, z)"
proof -
  obtain i where i: "find_lf buf = Some i" "\<not> MAX_LINE_LEN < i"
      "inline_frame (strip_cr (take i buf)) = Inr fo" "b = drop (i + 1) buf"
    using assms by (auto simp: parse_inline_def result_cases split: option.splits if_splits)
  have bound: "i < length buf" using i(1) by (rule find_lf_bound)
  have "find_lf (take (i + 1) buf) = Some i"
    using find_lf_local [of "take (i + 1) buf" "drop (i + 1) buf" i] i(1) bound by simp
  then have "parse_inline (take (i + 1) buf @ z) = Inr (fo, z)" for z
    using i(2,3) bound find_lf_append [of "take (i + 1) buf" i z] by (simp add: parse_inline_def min_def)
  then show ?thesis using bound i(4) by (intro that [of "take (i + 1) buf"]) auto
qed

text \<open>
  What \<open>parse\<close> takes off the buffer: with a frame, bytes that are parsed to this frame whatever follows; without,
  blank lines, after which it waits.
\<close>

definition took :: "bytes \<Rightarrow> frame option \<Rightarrow> bytes \<Rightarrow> bool" where
  "took p fo r \<longleftrightarrow> (case fo of
      Some f \<Rightarrow> p \<noteq> [] \<and> (\<forall>z. parse (p @ z) = Inr (Some f, z))
    | None \<Rightarrow> (\<forall>z. parse (p @ z) = parse z) \<and> parse r = Inr (None, r))"

lemma parse_took: "parse buf = Inr (fo, r) \<Longrightarrow> \<exists>p. buf = p @ r \<and> took p fo r"
proof (induction buf rule: parse.induct)
  case (1 buf)
  show ?case
  proof (cases "buf = []")
    case True
    then show ?thesis using "1.prems" by (simp add: parse_Nil took_def)
  next
    case ne: False
    show ?thesis
    proof (cases "is_resp_type (hd buf)")
      case True
      show ?thesis
      proof (cases fo)
        case None
        then have "r = buf"
          using "1.prems" True ne
          by (auto simp: parse.simps [of buf] Let_def split: sum.splits prod.splits resp_error.splits if_splits)
        then show ?thesis using "1.prems" None by (simp add: took_def)
      next
        case (Some f)
        then obtain c where c: "parse_frame 0 buf = Inr (f, c)" "r = drop (length buf - length c) buf"
            "\<not> MAX_BUFFERED_FRAME_BYTES < length buf - length c"
          using "1.prems" True ne
          by (auto simp: parse.simps [of buf] Let_def split: sum.splits prod.splits resp_error.splits if_splits)
        have lc: "length c < length buf" using parse_frame_shrinks [OF c(1)] .
        let ?p = "take (length buf - length c) buf"
        have buf: "?p @ r = buf" and lr: "length r = length c" "?p \<noteq> []" using lc ne by (simp_all add: c(2))
        have "parse_frame 0 (?p @ r) = Inr (f, c)" unfolding buf by (rule c(1))
        then have "\<exists>c'. c = c' @ r \<and> parse_frame 0 ?p = Inr (f, c')"
          by (rule withinD [OF parse_frame_within]) (simp only: lr(1))
        then obtain c' where c': "c = c' @ r" "parse_frame 0 ?p = Inr (f, c')" by blast
        have "c' = []" using arg_cong [OF c'(1), of length] lr(1) by simp
        with c'(2) have p: "parse_frame 0 ?p = Inr (f, [])" by simp
        have "is_resp_type (hd ?p)" using True buf lr(2) by (metis hd_append2)
        then have "parse (?p @ z) = Inr (Some f, z)" for z
          using parse_frame_append [OF p, of z] lr(2) c(3) by (simp add: parse.simps [of "?p @ z"] Let_def)
        then have "took ?p fo r" using lr(2) unfolding took_def Some option.case by blast
        with buf [symmetric] show ?thesis by blast
      qed
    next
      case False
      with "1.prems" ne obtain go b where b: "parse_inline buf = Inr (go, b)"
        by (auto simp: parse.simps [of buf] split: sum.splits prod.splits)
      show ?thesis
      proof (cases "go = None \<and> length b = length buf")
        case True
        then have "fo = None \<and> r = b" using "1.prems" False ne b by (auto simp: parse.simps [of buf])
        moreover have "b = buf"
          using b True ne
          by (auto simp: parse_inline_def map_result_Inr split: option.splits if_splits dest!: find_lf_bound)
        ultimately show ?thesis using "1.prems" by (simp add: took_def)
      next
        case went: False
        then obtain l where l: "buf = l @ b" "l \<noteq> []" "\<And>z. parse_inline (l @ z) = Inr (go, z)"
          using parse_inline_took [OF b] by blast
        have step: "parse (l @ z) = (case go of Some f \<Rightarrow> Inr (Some f, z) | None \<Rightarrow> parse z)" for z
          using l False by (simp add: parse.simps [of "l @ z"] split: option.splits)
        show ?thesis
        proof (cases go)
          case None
          with step [of b] "1.prems" l have b': "parse b = Inr (fo, r)" by simp
          have "length b < length buf" using l by simp
          then obtain p where p: "b = p @ r" "took p fo r"
            using "1.IH" [OF ne False b refl None _ b'] by auto
          have "took (l @ p) fo r"
            using p(2) step None by (auto simp: took_def split: option.splits)
          with p l show ?thesis by auto
        next
          case (Some f)
          then have "fo = Some f \<and> r = b" using step [of b] "1.prems" l by simp
          then show ?thesis using l step Some by (auto simp: took_def)
        qed
      qed
    qed
  qed
qed

text \<open>A buffer on which the parser waits does not begin with anything complete.\<close>

definition begins_complete :: "bytes \<Rightarrow> bool" where
  "begins_complete s \<longleftrightarrow> (\<exists>p q fo. s = p @ q \<and> p \<noteq> [] \<and>
     (case fo of Some f \<Rightarrow> \<forall>z. parse (p @ z) = Inr (Some f, z) | None \<Rightarrow> \<forall>z. parse (p @ z) = parse z))"

lemma waiting_not_complete: "parse s = Inr (None, s) \<Longrightarrow> \<not> begins_complete s"
proof
  assume w: "parse s = Inr (None, s)" and "begins_complete s"
  then obtain p q fo where s: "s = p @ q" "p \<noteq> []"
      "case fo of Some f \<Rightarrow> \<forall>z. parse (p @ z) = Inr (Some f, z) | None \<Rightarrow> \<forall>z. parse (p @ z) = parse z"
    unfolding begins_complete_def by blast
  then have "parse q = Inr (None, s)" using w by (cases fo) auto
  then obtain p' where "q = p' @ s" using parse_took by blast
  with s(1,2) show False by simp
qed

lemma begins_complete_append: "begins_complete s \<Longrightarrow> begins_complete (s @ x)"
proof -
  assume "begins_complete s"
  then obtain p q fo where "s = p @ q" "p \<noteq> []"
      "case fo of Some f \<Rightarrow> \<forall>z. parse (p @ z) = Inr (Some f, z) | None \<Rightarrow> \<forall>z. parse (p @ z) = parse z"
    unfolding begins_complete_def by blast
  then show ?thesis unfolding begins_complete_def by (intro exI [of _ p] exI [of _ "q @ x"] exI [of _ fo]) simp
qed

section \<open>One pass over the buffer\<close>

text \<open>A state of the replay at one instant, after \<open>T\<close> bytes were read, that has not decided to stop.\<close>

definition replaying :: "('tx, 'rx) env \<Rightarrow> nat \<Rightarrow> 'tx replay_state \<Rightarrow> bool" where
  "replaying E T rs \<longleftrightarrow> rs_truncate_to rs = None \<and> length (rs_buf rs) \<le> T \<and>
     rs_valid_len rs \<le> T - length (rs_buf rs) \<and> db_wf (xxh E) (rs_db rs)"

definition same_result :: "('tx, 'rx) env \<Rightarrow> u128 \<Rightarrow> 'tx replay_state \<Rightarrow> 'tx replay_state \<Rightarrow> bool" where
  "same_result E now rs rs' \<longleftrightarrow> rs_applied rs = rs_applied rs' \<and>
     db_live (xxh E) now (rs_db rs) = db_live (xxh E) now (rs_db rs')"

text \<open>The places where the file may be cut after this pass.\<close>

definition stops_at :: "nat \<Rightarrow> 'tx replay_state \<Rightarrow> nat \<Rightarrow> bool" where
  "stops_at T rs k \<longleftrightarrow> rs_truncate_to rs = Some k \<or>
     rs_truncate_to rs = None \<and> (k = rs_valid_len rs \<or> k = T - length (rs_buf rs))"

lemma buf_last:
  "rs\<lparr>rs_buf := z, rs_db := db, rs_applied := n, rs_valid_len := v\<rparr> =
   rs\<lparr>rs_db := db, rs_applied := n, rs_valid_len := v, rs_buf := z\<rparr>"
  by (cases rs) simp

text \<open>The three ways a pass begins.\<close>

lemma drain_cases:
  assumes "replaying E T rs"
  obtains (stop) "same_result E now (drain E (\<lambda>_ _. now) T rs) rs"
      "rs_truncate_to (drain E (\<lambda>_ _. now) T rs) \<in> {Some (rs_valid_len rs), Some (T - length (rs_buf rs))}"
    | (wait) p r where "rs_buf rs = p @ r" "took p None r" "drain E (\<lambda>_ _. now) T rs = rs\<lparr>rs_buf := r\<rparr>"
        "length r \<le> MAX_AOF_BUFFERED_FRAME_BYTES"
    | (step) p r f cmd db where "rs_buf rs = p @ r" "took p (Some f) r" "from_frame now f = Inr cmd"
      "replaying E T (rs\<lparr>rs_db := db, rs_applied := rs_applied rs + 1, rs_valid_len := T - length r, rs_buf := r\<rparr>)"
      "\<And>z. length z \<le> length r \<Longrightarrow> drain E (\<lambda>_ _. now) (T - length r + length z) (rs\<lparr>rs_buf := p @ z\<rparr>) =
        drain E (\<lambda>_ _. now) (T - length r + length z)
          (rs\<lparr>rs_db := db, rs_applied := rs_applied rs + 1, rs_valid_len := T - length r, rs_buf := z\<rparr>)"
proof (cases "parse (rs_buf rs)")
  case (Inl e)
  then have "rs_buf rs \<noteq> []" by (auto simp: parse_Nil)
  with Inl have "drain E (\<lambda>_ _. now) T rs = rs\<lparr>rs_truncate_to := Some (rs_valid_len rs)\<rparr>"
    by (subst drain.simps) (simp add: Let_def)
  with stop show ?thesis by (simp add: same_result_def)
next
  case (Inr q)
  obtain fo r where q: "parse (rs_buf rs) = Inr (fo, r)" using Inr by (cases q) auto
  then obtain p where p: "rs_buf rs = p @ r" "took p fo r" using parse_took by blast
  show ?thesis
  proof (cases fo)
    case None
    show ?thesis
    proof (cases "length r \<le> MAX_AOF_BUFFERED_FRAME_BYTES")
      case True
      have "drain E (\<lambda>_ _. now) T rs = rs\<lparr>rs_buf := r\<rparr>"
        by (subst drain.simps) (use q p None True in \<open>auto simp: Let_def parse_Nil\<close>)
      with wait p None True show ?thesis by blast
    next
      case False
      have "drain E (\<lambda>_ _. now) T rs = rs\<lparr>rs_buf := r, rs_truncate_to := Some (rs_valid_len rs)\<rparr>"
        by (subst drain.simps) (use q p None False in \<open>auto simp: Let_def parse_Nil\<close>)
      with stop show ?thesis by (simp add: same_result_def)
    qed
  next
    case (Some f)
    have ne: "rs_buf rs \<noteq> []" using p Some by (auto simp: took_def)
    show ?thesis
    proof (cases "from_frame now f")
      case (Inl e)
      have "drain E (\<lambda>_ _. now) T rs = rs\<lparr>rs_buf := r, rs_truncate_to := Some (T - length (rs_buf rs))\<rparr>"
        by (subst drain.simps) (use q Some ne Inl in \<open>simp add: Let_def\<close>)
      with stop show ?thesis by (simp add: same_result_def)
    next
      case (Inr cmd)
      obtain res db where a: "apply_cmd E (\<lambda>_. now) cmd (rs_db rs) = (res, db)" by force
      show ?thesis
      proof (cases "\<exists>err. res = Error err")
        case True
        then obtain err where err: "res = Error err" by blast
        have "drain E (\<lambda>_ _. now) T rs = rs\<lparr>rs_buf := r, rs_db := db, rs_truncate_to := Some (T - length (rs_buf rs))\<rparr>"
          by (subst drain.simps) (use q Some ne Inr a err in \<open>simp add: Let_def\<close>)
        moreover have "append_fits cmd"
          using from_frame_append_fits [OF Inr request_wf [OF _ Inr]] q Some by blast
        then have "db_live (xxh E) now db = db_live (xxh E) now (rs_db rs)"
          using error_keeps_live [of E "rs_db rs" cmd now err] a err assms by (simp add: replaying_def)
        ultimately show ?thesis using stop by (simp add: same_result_def)
      next
        case False
        let ?rs = "\<lambda>z. rs\<lparr>rs_db := db, rs_applied := rs_applied rs + 1, rs_valid_len := T - length r, rs_buf := z\<rparr>"
        have "db_wf (xxh E) db"
          using apply_keeps [of E "rs_db rs" cmd "\<lambda>_. now"] a assms by (simp add: replaying_def keeps_def)
        then have ok: "replaying E T (?rs r)" using assms p(1) by (simp add: replaying_def)
        have "drain E (\<lambda>_ _. now) (T - length r + length z) (rs\<lparr>rs_buf := p @ z\<rparr>) =
            drain E (\<lambda>_ _. now) (T - length r + length z) (?rs z)" if "length z \<le> length r" for z
        proof -
          have "parse (p @ z) = Inr (Some f, z)" "p \<noteq> []" using p(2) Some by (simp_all add: took_def)
          then show ?thesis
            by (subst drain.simps) (use Inr a False in \<open>auto simp: Let_def buf_last split: frame.splits\<close>)
        qed
        then show ?thesis using step [OF p(1) _ Inr ok] p(2) Some by blast
      qed
    qed
  qed
qed

lemma drain_blank:
  assumes "took p None r" shows "drain E c T (rs\<lparr>rs_buf := p\<rparr>) = rs\<lparr>rs_buf := []\<rparr>"
proof -
  have "parse p = Inr (None, [])" using assms parse_Nil by (simp add: took_def) (metis append_Nil2)
  then show ?thesis by (subst drain.simps) (auto simp: Let_def)
qed

lemma took_begins: "took p fo r \<Longrightarrow> p \<noteq> [] \<Longrightarrow> begins_complete (p @ x)"
  unfolding begins_complete_def took_def by (intro exI [of _ p] exI [of _ x] exI [of _ fo]) (auto split: option.splits)

text \<open>After a pass that does not stop, the parser waits.\<close>

lemma drain_waits:
  assumes "replaying E T rs" "rs_truncate_to (drain E (\<lambda>_ _. now) T rs) = None"
  shows "replaying E T (drain E (\<lambda>_ _. now) T rs) \<and>
    parse (rs_buf (drain E (\<lambda>_ _. now) T rs)) = Inr (None, rs_buf (drain E (\<lambda>_ _. now) T rs)) \<and>
    (\<exists>p. rs_buf rs = p @ rs_buf (drain E (\<lambda>_ _. now) T rs)) \<and>
    length (rs_buf (drain E (\<lambda>_ _. now) T rs)) \<le> MAX_AOF_BUFFERED_FRAME_BYTES"
  using assms
proof (induction "length (rs_buf rs)" arbitrary: rs rule: less_induct)
  case less
  from less.prems(1) show ?case
  proof (cases rule: drain_cases [where now = now])
    case stop
    with less.prems(2) show ?thesis by auto
  next
    case (wait p r)
    with less.prems(1) show ?thesis by (simp add: replaying_def took_def) arith
  next
    case (step p r f cmd db)
    let ?rs = "rs\<lparr>rs_db := db, rs_applied := rs_applied rs + 1, rs_valid_len := T - length r, rs_buf := r\<rparr>"
    have "rs\<lparr>rs_buf := p @ r\<rparr> = rs" by (simp add: step(1) [symmetric])
    moreover have "T - length r + length r = T" using less.prems(1) step(1) by (simp add: replaying_def)
    ultimately have d: "drain E (\<lambda>_ _. now) T rs = drain E (\<lambda>_ _. now) T ?rs" using step(5) [of r] by simp
    have "length (rs_buf ?rs) < length (rs_buf rs)" using step(1,2) by (simp add: took_def)
    note IH = less.hyps [OF this step(4) less.prems(2) [unfolded d]]
    then obtain q where "r = q @ rs_buf (drain E (\<lambda>_ _. now) T ?rs)" by auto
    with step(1) have "rs_buf rs = (p @ q) @ rs_buf (drain E (\<lambda>_ _. now) T ?rs)" by (metis append.assoc)
    with IH show ?thesis unfolding d by blast
  qed
qed

text \<open>
  A pass over the buffer up to a place where the file may be cut: either the place is not behind the beginning of
  the buffer, and nothing was applied, or a pass over the bytes before the place uses them up and gives the same.
\<close>

lemma drain_cut:
  assumes "replaying E T rs" "stops_at T (drain E (\<lambda>_ _. now) T rs) k"
  shows "if k \<le> T - length (rs_buf rs)
    then k \<in> {rs_valid_len rs, T - length (rs_buf rs)} \<and> same_result E now (drain E (\<lambda>_ _. now) T rs) rs
    else k \<le> T \<and> begins_complete (take (k - (T - length (rs_buf rs))) (rs_buf rs)) \<and>
      (\<exists>rs2. drain E (\<lambda>_ _. now) k (rs\<lparr>rs_buf := take (k - (T - length (rs_buf rs))) (rs_buf rs)\<rparr>) = rs2 \<and>
        rs_truncate_to rs2 = None \<and> rs_buf rs2 = [] \<and> same_result E now rs2 (drain E (\<lambda>_ _. now) T rs))"
  using assms
proof (induction "length (rs_buf rs)" arbitrary: rs rule: less_induct)
  case less
  have None: "rs_truncate_to rs = None" and le: "length (rs_buf rs) \<le> T" "rs_valid_len rs \<le> T - length (rs_buf rs)"
    using less.prems(1) by (simp_all add: replaying_def)
  from less.prems(1) show ?case
  proof (cases rule: drain_cases [where now = now])
    case stop
    with less.prems(2) le show ?thesis by (auto simp: stops_at_def)
  next
    case (wait p r)
    have k: "k = rs_valid_len rs \<or> k = T - length r" using less.prems(2) None by (auto simp: stops_at_def wait(3))
    show ?thesis
    proof (cases "k \<le> T - length (rs_buf rs)")
      case True
      then have "k \<in> {rs_valid_len rs, T - length (rs_buf rs)}" using k le(1) wait(1) by auto
      with True show ?thesis by (simp add: wait(3) same_result_def)
    next
      case False
      then have "k = T - length r" "p \<noteq> []" using k le wait(1) by auto
      then have t: "take (k - (T - length (rs_buf rs))) (rs_buf rs) = p" using le(1) wait(1) by simp
      have "begins_complete p" using took_begins [OF wait(2) \<open>p \<noteq> []\<close>, of "[]"] by simp
      with False show ?thesis
        using drain_blank [OF wait(2), of E "\<lambda>_ _. now" k rs] \<open>k = T - length r\<close> None unfolding t wait(3) by (simp add: same_result_def)
    qed
  next
    case (step p r f cmd db)
    let ?rs = "\<lambda>z. rs\<lparr>rs_db := db, rs_applied := rs_applied rs + 1, rs_valid_len := T - length r, rs_buf := z\<rparr>"
    have ne: "p \<noteq> []" using step(2) by (simp add: took_def)
    have "rs\<lparr>rs_buf := p @ r\<rparr> = rs" by (simp add: step(1) [symmetric])
    moreover have Tr: "T - length r + length r = T" using le(1) step(1) by simp
    ultimately have d: "drain E (\<lambda>_ _. now) T rs = drain E (\<lambda>_ _. now) T (?rs r)" using step(5) [of r] by simp
    have len: "length (rs_buf (?rs r)) < length (rs_buf rs)" using step(1) ne by simp
    have st: "stops_at T (drain E (\<lambda>_ _. now) T (?rs r)) k" using less.prems(2) unfolding d .
    have IH: "if k \<le> T - length r
        then k = T - length r \<and> same_result E now (drain E (\<lambda>_ _. now) T (?rs r)) (?rs r)
        else k \<le> T \<and> begins_complete (take (k - (T - length r)) r) \<and>
          (\<exists>rs2. drain E (\<lambda>_ _. now) k (?rs (take (k - (T - length r)) r)) = rs2 \<and>
            rs_truncate_to rs2 = None \<and> rs_buf rs2 = [] \<and> same_result E now rs2 (drain E (\<lambda>_ _. now) T (?rs r)))"
      using less.hyps [OF len step(4) st] by (cases "k \<le> T - length r") simp_all
    have S: "T - length (rs_buf rs) = T - length r - length p" "length p \<le> T - length r"
      using le(1) step(1) by simp_all
    have k: "T - length r \<le> k" "k \<le> T" using IH by (auto split: if_splits)
    let ?z = "take (k - (T - length r)) r"
    have "k - (T - length (rs_buf rs)) = length p + (k - (T - length r))" using k(1) S by arith
    then have t: "take (k - (T - length (rs_buf rs))) (rs_buf rs) = p @ ?z" by (simp add: step(1))
    have "T - length r + length ?z = k" using k Tr unfolding length_take by arith
    then have "drain E (\<lambda>_ _. now) k (rs\<lparr>rs_buf := p @ ?z\<rparr>) = drain E (\<lambda>_ _. now) k (?rs ?z)"
      using step(5) [of ?z] by simp
    moreover have "\<exists>rs2. drain E (\<lambda>_ _. now) k (?rs ?z) = rs2 \<and> rs_truncate_to rs2 = None \<and> rs_buf rs2 = [] \<and>
        same_result E now rs2 (drain E (\<lambda>_ _. now) T (?rs r))"
    proof (cases "k \<le> T - length r")
      case True
      then have "drain E (\<lambda>_ _. now) k (?rs ?z) = ?rs []" by (subst drain.simps) simp
      with IH True None show ?thesis by (simp add: same_result_def)
    qed (use IH in simp)
    moreover have "\<not> k \<le> T - length (rs_buf rs)" using k(1) S ne by (cases p) auto
    ultimately show ?thesis
      using k(2) took_begins [OF step(2) ne] unfolding t d by simp
  qed
qed

section \<open>The whole file\<close>

text \<open>The pieces in which a file is read that has been cut to \<open>n\<close> bytes.\<close>

fun cut :: "nat \<Rightarrow> bytes list \<Rightarrow> bytes list" where
  "cut n [] = []"
| "cut n (chunk # chunks) =
     (if n = 0 then [] else if n \<le> length chunk then [take n chunk] else chunk # cut (n - length chunk) chunks)"

lemma concat_cut: "concat (cut n chunks) = take n (concat chunks)"
  by (induction n chunks rule: cut.induct) auto

lemma cut_0 [simp]: "cut 0 chunks = []"
  by (cases chunks) auto

lemma replay_loop_used_up:
  "drain E c T rs = rs' \<Longrightarrow> rs_truncate_to rs' = None \<Longrightarrow> rs_buf rs' = [] \<Longrightarrow> replay_loop E c [] T rs = rs'"
  by (simp add: Let_def drain.simps [of E c T rs'])

lemma replay_loop_Nil:
  assumes "replaying E T rs" "rs_truncate_to (drain E (\<lambda>_ _. now) T rs) = None"
  shows "replay_loop E (\<lambda>_ _. now) [] T rs = (if rs_buf (drain E (\<lambda>_ _. now) T rs) = [] then drain E (\<lambda>_ _. now) T rs
    else (drain E (\<lambda>_ _. now) T rs)\<lparr>rs_truncate_to := Some (rs_valid_len (drain E (\<lambda>_ _. now) T rs))\<rparr>)"
proof -
  let ?rs = "drain E (\<lambda>_ _. now) T rs"
  have "drain E (\<lambda>_ _. now) T ?rs = ?rs" using drain_waits [OF assms] by (intro drain_stop) auto
  then show ?thesis using assms(2) by (simp add: Let_def)
qed

lemma replay_loop_Cons:
  "rs_truncate_to (drain E c T rs) = None \<Longrightarrow> replay_loop E c (chunk # chunks) T rs =
     replay_loop E c chunks (T + length chunk) ((drain E c T rs)\<lparr>rs_buf := rs_buf (drain E c T rs) @ chunk\<rparr>)"
  by (simp add: Let_def del: replay_loop.simps(1))

declare replay_loop.simps [simp del]

text \<open>Where the replay leaves the file to end, and the replay of the file that ends there.\<close>

definition end_of :: "nat \<Rightarrow> bytes list \<Rightarrow> 'tx replay_state \<Rightarrow> nat" where
  "end_of T chunks fin = (case rs_truncate_to fin of Some k \<Rightarrow> k | None \<Rightarrow> T + length (concat chunks))"

definition replay_again ::
  "('tx, 'rx) env \<Rightarrow> u128 \<Rightarrow> nat \<Rightarrow> bytes list \<Rightarrow> nat \<Rightarrow> 'tx replay_state \<Rightarrow> 'tx replay_state" where
  "replay_again E now k chunks T rs =
     (if k \<le> T then replay_loop E (\<lambda>_ _. now) [] k (rs\<lparr>rs_buf := take (k - (T - length (rs_buf rs))) (rs_buf rs)\<rparr>)
      else replay_loop E (\<lambda>_ _. now) (cut (k - T) chunks) T rs)"

lemma same_result_trans: "same_result E now a b \<Longrightarrow> same_result E now b c \<Longrightarrow> same_result E now a c"
  by (simp add: same_result_def)

text \<open>A pass that stops at \<open>k\<close>, or after which the file ends at \<open>k\<close>.\<close>

lemma pass_ends:
  assumes "replaying E T rs" "stops_at T (drain E (\<lambda>_ _. now) T rs) k" "same_result E now (drain E (\<lambda>_ _. now) T rs) fin"
  shows "if k \<le> T - length (rs_buf rs)
    then k \<in> {rs_valid_len rs, T - length (rs_buf rs)} \<and> same_result E now fin rs
    else k \<le> T \<and> begins_complete (take (k - (T - length (rs_buf rs))) (rs_buf rs @ x)) \<and>
      rs_truncate_to (replay_again E now k chunks T rs) = None \<and> same_result E now (replay_again E now k chunks T rs) fin"
proof (cases "k \<le> T - length (rs_buf rs)")
  case True
  then show ?thesis using drain_cut [OF assms(1,2)] assms(3) by (simp add: same_result_def)
next
  case False
  then obtain rs2 where d: "k \<le> T" "begins_complete (take (k - (T - length (rs_buf rs))) (rs_buf rs))"
      "drain E (\<lambda>_ _. now) k (rs\<lparr>rs_buf := take (k - (T - length (rs_buf rs))) (rs_buf rs)\<rparr>) = rs2"
      "rs_truncate_to rs2 = None" "rs_buf rs2 = []" "same_result E now rs2 (drain E (\<lambda>_ _. now) T rs)"
    using drain_cut [OF assms(1,2)] by auto
  have "replay_again E now k chunks T rs = rs2"
    using replay_loop_used_up [OF d(3-5)] d(1) by (simp add: replay_again_def)
  with False d begins_complete_append [OF d(2)] assms(3) show ?thesis by (simp add: same_result_def)
qed

text \<open>Where the parser waits, the file is not cut inside the buffer, and something complete comes before the cut.\<close>

lemma pass_begins:
  assumes "replaying E T rs" "rs_truncate_to (drain E (\<lambda>_ _. now) T rs) = None"
    "m = T - length (rs_buf (drain E (\<lambda>_ _. now) T rs))" "m < k"
    "begins_complete (take (k - m) (rs_buf (drain E (\<lambda>_ _. now) T rs) @ x))"
  shows "T < k" "begins_complete (take (k - (T - length (rs_buf rs))) (rs_buf rs @ x))"
proof -
  let ?rs = "drain E (\<lambda>_ _. now) T rs"
  note w = drain_waits [OF assms(1,2)]
  then obtain p where p: "rs_buf rs = p @ rs_buf ?rs" by blast
  have S: "T - length (rs_buf rs) + length p = m" using assms(1,3) by (simp add: replaying_def p)
  show "T < k"
  proof (rule ccontr)
    assume "\<not> T < k"
    then have "k - m \<le> length (rs_buf ?rs)" using assms(3) by arith
    then have "begins_complete (take (k - m) (rs_buf ?rs))" using assms(5) by simp
    from begins_complete_append [OF this, of "drop (k - m) (rs_buf ?rs)"] w waiting_not_complete show False by simp
  qed
  have "begins_complete (p @ take (k - m) (rs_buf ?rs @ x))"
  proof (cases "p = []")
    case False
    then have "\<not> m \<le> T - length (rs_buf rs)" using S by (cases p) auto
    moreover have "stops_at T ?rs m" using assms(2,3) by (simp add: stops_at_def)
    ultimately have "begins_complete (take (m - (T - length (rs_buf rs))) (rs_buf rs))"
      using drain_cut [OF assms(1), of now m] by (simp split: if_splits)
    moreover have "m - (T - length (rs_buf rs)) = length p" using S by arith
    ultimately have "begins_complete p" by (simp add: p)
    then show ?thesis by (rule begins_complete_append)
  qed (use assms(5) in simp)
  moreover have "k - (T - length (rs_buf rs)) = length p + (k - m)" using S assms(4) by arith
  ultimately show "begins_complete (take (k - (T - length (rs_buf rs))) (rs_buf rs @ x))" by (simp add: p)
qed

lemma replay_again_Cons:
  assumes "rs_truncate_to (drain E (\<lambda>_ _. now) T rs) = None" "T < k"
    "length (rs_buf (drain E (\<lambda>_ _. now) T rs)) \<le> T"
  shows "replay_again E now k (chunk # chunks) T rs = replay_again E now k chunks (T + length chunk)
    ((drain E (\<lambda>_ _. now) T rs)\<lparr>rs_buf := rs_buf (drain E (\<lambda>_ _. now) T rs) @ chunk\<rparr>)"
proof (cases "k \<le> T + length chunk")
  case True
  let ?rs = "drain E (\<lambda>_ _. now) T rs"
  have m: "k - T \<noteq> 0" "k - T \<le> length chunk" "T + (k - T) = k" using True assms(2) by arith+
  have "k - (T - length (rs_buf ?rs)) = length (rs_buf ?rs) + (k - T)" using assms(2,3) by arith
  then have "take (k - (T - length (rs_buf ?rs))) (rs_buf ?rs @ chunk) = rs_buf ?rs @ take (k - T) chunk" by simp
  moreover have "T + length (take (k - T) chunk) = k" using m by simp
  moreover have "cut (k - T) (chunk # chunks) = [take (k - T) chunk]"
    unfolding cut.simps if_not_P [OF m(1)] if_P [OF m(2)] ..
  ultimately show ?thesis
    using True assms(2) by (simp add: replay_again_def replay_loop_Cons [OF assms(1)] del: cut.simps)
next
  case False
  with assms(2) show ?thesis by (simp add: replay_again_def replay_loop_Cons [OF assms(1)])
qed

lemma replay_loop_cut:
  assumes "replaying E T rs" "fin = replay_loop E (\<lambda>_ _. now) chunks T rs"
  shows "if end_of T chunks fin \<le> T - length (rs_buf rs)
    then end_of T chunks fin \<in> {rs_valid_len rs, T - length (rs_buf rs)} \<and> same_result E now fin rs
    else end_of T chunks fin \<le> T + length (concat chunks) \<and>
      begins_complete (take (end_of T chunks fin - (T - length (rs_buf rs))) (rs_buf rs @ concat chunks)) \<and>
      rs_truncate_to (replay_again E now (end_of T chunks fin) chunks T rs) = None \<and>
      same_result E now (replay_again E now (end_of T chunks fin) chunks T rs) fin"
  using assms
proof (induction chunks arbitrary: T rs)
  case Nil
  let ?rs = "drain E (\<lambda>_ _. now) T rs"
  have "same_result E now ?rs fin \<and> stops_at T ?rs (end_of T [] fin)"
    using Nil.prems(2) replay_loop_Nil [OF Nil.prems(1), of now]
    by (cases "rs_truncate_to ?rs") (auto simp: replay_loop.simps Let_def end_of_def stops_at_def same_result_def)
  with pass_ends [OF Nil.prems(1), of now "end_of T [] fin" fin "[]" "[]"] show ?case by (auto split: if_splits)
next
  case (Cons chunk chunks)
  let ?rs = "drain E (\<lambda>_ _. now) T rs" and ?k = "end_of T (chunk # chunks) fin"
  note ends = pass_ends [OF Cons.prems(1), of now ?k fin "concat (chunk # chunks)" "chunk # chunks"]
  show ?case
  proof (cases "rs_truncate_to ?rs")
    case (Some k)
    then have "fin = ?rs" using Cons.prems(2) by (simp add: replay_loop.simps Let_def)
    with Some have "same_result E now ?rs fin" "stops_at T ?rs ?k" by (simp_all add: end_of_def stops_at_def same_result_def)
    with ends show ?thesis by (auto split: if_splits)
  next
    case None
    let ?next = "?rs\<lparr>rs_buf := rs_buf ?rs @ chunk\<rparr>" and ?T = "T + length chunk" and ?m = "T - length (rs_buf ?rs)"
    note w = drain_waits [OF Cons.prems(1) None]
    have fin: "fin = replay_loop E (\<lambda>_ _. now) chunks ?T ?next" using Cons.prems(2) by (simp only: replay_loop_Cons [OF None])
    have ok: "replaying E ?T ?next" using w by (simp add: replaying_def)
    have k: "end_of ?T chunks fin = ?k" by (simp add: end_of_def split: option.split)
    have S: "?T - length (rs_buf ?next) = ?m" by simp
    note IH = Cons.IH [OF ok fin, unfolded k S]
    show ?thesis
    proof (cases "?k \<le> ?m")
      case True
      with IH have "?k = rs_valid_len ?rs \<or> ?k = ?m" "same_result E now fin ?next" by auto
      then have "stops_at T ?rs ?k" "same_result E now ?rs fin" using None by (auto simp: stops_at_def same_result_def)
      with ends show ?thesis by (auto split: if_splits)
    next
      case False
      then have i: "?k \<le> ?T + length (concat chunks)" "begins_complete (take (?k - ?m) (rs_buf ?rs @ concat (chunk # chunks)))"
          "rs_truncate_to (replay_again E now ?k chunks ?T ?next) = None"
          "same_result E now (replay_again E now ?k chunks ?T ?next) fin"
        using IH by simp_all
      have "?m < ?k" using False by simp
      note b = pass_begins [OF Cons.prems(1) None refl this i(2)]
      have again: "replay_again E now ?k (chunk # chunks) T rs = replay_again E now ?k chunks ?T ?next"
        using w by (intro replay_again_Cons [OF None b(1)]) (simp add: replaying_def)
      have "\<not> ?k \<le> T - length (rs_buf rs)" using b(1) by arith
      moreover have "?k \<le> T + length (concat (chunk # chunks))" using i(1) by simp
      ultimately show ?thesis using b(2) i(3,4) by (simp only: again if_False simp_thms)
    qed
  qed
qed

text \<open>Whatever the file holds, the file that a replay leaves is replayed to the same, and left as it is.\<close>

lemma replay_again:
  assumes "db_wf (xxh E) db" "replay E (\<lambda>_ _. now) chunks db = (n, db1, kept)"
  shows "concat (cut (length kept) chunks) = kept \<and>
    (\<exists>db2. replay E (\<lambda>_ _. now) (cut (length kept) chunks) db = (n, db2, kept) \<and>
      db_live (xxh E) now db2 = db_live (xxh E) now db1)"
proof -
  let ?rs = "\<lparr>rs_buf = [], rs_db = db, rs_applied = 0, rs_valid_len = 0, rs_truncate_to = None\<rparr>"
  define fin where "fin = replay_loop E (\<lambda>_ _. now) chunks 0 ?rs"
  let ?k = "end_of 0 chunks fin"
  have fin: "n = rs_applied fin" "db1 = rs_db fin" "kept = take ?k (concat chunks)"
    using assms(2) by (auto simp: replay_def fin_def [symmetric] end_of_def truncate_aof_def Let_def split: option.splits if_splits)
  have ok: "replaying E 0 ?rs" using assms(1) by (simp add: replaying_def)
  have len: "length kept = ?k" "?k \<le> length (concat chunks)" and
    again: "rs_truncate_to (replay_loop E (\<lambda>_ _. now) (cut ?k chunks) 0 ?rs) = None"
      "same_result E now (replay_loop E (\<lambda>_ _. now) (cut ?k chunks) 0 ?rs) fin"
    using replay_loop_cut [OF ok fin_def] fin(3)
    by (auto simp: replay_again_def replay_loop.simps drain.simps [of E _ _ ?rs] same_result_def split: if_splits)
  have "concat (cut (length kept) chunks) = kept" unfolding concat_cut len(1) by (rule fin(3) [symmetric])
  with again len(1) fin(1,2) show ?thesis by (simp add: replay_def Let_def same_result_def)
qed

end
