(* ===== verification/Clients.thy ===== *)
theory Clients
  imports Subscribed Rereading Lengths
begin

text \<open>
  The life of a client: the accept loop with its limit on clients and the counters of
  \<open>ServerState\<close>, and \<open>handle\<close> as a loop over what the socket delivers
  (\<^verbatim>\<open>src/src/server.rs\<close>).
\<close>

section \<open>The accept loop\<close>

definition MAX_CLIENTS :: nat where "MAX_CLIENTS = 1024"

text \<open>\<open>ServerState\<close> with the permits that are left in the semaphore \<open>client_slots\<close>.\<close>

record acceptor =
  ac_state :: server_state
  ac_slots :: nat

definition server_state_new :: "u128 \<Rightarrow> acceptor" where
  "server_state_new now =
     \<lparr>ac_state = \<lparr>ss_connected_clients = 0, ss_total_connections = 0, ss_started_at_ms = ucast now\<rparr>,
      ac_slots = MAX_CLIENTS\<rparr>"

text \<open>The atomic operations on a 64-bit \<open>usize\<close> wrap around.\<close>

definition fetch_add_usize :: "nat \<Rightarrow> nat" where "fetch_add_usize n = (n + 1) mod 2 ^ 64"

definition fetch_sub_usize :: "nat \<Rightarrow> nat" where "fetch_sub_usize n = (n + (2 ^ 64 - 1)) mod 2 ^ 64"

text \<open>One connection in \<open>accept_loop\<close>: whether it was accepted.\<close>

definition accept_one :: "acceptor \<Rightarrow> bool \<times> acceptor" where
  "accept_one a =
     (if ac_slots a = 0 then (False, a)
      else (True, a\<lparr>ac_slots := ac_slots a - 1,
              ac_state := (ac_state a)\<lparr>ss_total_connections := ss_total_connections (ac_state a) + 1\<rparr>\<rparr>))"

definition client_guard_new :: "acceptor \<Rightarrow> acceptor" where
  "client_guard_new a = a\<lparr>ac_state :=
     (ac_state a)\<lparr>ss_connected_clients := fetch_add_usize (ss_connected_clients (ac_state a))\<rparr>\<rparr>"

definition client_guard_drop :: "acceptor \<Rightarrow> acceptor" where
  "client_guard_drop a = a\<lparr>ac_state :=
     (ac_state a)\<lparr>ss_connected_clients := fetch_sub_usize (ss_connected_clients (ac_state a))\<rparr>\<rparr>"

text \<open>The permit is a field of the guard, which is dropped after \<open>Drop::drop\<close> has run.\<close>

definition permit_drop :: "acceptor \<Rightarrow> acceptor" where
  "permit_drop a = a\<lparr>ac_slots := ac_slots a + 1\<rparr>"

text \<open>
  The tasks of the clients run concurrently with the loop. A task has been spawned, then serves its
  client with a guard, then has dropped the guard but not yet its permit.
\<close>

record population =
  po_spawned :: nat
  po_serving :: nat
  po_closing :: nat
  po_accepted :: nat

inductive client_step :: "acceptor \<times> population \<Rightarrow> acceptor \<times> population \<Rightarrow> bool" where
  accept: "accept_one a = (True, a') \<Longrightarrow>
    client_step (a, p) (a', p\<lparr>po_spawned := po_spawned p + 1, po_accepted := po_accepted p + 1\<rparr>)"
| reject: "accept_one a = (False, a') \<Longrightarrow> client_step (a, p) (a', p)"
| begin_task: "po_spawned p = Suc n \<Longrightarrow>
    client_step (a, p) (client_guard_new a, p\<lparr>po_spawned := n, po_serving := po_serving p + 1\<rparr>)"
| end_task: "po_serving p = Suc n \<Longrightarrow>
    client_step (a, p) (client_guard_drop a, p\<lparr>po_serving := n, po_closing := po_closing p + 1\<rparr>)"
| release: "po_closing p = Suc n \<Longrightarrow> client_step (a, p) (permit_drop a, p\<lparr>po_closing := n\<rparr>)"

inductive clients_reachable :: "u128 \<Rightarrow> acceptor \<times> population \<Rightarrow> bool" for now where
  start: "clients_reachable now (server_state_new now, \<lparr>po_spawned = 0, po_serving = 0, po_closing = 0, po_accepted = 0\<rparr>)"
| step: "clients_reachable now s \<Longrightarrow> client_step s s' \<Longrightarrow> clients_reachable now s'"

inductive_cases client_stepE: "client_step (a, p) (a', p')"

definition clients_inv :: "acceptor \<times> population \<Rightarrow> bool" where
  "clients_inv s \<longleftrightarrow> (case s of (a, p) \<Rightarrow>
     ac_slots a + po_spawned p + po_serving p + po_closing p = MAX_CLIENTS \<and>
     ss_connected_clients (ac_state a) = po_serving p \<and>
     ss_total_connections (ac_state a) = word_of_nat (po_accepted p))"

lemma fetch_usize:
  "n < MAX_CLIENTS \<Longrightarrow> fetch_add_usize n = Suc n"
  "Suc n \<le> MAX_CLIENTS \<Longrightarrow> fetch_sub_usize (Suc n) = n"
  by (simp_all add: fetch_add_usize_def fetch_sub_usize_def MAX_CLIENTS_def)

lemma clients_inv_step: "client_step s s' \<Longrightarrow> clients_inv s \<Longrightarrow> clients_inv s'"
  by (induction rule: client_step.induct)
     (auto simp: clients_inv_def accept_one_def client_guard_new_def client_guard_drop_def permit_drop_def
       fetch_usize split: if_splits)

lemma clients_reachable_inv: "clients_reachable now s \<Longrightarrow> clients_inv s"
proof (induction rule: clients_reachable.induct)
  case start
  show ?case by (simp add: clients_inv_def server_state_new_def)
qed (rule clients_inv_step)

text \<open>The tasks can always run to their end, and then every slot is free again.\<close>

definition work_left :: "population \<Rightarrow> nat" where
  "work_left p = 3 * po_spawned p + 2 * po_serving p + po_closing p"

lemma clients_progress:
  assumes "work_left p \<noteq> 0"
  shows "\<exists>a' p'. client_step (a, p) (a', p') \<and> work_left p' < work_left p \<and> po_accepted p' = po_accepted p"
proof -
  consider n where "po_spawned p = Suc n" | n where "po_serving p = Suc n" | n where "po_closing p = Suc n"
    using assms by (metis add_cancel_left_right mult_is_0 not0_implies_Suc work_left_def)
  then show ?thesis
  proof cases
    case (1 n)
    then show ?thesis using client_step.begin_task [OF 1, of a] by (fastforce simp: work_left_def)
  next
    case (2 n)
    then show ?thesis using client_step.end_task [OF 2, of a] by (fastforce simp: work_left_def)
  next
    case (3 n)
    then show ?thesis using client_step.release [OF 3, of a] by (fastforce simp: work_left_def)
  qed
qed

lemma clients_drain: "\<exists>a' p'. client_step\<^sup>*\<^sup>* (a, p) (a', p') \<and> work_left p' = 0 \<and> po_accepted p' = po_accepted p"
proof (induction "work_left p" arbitrary: a p rule: less_induct)
  case less
  show ?case
  proof (cases "work_left p = 0")
    case False
    then obtain a1 p1 where s: "client_step (a, p) (a1, p1)" "work_left p1 < work_left p" "po_accepted p1 = po_accepted p"
      using clients_progress by blast
    then show ?thesis using less [OF s(2), of a1] by (metis converse_rtranclp_into_rtranclp)
  qed blast
qed

lemma clients_reachable_steps: "client_step\<^sup>*\<^sup>* s s' \<Longrightarrow> clients_reachable now s \<Longrightarrow> clients_reachable now s'"
  by (induction rule: rtranclp_induct) (auto intro: clients_reachable.step)

lemma slots_return:
  assumes "clients_reachable now (a, p)"
  shows "\<exists>a' p'. client_step\<^sup>*\<^sup>* (a, p) (a', p') \<and> po_accepted p' = po_accepted p \<and> ac_slots a' = MAX_CLIENTS \<and>
    ss_connected_clients (ac_state a') = 0"
proof -
  obtain a' p' where s: "client_step\<^sup>*\<^sup>* (a, p) (a', p')" "work_left p' = 0" "po_accepted p' = po_accepted p"
    using clients_drain by blast
  have "clients_inv (a', p')" by (rule clients_reachable_inv [OF clients_reachable_steps [OF s(1) assms]])
  with s show ?thesis by (auto simp: clients_inv_def work_left_def)
qed

section \<open>The loop of a connection\<close>

definition read_next_or_reply_protocol_error ::
  "bytes \<Rightarrow> socket_read list \<Rightarrow> frame list \<times> (read_error, frame option \<times> bytes \<times> socket_read list) result" where
  "read_next_or_reply_protocol_error buf reads = (case read_frame buf reads of
      Inr r \<Rightarrow> ([], Inr r)
    | Inl (ReadProtocol msg) \<Rightarrow> ([protocol_error_frame msg], Inl (ReadProtocol msg))
    | Inl err \<Rightarrow> ([], Inl err))"

text \<open>
  Consecutive \<open>write_frame\<close> calls: the bytes that were written, and whether all calls succeeded.
\<close>

fun write_frames :: "frame list \<Rightarrow> bytes \<times> bool" where
  "write_frames [] = ([], True)"
| "write_frames (f # fs) = (case write_frame f of
      Inl _ \<Rightarrow> ([], False)
    | Inr out \<Rightarrow> (case write_frames fs of (outs, ok) \<Rightarrow> (out @ outs, ok)))"

text \<open>What one round of the loop finds: the clock readings, the log and the server's counters.\<close>

record turn =
  tn_parse :: u128
  tn_log :: u128
  tn_clock :: clock
  tn_aof :: "aof_handle option"
  tn_state :: server_state

datatype conn_state =
    InLoop bytes "socket_read list"
  | Subscribing "bytes list" bytes "socket_read list"
  | Ended

text \<open>\<open>handle\<close>, for as many rounds as there are turns, with the bytes it writes.\<close>

fun handle_loop ::
  "('tx, 'rx) env \<Rightarrow> turn list \<Rightarrow> bytes \<Rightarrow> socket_read list \<Rightarrow> 'tx db \<Rightarrow> bytes \<times> conn_state \<times> 'tx db" where
  "handle_loop E [] buf reads db = ([], InLoop buf reads, db)"
| "handle_loop E (q # qs) buf reads db =
     (case read_next_or_reply_protocol_error buf reads of
        (fs, Inl _) \<Rightarrow> (fst (write_frames fs), Ended, db)
      | (_, Inr (None, _, _)) \<Rightarrow> ([], Ended, db)
      | (_, Inr (Some frame, buf, reads)) \<Rightarrow>
          (case handle_request E (tn_parse q) (tn_log q) (tn_clock q) (tn_aof q) (tn_state q) frame db of
             (fs, step, db, logged) \<Rightarrow>
               (case (write_frames fs, step) of
                  ((out, True), Continue) \<Rightarrow>
                    (case handle_loop E qs buf reads db of (outs, r, db) \<Rightarrow> (out @ outs, r, db))
                | ((out, True), EnterSubscribed channels) \<Rightarrow> (out, Subscribing channels buf reads, db)
                | ((out, _), _) \<Rightarrow> (out, Ended, db))))"

section \<open>Pipelining\<close>

text \<open>The requests one after the other, without a socket: the replies and the database.\<close>

fun answer_all ::
  "('tx, 'rx) env \<Rightarrow> turn list \<Rightarrow> frame list \<Rightarrow> 'tx db \<Rightarrow> frame list \<times> 'tx db" where
  "answer_all E (q # qs) (f # fs) db =
     (case handle_request E (tn_parse q) (tn_log q) (tn_clock q) (tn_aof q) (tn_state q) f db of
        (replies, step, db, logged) \<Rightarrow>
          (case answer_all E qs fs db of (rs, db) \<Rightarrow> (replies @ rs, db)))"
| "answer_all E qs fs db = ([], db)"

text \<open>Every request lets the connection go on, and its replies are within the output limit.\<close>

fun goes_on :: "('tx, 'rx) env \<Rightarrow> turn list \<Rightarrow> frame list \<Rightarrow> 'tx db \<Rightarrow> bool" where
  "goes_on E (q # qs) (f # fs) db =
     (case handle_request E (tn_parse q) (tn_log q) (tn_clock q) (tn_aof q) (tn_state q) f db of
        (replies, step, db, logged) \<Rightarrow>
          step = Continue \<and> list_all (\<lambda>r. length (encode r) \<le> MAX_RESPONSE_FRAME_BYTES) replies \<and>
          goes_on E qs fs db)"
| "goes_on E qs fs db = True"

lemma write_frame_fits: "length (encode r) \<le> MAX_RESPONSE_FRAME_BYTES \<Longrightarrow> write_frame r = Inr (encode r)"
  by (simp add: write_frame_def encoded_len_eq usize_checked_def usize_limit_def MAX_RESPONSE_FRAME_BYTES_def)

lemma write_frames_ok:
  "list_all (\<lambda>r. length (encode r) \<le> MAX_RESPONSE_FRAME_BYTES) fs \<Longrightarrow>
   write_frames fs = (concat (map encode fs), True)"
  by (induction fs) (simp_all add: write_frame_fits)

lemma handle_loop_answers:
  assumes "list_all wire_frame fs" "length qs = length fs" "goes_on E qs fs db"
    "buf @ concat chunks = concat (map encode fs) @ rest"
    "length (concat (map encode fs) @ rest) \<le> MAX_BUFFERED_FRAME_BYTES"
  shows "\<exists>buf' chunks'. handle_loop E qs buf (map Received chunks) db =
      (concat (map encode (fst (answer_all E qs fs db))), InLoop buf' (map Received chunks'),
       snd (answer_all E qs fs db)) \<and> buf' @ concat chunks' = rest"
  using assms
proof (induction fs arbitrary: qs db buf chunks)
  case Nil
  then show ?case by auto
next
  case (Cons f fs)
  then obtain q qs' where qs: "qs = q # qs'" by (cases qs) auto
  obtain buf1 chunks1 where r: "read_frame buf (map Received chunks) = Inr (Some f, buf1, map Received chunks1)"
      "buf1 @ concat chunks1 = concat (map encode fs) @ rest"
    using read_frame_stream [of f buf chunks "concat (map encode fs) @ rest"] Cons.prems by auto
  obtain replies step db1 logged where h: "handle_request E (tn_parse q) (tn_log q) (tn_clock q) (tn_aof q)
      (tn_state q) f db = (replies, step, db1, logged)" by (metis prod_cases4)
  have on: "step = Continue" "write_frames replies = (concat (map encode replies), True)" "goes_on E qs' fs db1"
    using Cons.prems(3) h by (auto simp: qs write_frames_ok)
  obtain buf' chunks' where "handle_loop E qs' buf1 (map Received chunks1) db1 =
      (concat (map encode (fst (answer_all E qs' fs db1))), InLoop buf' (map Received chunks'),
       snd (answer_all E qs' fs db1))" "buf' @ concat chunks' = rest"
    using Cons.IH [OF _ _ on(3) r(2)] Cons.prems by (auto simp: qs)
  then show ?case
    using r(1) h on by (auto simp: qs read_next_or_reply_protocol_error_def split: prod.splits)
qed

section \<open>A connection ends\<close>

text \<open>The bytes that are still to come.\<close>

fun bytes_to_come :: "socket_read list \<Rightarrow> nat" where
  "bytes_to_come [] = 0"
| "bytes_to_come (Received chunk # reads) = length chunk + bytes_to_come reads"
| "bytes_to_come (_ # reads) = bytes_to_come reads"

lemma read_frame_Some:
  assumes "read_frame buf reads = Inr (Some f, buf', reads')"
  shows "parse buf = Inr (Some f, buf') \<and> reads' = reads \<or>
    (\<exists>chunk rs b. reads = Received chunk # rs \<and> length b \<le> length buf \<and>
       read_frame (b @ chunk) rs = Inr (Some f, buf', reads'))"
proof -
  have "length b \<le> length buf" if "parse buf = Inr (fo, b)" for fo b using parse_took [OF that] by auto
  then show ?thesis
    using assms
    by (subst (asm) read_frame.simps)
       (fastforce simp: bind_result_Inr Let_def split: sum.splits prod.splits option.splits resp_error.splits
         list.splits socket_read.splits if_splits)
qed

lemma read_frame_progress:
  "read_frame buf reads = Inr (Some f, buf', reads') \<Longrightarrow>
     length buf' + bytes_to_come reads' < length buf + bytes_to_come reads"
proof (induction reads arbitrary: buf)
  case Nil
  then show ?case using read_frame_Some [OF Nil] parse_shrinks by fastforce
next
  case (Cons r reads)
  from read_frame_Some [OF Cons.prems] show ?case
  proof
    assume "parse buf = Inr (Some f, buf') \<and> reads' = r # reads"
    then show ?thesis using parse_shrinks by fastforce
  next
    assume "\<exists>chunk rs b. r # reads = Received chunk # rs \<and> length b \<le> length buf \<and>
       read_frame (b @ chunk) rs = Inr (Some f, buf', reads')"
    then obtain chunk b where c: "r = Received chunk" "length b \<le> length buf"
        "read_frame (b @ chunk) reads = Inr (Some f, buf', reads')" by blast
    with Cons.IH [OF c(3)] show ?thesis by simp
  qed
qed

text \<open>With more rounds than bytes to come, the loop is left, and further rounds do not happen.\<close>

definition stays :: "conn_state \<Rightarrow> bool" where
  "stays st \<longleftrightarrow> (case st of InLoop buf reads \<Rightarrow> True | _ \<Rightarrow> False)"

lemma handle_loop_ends:
  assumes "length buf + bytes_to_come reads < length qs"
  shows "\<not> stays (fst (snd (handle_loop E qs buf reads db))) \<and>
    handle_loop E (qs @ qs1) buf reads db = handle_loop E qs buf reads db"
  using assms
proof (induction qs arbitrary: buf reads db)
  case (Cons q qs)
  show ?case
  proof (cases "read_next_or_reply_protocol_error buf reads")
    case (Pair fs r)
    show ?thesis
    proof (cases "\<exists>f b rs. r = Inr (Some f, b, rs)")
      case True
      then obtain f b rs where r: "r = Inr (Some f, b, rs)" by blast
      then have "read_frame buf reads = Inr (Some f, b, rs)"
        using Pair by (auto simp: read_next_or_reply_protocol_error_def split: sum.splits read_error.splits)
      from read_frame_progress [OF this] Cons.prems have "length b + bytes_to_come rs < length qs" by simp
      note IH = Cons.IH [OF this]
      obtain replies n db1 logged where h: "handle_request E (tn_parse q) (tn_log q) (tn_clock q) (tn_aof q)
          (tn_state q) f db = (replies, n, db1, logged)" by (metis prod_cases4)
      obtain out ok where w: "write_frames replies = (out, ok)" by force
      obtain outs st db2 where l: "handle_loop E qs b rs db1 = (outs, st, db2)" by (metis prod_cases3)
      from IH [of db1] Pair r show ?thesis by (cases ok; cases n) (simp_all add: h w l stays_def)
    next
      case False
      with Pair show ?thesis by (auto simp: stays_def split: sum.split prod.split option.split)
    qed
  qed
qed simp

end
