(* ===== verification/Conversation.thy ===== *)
theory Conversation
  imports Clients
begin

text \<open>
  A whole connection: \<open>handle\<close> of \<^verbatim>\<open>src/src/server.rs\<close> from its first frame to its end, with the
  subscribed mode (\<open>run_subscribed\<close>) inside it, on the one buffer and socket that both read from. After the
  mode has been left, the loop goes on with what the mode has left unread.
\<close>

section \<open>What frames are read from\<close>

text \<open>
  Both loops call \<open>conn.read_frame()\<close>. It is an argument here: on the buffer and the socket it is
  \<open>read_frame\<close>, in the specification it takes the next of a list of frames.
\<close>

type_synonym 's reader = "'s \<Rightarrow> (read_error, frame option \<times> 's) result"

definition read_conn :: "(bytes \<times> socket_read list) reader" where
  "read_conn s = (case s of (buf, reads) \<Rightarrow>
     map_result (\<lambda>(f, buf, reads). (f, (buf, reads))) (read_frame buf reads))"

fun next_frame :: "frame list reader" where
  "next_frame [] = Inr (None, [])"
| "next_frame (f # fs) = Inr (Some f, fs)"

section \<open>The subscribed mode on a connection\<close>

text \<open>
  What is ready in a round of \<open>select!\<close>, or happens in a task of a subscription. A \<open>read_frame\<close> that another branch
  cancels has kept what it read in the buffer, so that only those that return a frame count.
\<close>

datatype sub_input = FrameReady u128 | MessageReady | SlowReady | TaskReady bytes received

fun select :: "'s reader \<Rightarrow> sub_input \<Rightarrow> 's \<Rightarrow> sub_event \<times> 's" where
  "select rd (FrameReady now) s = (case rd s of
      Inr (None, s) \<Rightarrow> (SubEof, s)
    | Inr (Some f, s) \<Rightarrow> (SubFrame now f, s)
    | Inl err \<Rightarrow> (SubReadError err, s))"
| "select rd MessageReady s = (SubMessage, s)"
| "select rd SlowReady s = (SubSlow, s)"
| "select rd (TaskReady ch r) s = (SubTask ch r, s)"

datatype ('rx, 's) visit = Visiting "'rx subscription" 's | Returned 's | Aborted

fun visit_loop ::
  "('tx, 'rx) broadcast \<Rightarrow> (bytes list \<Rightarrow> bytes list) \<Rightarrow> 's reader \<Rightarrow> sub_input list \<Rightarrow> 's \<Rightarrow> 'tx db \<Rightarrow>
   'rx subscription \<Rightarrow> frame list \<times> ('rx, 's) visit \<times> 'tx db" where
  "visit_loop B ord rd [] s db sub = ([], Visiting sub s, db)"
| "visit_loop B ord rd (i # inputs) s db sub =
     (case select rd i s of (ev, s) \<Rightarrow>
        (case sub_step B ord ev db sub of
           None \<Rightarrow> visit_loop B ord rd inputs s db sub
         | Some (fs, Stay, db, sub) \<Rightarrow>
             (case visit_loop B ord rd inputs s db sub of (gs, v, db) \<Rightarrow> (fs @ gs, v, db))
         | Some (fs, Leave, db, sub) \<Rightarrow> (fs, Returned s, close_tasks B (sb_tasks sub) db)
         | Some (fs, Fail, db, sub) \<Rightarrow> (fs, Aborted, db)))"

definition visit ::
  "('tx, 'rx) broadcast \<Rightarrow> (bytes list \<Rightarrow> bytes list) \<Rightarrow> nat \<Rightarrow> 's reader \<Rightarrow> bytes list \<Rightarrow> sub_input list \<Rightarrow> 's \<Rightarrow>
   'tx db \<Rightarrow> frame list \<times> ('rx, 's) visit \<times> 'tx db" where
  "visit B ord writes rd channels inputs s db =
     (case subscribe_loop B channels db (new_subscription writes) of
        (acks, Stay, db, sub) \<Rightarrow>
          (case visit_loop B ord rd inputs s db sub of (fs, v, db) \<Rightarrow> (acks @ fs, v, db))
      | (acks, _, db, sub) \<Rightarrow> (acks, Aborted, db))"

section \<open>handle\<close>

text \<open>
  What a round of \<open>handle\<close> finds, and, if it enters the subscribed mode, what happens there: the order in which
  \<open>tasks.keys()\<close> iterates, how many frames the socket takes, and what is ready, one thing after the other.
\<close>

record conn_round =
  cr_turn :: turn
  cr_order :: "bytes list \<Rightarrow> bytes list"
  cr_writes :: nat
  cr_inputs :: "sub_input list"

datatype ('rx, 's) conn_end = Looping 's | Listening "'rx subscription" 's | Closed | Broken

fun handle_conn ::
  "('tx, 'rx) env \<Rightarrow> 's reader \<Rightarrow> conn_round list \<Rightarrow> 's \<Rightarrow> 'tx db \<Rightarrow> bytes \<times> ('rx, 's) conn_end \<times> 'tx db" where
  "handle_conn E rd [] s db = ([], Looping s, db)"
| "handle_conn E rd (q # qs) s db =
     (case rd s of
        Inl (ReadProtocol msg) \<Rightarrow> (fst (write_frames [protocol_error_frame msg]), Broken, db)
      | Inl _ \<Rightarrow> ([], Broken, db)
      | Inr (None, s) \<Rightarrow> ([], Closed, db)
      | Inr (Some frame, s) \<Rightarrow>
          let t = cr_turn q in
          (case handle_request E (tn_parse t) (tn_log t) (tn_clock t) (tn_aof t) (tn_state t) frame db of
             (fs, step, db, logged) \<Rightarrow>
               (case (write_frames fs, step) of
                  ((out, True), Continue) \<Rightarrow>
                    (case handle_conn E rd qs s db of (outs, r, db) \<Rightarrow> (out @ outs, r, db))
                | ((out, True), EnterSubscribed channels) \<Rightarrow>
                    (case visit (chans E) (cr_order q) (cr_writes q) rd channels (cr_inputs q) s db of
                       (gs, Returned s, db) \<Rightarrow>
                         (case handle_conn E rd qs s db of
                            (outs, r, db) \<Rightarrow> (out @ concat (map encode gs) @ outs, r, db))
                     | (gs, Visiting sub s, db) \<Rightarrow> (out @ concat (map encode gs), Listening sub s, db)
                     | (gs, Aborted, db) \<Rightarrow> (out @ concat (map encode gs), Broken, db))
                | ((out, _), _) \<Rightarrow> (out, Broken, db))))"

section \<open>Only the frames matter, not how they arrive\<close>

text \<open>Two readers that give the same, from states that are related.\<close>

locale same_frames =
  fixes rd :: "'s reader" and rd' :: "'t reader" and R :: "'s \<Rightarrow> 't \<Rightarrow> bool"
  assumes same: "R s t \<Longrightarrow> rel_sum (=) (rel_prod (=) R) (rd s) (rd' t)"
begin

lemma select_same: "R s t \<Longrightarrow> rel_prod (=) R (select rd i s) (select rd' i t)"
  using same [of s t] by (cases i) (auto elim!: rel_sum.cases split: option.splits)

lemma visit_loop_same:
  "R s t \<Longrightarrow> rel_prod (=) (rel_prod (rel_visit R) (=))
     (visit_loop B ord rd inputs s db sub) (visit_loop B ord rd' inputs t db sub)"
proof (induction inputs arbitrary: s t db sub)
  case (Cons i inputs)
  obtain ev s1 t1 where sel: "select rd i s = (ev, s1)" "select rd' i t = (ev, t1)" "R s1 t1"
    using select_same [OF Cons.prems, of i] by (cases "select rd i s"; cases "select rd' i t") auto
  note IH = Cons.IH [OF sel(3)]
  show ?case
  proof (cases "sub_step B ord ev db sub")
    case (Some p)
    obtain fs n db1 sub1 where p: "p = (fs, n, db1, sub1)" by (cases p)
    show ?thesis
      using IH [of db1 sub1] sel(3) by (cases n) (auto simp: sel(1,2) Some p rel_prod_conv split: prod.splits)
  qed (simp add: sel(1,2) IH)
qed simp

lemma visit_same:
  assumes "R s t"
  shows "rel_prod (=) (rel_prod (rel_visit R) (=))
     (visit B ord writes rd channels inputs s db) (visit B ord writes rd' channels inputs t db)"
proof -
  obtain acks n db1 sub1 where s: "subscribe_loop B channels db (new_subscription writes) = (acks, n, db1, sub1)"
    by (metis prod_cases4)
  show ?thesis
    using visit_loop_same [OF assms, of B ord inputs db1 sub1]
    by (cases n) (auto simp: visit_def s rel_prod_conv split: prod.splits)
qed

lemma handle_conn_same:
  "R s t \<Longrightarrow> rel_prod (=) (rel_prod (rel_conn_end R) (=)) (handle_conn E rd qs s db) (handle_conn E rd' qs t db)"
proof (induction qs arbitrary: s t db)
  case (Cons q qs)
  from same [OF Cons.prems] show ?case
  proof (cases rule: rel_sum.cases)
    case (1 e e')
    then show ?thesis by (simp add: rel_prod_conv split: read_error.split)
  next
    case (2 p p')
    then obtain f s1 t1 where rd: "rd s = Inr (f, s1)" "rd' t = Inr (f, t1)" "R s1 t1"
      by (cases p; cases p') auto
    show ?thesis
    proof (cases f)
      case (Some frame)
      obtain replies n db1 logged where h: "handle_request E (tn_parse (cr_turn q)) (tn_log (cr_turn q))
          (tn_clock (cr_turn q)) (tn_aof (cr_turn q)) (tn_state (cr_turn q)) frame db = (replies, n, db1, logged)"
        by (metis prod_cases4)
      obtain out ok where w: "write_frames replies = (out, ok)" by force
      note simps = rd(1,2) Some h w Let_def rel_prod_conv
      show ?thesis
      proof (cases "ok \<and> (\<exists>channels. n = EnterSubscribed channels)")
        case True
        then obtain channels where n: "n = EnterSubscribed channels" and ok: "ok = True" by blast
        let ?v = "visit (chans E) (cr_order q) (cr_writes q) rd channels (cr_inputs q) s1 db1"
        and ?v' = "visit (chans E) (cr_order q) (cr_writes q) rd' channels (cr_inputs q) t1 db1"
        obtain gs v v' db2 where v: "?v = (gs, v, db2)" "?v' = (gs, v', db2)" "rel_visit R v v'"
          using visit_same [OF rd(3), of "chans E" "cr_order q" "cr_writes q" channels "cr_inputs q" db1]
          by (cases ?v; cases ?v') (auto simp: rel_prod_conv)
        from v(3) show ?thesis
        proof (cases rule: visit.rel_cases)
          case (Returned s2 t2)
          from Cons.IH [OF this(3), of db2] show ?thesis
            by (auto simp: simps n ok v(1,2) Returned(1,2) split: prod.splits)
        qed (simp_all add: simps n ok v(1,2))
      next
        case False
        then show ?thesis
          using Cons.IH [OF rd(3), of db1] by (cases ok; cases n) (auto simp: simps split: prod.splits)
      qed
    qed (simp add: rd)
  qed
qed simp

end

text \<open>The bytes that are still to come, in the buffer and on the socket, are those of the frames.\<close>

definition delivers :: "bytes \<times> socket_read list \<Rightarrow> frame list \<Rightarrow> bool" where
  "delivers s fs \<longleftrightarrow> list_all wire_frame fs \<and> length (concat (map encode fs)) \<le> MAX_BUFFERED_FRAME_BYTES \<and>
     (\<exists>chunks. snd s = map Received chunks \<and> fst s @ concat chunks = concat (map encode fs))"

lemma read_frame_end: "concat chunks = [] \<Longrightarrow> read_frame [] (map Received chunks) = Inr (None, [], [])"
proof (induction chunks)
  case Nil
  show ?case by (subst read_frame.simps) (simp add: check_buffered_frame_limit_def parse_Nil)
next
  case (Cons chunk chunks)
  then show ?case by (subst read_frame.simps) (simp add: check_buffered_frame_limit_def parse_Nil)
qed

interpretation wire: same_frames read_conn next_frame delivers
proof
  fix s fs assume "delivers s fs"
  then obtain buf chunks where s: "s = (buf, map Received chunks)" "list_all wire_frame fs"
      "length (concat (map encode fs)) \<le> MAX_BUFFERED_FRAME_BYTES" "buf @ concat chunks = concat (map encode fs)"
    by (cases s) (auto simp: delivers_def)
  show "rel_sum (=) (rel_prod (=) delivers) (read_conn s) (next_frame fs)"
  proof (cases fs)
    case Nil
    then show ?thesis using s read_frame_end [of chunks] by (auto simp: read_conn_def delivers_def)
  next
    case (Cons f gs)
    then obtain buf' chunks' where "read_frame buf (map Received chunks) = Inr (Some f, buf', map Received chunks')"
        "buf' @ concat chunks' = concat (map encode gs)"
      using read_frame_stream [of f buf chunks "concat (map encode gs)"] s by auto
    then show ?thesis using Cons s(2,3) by (auto simp: s(1) read_conn_def delivers_def)
  qed
qed

text \<open>A connection that never subscribes is the loop of \<open>handle\<close> alone.\<close>

lemma handle_conn_loop:
  assumes "handle_loop E (map cr_turn rounds) buf reads db = (out, InLoop buf' reads', db')"
  shows "handle_conn E read_conn rounds (buf, reads) db = (out, Looping (buf', reads'), db')"
  using assms
proof (induction rounds arbitrary: buf reads db out)
  case (Cons q rounds)
  show ?case
  proof (cases "read_frame buf reads")
    case (Inr p)
    then obtain fo b rs where p: "read_frame buf reads = Inr (fo, b, rs)" by (cases p) auto
    with Cons.prems obtain frame where fo: "fo = Some frame"
      by (cases fo) (auto simp: read_next_or_reply_protocol_error_def)
    let ?t = "cr_turn q"
    obtain replies n db1 logged where h: "handle_request E (tn_parse ?t) (tn_log ?t) (tn_clock ?t) (tn_aof ?t)
        (tn_state ?t) frame db = (replies, n, db1, logged)" by (metis prod_cases4)
    obtain bs ok where w: "write_frames replies = (bs, ok)" by force
    from Cons.prems have ok: "ok = True" "n = Continue"
      by (cases ok; cases n; auto simp: read_next_or_reply_protocol_error_def p fo h w split: prod.splits)+
    then obtain outs where "handle_loop E (map cr_turn rounds) b rs db1 = (outs, InLoop buf' reads', db')" "out = bs @ outs"
      using Cons.prems by (auto simp: read_next_or_reply_protocol_error_def p fo h w split: prod.splits)
    with Cons.IH [OF this(1)] ok show ?thesis by (simp add: read_conn_def p fo h w Let_def)
  qed (use Cons.prems in \<open>auto simp: read_next_or_reply_protocol_error_def split: read_error.splits\<close>)
qed simp

section \<open>A connection and its receivers\<close>

text \<open>Only publishing touches the table of channels, and it changes no count.\<close>

lemma del_loop_pubsub: "pubsub (snd (del_loop h c i n keys db)) = pubsub db"
  by (induction h c i n keys db rule: del_loop.induct) (simp_all add: with_shard_pubsub case_prod_beta)

lemma fold_pubsub: "(\<And>x db. pubsub (f x db) = pubsub db) \<Longrightarrow> pubsub (fold f xs db) = pubsub db"
  by (induction xs arbitrary: db) simp_all

lemma restore_pubsub: "pubsub (restore_entries h snaps db) = pubsub db"
  unfolding restore_entries_def by (rule fold_pubsub) (simp add: with_shard_pubsub case_prod_beta)

lemma mset_pubsub: "pubsub (snd (mset_cmd h pairs db)) = pubsub db"
  unfolding mset_cmd_def by (auto simp: with_shard_pubsub case_prod_beta intro!: fold_pubsub)

definition same_receivers :: "('tx, 'rx) broadcast \<Rightarrow> 'tx db \<Rightarrow> 'tx db \<Rightarrow> bool" where
  "same_receivers B db db' \<longleftrightarrow> subscribers B db' = subscribers B db \<and> orphans B db' \<subseteq> orphans B db"

lemma same_receivers_refl [simp]: "pubsub db' = pubsub db \<Longrightarrow> same_receivers B db db'"
  by (simp add: same_receivers_def subscribers_def orphans_def fun_eq_iff)

lemma same_receivers_trans: "same_receivers B db db1 \<Longrightarrow> same_receivers B db1 db2 \<Longrightarrow> same_receivers B db db2"
  by (auto simp: same_receivers_def)

lemma publish_receivers:
  assumes "broadcast_ok B" shows "same_receivers B db (snd (pubsub_publish B ch m db))"
proof -
  have "orphans B (snd (pubsub_publish B ch m db)) \<subseteq> orphans B db"
    using assms by (auto simp: orphans_def pubsub_publish_def Let_def case_prod_beta broadcast_ok_def update_conv'
        delete_conv' split: option.splits if_splits)
  with subscribers_publish [OF assms] show ?thesis by (simp add: same_receivers_def)
qed

lemma apply_receivers: "broadcast_ok (chans E) \<Longrightarrow> same_receivers (chans E) db (snd (apply_cmd E c cmd db))"
proof (cases "\<exists>ch m. cmd = Publish ch m")
  case False
  then have "pubsub (snd (apply_cmd E c cmd db)) = pubsub db"
    by (cases "(E, c, cmd, db)" rule: apply_cmd.cases)
       (auto simp: key_commands del_def del_loop_pubsub mset_pubsub with_shard_pubsub case_prod_beta split: option.splits)
  then show ?thesis by simp
qed (auto simp: publish_receivers case_prod_beta)

lemma execute_receivers:
  assumes "broadcast_ok (chans E)" "execute E t c w cmd db = (r, db', logged)"
  shows "same_receivers (chans E) db db'"
proof -
  obtain r1 db1 where a: "apply_cmd E c cmd db = (r1, db1)" by force
  then have "same_receivers (chans E) db db1" using apply_receivers [OF assms(1), of db c cmd] by simp
  then show ?thesis
    using assms(2) a same_receivers_trans [OF _ same_receivers_refl [OF restore_pubsub]]
    by (auto simp: execute_def Let_def split: if_splits frame.splits option.splits sum.splits)
qed

lemma handle_request_receivers:
  assumes "broadcast_ok (chans E)" "handle_request E tp t c aof st f db = (fs, n, db', logged)"
  shows "same_receivers (chans E) db db'"
  using assms(2) execute_receivers [OF assms(1)]
  by (auto simp: handle_request_def split: sum.splits command.splits option.splits prod.splits)

text \<open>A visit of the subscribed mode is a run of it, on the events that its reads gave.\<close>

definition run_of :: "('rx, 's) visit \<Rightarrow> 'rx sub_result" where
  "run_of v = (case v of Visiting sub s \<Rightarrow> SubRunning sub | Returned s \<Rightarrow> SubLeft | Aborted \<Rightarrow> SubFailed)"

lemma visit_loop_run:
  "visit_loop B ord rd inputs s db sub = (fs, v, db') \<Longrightarrow> \<exists>evs. sub_loop B ord evs db sub = (fs, run_of v, db')"
proof (induction inputs arbitrary: s db sub fs)
  case Nil
  then show ?case by (auto simp: run_of_def intro: exI [of _ "[]"])
next
  case (Cons i inputs)
  obtain ev s1 where sel: "select rd i s = (ev, s1)" by force
  show ?case
  proof (cases "sub_step B ord ev db sub")
    case None
    then show ?thesis using Cons sel by simp
  next
    case (Some p)
    obtain gs n db1 sub1 where p: "p = (gs, n, db1, sub1)" by (cases p)
    show ?thesis
    proof (cases "n = Stay")
      case True
      then obtain hs where hs: "visit_loop B ord rd inputs s1 db1 sub1 = (hs, v, db')" "fs = gs @ hs"
        using Cons.prems sel Some p by (auto split: prod.splits)
      from Cons.IH [OF hs(1)] obtain evs where "sub_loop B ord evs db1 sub1 = (hs, run_of v, db')" by blast
      then have "sub_loop B ord (ev # evs) db sub = (fs, run_of v, db')" using Some p True hs(2) by simp
      then show ?thesis by blast
    next
      case False
      then have "sub_loop B ord [ev] db sub = (fs, run_of v, db')"
        using Cons.prems sel Some p by (cases n) (auto simp: run_of_def)
      then show ?thesis by blast
    qed
  qed
qed

lemma visit_run:
  assumes "visit B ord writes rd channels inputs s db = (fs, v, db')"
  shows "\<exists>evs. run_subscribed B ord writes channels evs db = (fs, run_of v, db')"
proof -
  obtain acks n db1 sub1 where s: "subscribe_loop B channels db (new_subscription writes) = (acks, n, db1, sub1)"
    by (metis prod_cases4)
  show ?thesis
  proof (cases "n = Stay")
    case True
    then obtain gs where gs: "visit_loop B ord rd inputs s db1 sub1 = (gs, v, db')" "fs = acks @ gs"
      using assms s by (auto simp: visit_def split: prod.splits)
    from visit_loop_run [OF gs(1)] obtain evs where "sub_loop B ord evs db1 sub1 = (gs, run_of v, db')" by blast
    then have "run_subscribed B ord writes channels evs db = (fs, run_of v, db')"
      using s True gs(2) by (simp add: run_subscribed_def)
    then show ?thesis by blast
  next
    case False
    then show ?thesis using assms s by (cases n) (auto simp: visit_def run_subscribed_def run_of_def)
  qed
qed

lemma visit_receivers:
  assumes "broadcast_ok B" "visit B ord writes rd channels inputs s db = (fs, Returned s', db')"
  shows "same_receivers B db db'"
  using visit_run [OF assms(2)] run_subscribed_left [OF assms(1)]
  by (fastforce simp: run_of_def same_receivers_def)

lemma handle_conn_receivers:
  assumes "broadcast_ok (chans E)" "handle_conn E rd qs s db = (out, r, db')" "r = Closed \<or> (\<exists>s'. r = Looping s')"
  shows "same_receivers (chans E) db db'"
  using assms(2,3)
proof (induction qs arbitrary: s db out)
  case (Cons q qs)
  show ?case
  proof (cases "\<exists>frame s1. rd s = Inr (Some frame, s1)")
    case True
    then obtain frame s1 where rd: "rd s = Inr (Some frame, s1)" by blast
    obtain replies n db1 logged where h: "handle_request E (tn_parse (cr_turn q)) (tn_log (cr_turn q))
        (tn_clock (cr_turn q)) (tn_aof (cr_turn q)) (tn_state (cr_turn q)) frame db = (replies, n, db1, logged)"
      by (metis prod_cases4)
    note here = handle_request_receivers [OF assms(1) h]
    obtain bs ok where w: "write_frames replies = (bs, ok)" by force
    then have ok: "ok = True" using Cons.prems by (cases ok; cases n) (auto simp: rd h Let_def split: prod.splits)
    show ?thesis
    proof (cases n)
      case Continue
      then show ?thesis
        using Cons.prems same_receivers_trans [OF here Cons.IH] by (auto simp: rd h w ok Let_def split: prod.splits)
    next
      case (EnterSubscribed channels)
      obtain gs v db2 where v: "visit (chans E) (cr_order q) (cr_writes q) rd channels (cr_inputs q) s1 db1 = (gs, v, db2)"
        by (metis prod_cases3)
      then obtain s2 where "v = Returned s2"
        using Cons.prems by (cases v) (auto simp: rd h w ok Let_def EnterSubscribed)
      then show ?thesis
        using Cons.prems v same_receivers_trans [OF same_receivers_trans [OF here visit_receivers [OF assms(1)]] Cons.IH]
        by (auto simp: rd h w ok Let_def EnterSubscribed split: prod.splits)
    qed (use Cons.prems in \<open>auto simp: rd h w ok Let_def\<close>)
  next
    case False
    then show ?thesis using Cons.prems by (auto split: sum.splits read_error.splits prod.splits option.splits)
  qed
qed simp

section \<open>A connection ends\<close>

definition frames_ready :: "sub_input list \<Rightarrow> nat" where
  "frames_ready inputs = length (filter (\<lambda>i. case i of FrameReady now \<Rightarrow> True | _ \<Rightarrow> False) inputs)"

lemma frames_ready_simps [simp]:
  "frames_ready [] = 0"
  "frames_ready (FrameReady now # inputs) = Suc (frames_ready inputs)"
  "frames_ready (MessageReady # inputs) = frames_ready inputs"
  "frames_ready (SlowReady # inputs) = frames_ready inputs"
  "frames_ready (TaskReady ch r # inputs) = frames_ready inputs"
  by (simp_all add: frames_ready_def)

definition over :: "('rx, 's) conn_end \<Rightarrow> bool" where
  "over r \<longleftrightarrow> (case r of Closed \<Rightarrow> True | Broken \<Rightarrow> True | _ \<Rightarrow> False)"

lemma over_simps [simp]: "over Closed" "over Broken" "\<not> over (Looping s)" "\<not> over (Listening sub s)"
  by (simp_all add: over_def)

text \<open>A reader on which every frame uses up some of the input.\<close>

locale finite_input =
  fixes rd :: "'s reader" and size_left :: "'s \<Rightarrow> nat"
  assumes takes: "rd s = Inr (Some f, s') \<Longrightarrow> size_left s' < size_left s"
    and ends: "rd s = Inr (None, s') \<Longrightarrow> size_left s' \<le> size_left s"
begin

lemma select_left:
  assumes "select rd i s = (ev, s')" "sub_step B ord ev db sub = Some (fs, n, db', sub')"
  shows "size_left s' \<le> size_left s" "n = Stay \<Longrightarrow> i = FrameReady now \<Longrightarrow> size_left s' < size_left s"
  using assms takes [of s] ends [of s]
  by (cases i; auto split: sum.splits prod.splits option.splits read_error.splits dest: reply_then_cases less_imp_le)+

lemma visit_loop_ends:
  assumes "visit_loop B ord rd inputs s db sub = (fs, v, db')" "size_left s < frames_ready inputs"
  shows "v = Aborted \<or> (\<exists>s'. v = Returned s' \<and> size_left s' \<le> size_left s)"
  using assms
proof (induction inputs arbitrary: s db sub fs)
  case (Cons i inputs)
  obtain ev s1 where sel: "select rd i s = (ev, s1)" by force
  show ?case
  proof (cases "sub_step B ord ev db sub")
    case None
    then have "s1 = s" "frames_ready (i # inputs) = frames_ready inputs"
      using sel by (cases i; auto split: sum.splits prod.splits option.splits read_error.splits)+
    then show ?thesis using Cons sel None by simp
  next
    case (Some p)
    obtain gs n db1 sub1 where p: "p = (gs, n, db1, sub1)" by (cases p)
    note l = select_left [OF sel Some [unfolded p]]
    show ?thesis
    proof (cases "n = Stay")
      case True
      then obtain hs where hs: "visit_loop B ord rd inputs s1 db1 sub1 = (hs, v, db')"
        using Cons.prems sel Some p by (auto split: prod.splits)
      have "size_left s1 < frames_ready inputs" using l True Cons.prems(2) by (cases i) fastforce+
      from Cons.IH [OF hs this] l(1) show ?thesis by auto
    next
      case False
      then show ?thesis using Cons.prems(1) l(1) sel Some p by (cases n) auto
    qed
  qed
qed simp

lemma visit_ends:
  assumes "visit B ord writes rd channels inputs s db = (fs, v, db')" "size_left s < frames_ready inputs"
  shows "v = Aborted \<or> (\<exists>s'. v = Returned s' \<and> size_left s' \<le> size_left s)"
  using assms visit_loop_ends by (fastforce simp: visit_def split: prod.splits sub_next.splits)

lemma handle_conn_ends:
  assumes "size_left s < length qs" "list_all (\<lambda>q. size_left s < frames_ready (cr_inputs q)) qs"
  shows "over (fst (snd (handle_conn E rd qs s db)))"
  using assms
proof (induction qs arbitrary: s db)
  case (Cons q qs)
  show ?case
  proof (cases "\<exists>frame s1. rd s = Inr (Some frame, s1)")
    case True
    then obtain frame s1 where rd: "rd s = Inr (Some frame, s1)" by blast
    have goes_on: "over (fst (snd (handle_conn E rd qs s2 db2)))" if "size_left s2 \<le> size_left s1" for s2 db2
      using Cons.prems takes [OF rd] that by (intro Cons.IH) (auto simp: list_all_iff)
    obtain replies n db1 logged where h: "handle_request E (tn_parse (cr_turn q)) (tn_log (cr_turn q))
        (tn_clock (cr_turn q)) (tn_aof (cr_turn q)) (tn_state (cr_turn q)) frame db = (replies, n, db1, logged)"
      by (metis prod_cases4)
    obtain bs ok where w: "write_frames replies = (bs, ok)" by force
    show ?thesis
    proof (cases "ok \<and> (\<exists>channels. n = EnterSubscribed channels)")
      case True
      then obtain channels where n: "n = EnterSubscribed channels" and ok: "ok = True" by blast
      obtain gs v db2 where v: "visit (chans E) (cr_order q) (cr_writes q) rd channels (cr_inputs q) s1 db1 = (gs, v, db2)"
        by (metis prod_cases3)
      have "size_left s1 < frames_ready (cr_inputs q)" using Cons.prems(2) takes [OF rd] by auto
      with visit_ends [OF v] goes_on show ?thesis
        by (auto simp: rd h w n ok v Let_def case_prod_beta)
    next
      case False
      then show ?thesis
        using goes_on [of s1 db1] by (cases ok; cases n) (auto simp: rd h w Let_def case_prod_beta)
    qed
  next
    case False
    then show ?thesis by (auto split: sum.splits read_error.splits prod.splits option.splits)
  qed
qed simp

end

text \<open>On the socket, what is left is the bytes in the buffer and those to come.\<close>

definition bytes_left :: "bytes \<times> socket_read list \<Rightarrow> nat" where
  "bytes_left s = length (fst s) + bytes_to_come (snd s)"

lemma read_frame_None: "read_frame buf reads = Inr (None, buf', reads') \<Longrightarrow> buf' = [] \<and> reads' = []"
proof (induction buf reads rule: read_frame.induct)
  case (1 buf reads)
  then show ?case
    by (subst (asm) (3) read_frame.simps)
       (auto simp: bind_result_Inr Let_def split: sum.splits prod.splits option.splits resp_error.splits
         list.splits socket_read.splits if_splits)
qed

interpretation finite_wire: finite_input read_conn bytes_left
proof
  fix s s' f
  show "read_conn s = Inr (Some f, s') \<Longrightarrow> bytes_left s' < bytes_left s"
    by (auto simp: read_conn_def result_cases bytes_left_def dest!: read_frame_progress split: prod.splits)
  show "read_conn s = Inr (None, s') \<Longrightarrow> bytes_left s' \<le> bytes_left s"
    by (auto simp: read_conn_def result_cases bytes_left_def dest!: read_frame_None split: prod.splits)
qed

end
