(* ===== verification/Network.thy ===== *)
theory Network
  imports System Conversation
begin

text \<open>
  The server with all its clients: the accept loop, every connection with its bytes and its subscribed mode
  (\<^verbatim>\<open>src/src/server.rs\<close>), and behind them the database, the log and the background tasks as they are in
  \<open>System\<close>. An event is a step of one of these tasks. What a socket delivers, \<open>s\<close>, is given with the
  connection; the requests are what \<open>read_frame\<close> finds in it.
\<close>

section \<open>State\<close>

text \<open>
  A client: its task has been spawned; it is in the loop of \<open>handle\<close>; it is in the loop of
  \<open>run_subscribed\<close>; \<open>handle\<close> has returned, and the permit is about to be dropped; it is gone. The last two
  have the session whose tasks go on by themselves, when \<open>run_subscribed\<close> has returned an error.
\<close>

datatype 'rx client =
    Spawned "socket_read list"
  | Serving "bytes \<times> socket_read list"
  | Attached "'rx subscription" "bytes \<times> socket_read list"
  | Closing "'rx subscription option"
  | Gone "'rx subscription option"

record ('tx, 'rx) network =
  nw_sys :: "'tx system"
  nw_acceptor :: acceptor
  nw_clients :: "'rx client list"

definition client_at :: "('tx, 'rx) network \<Rightarrow> nat \<Rightarrow> 'rx client option" where
  "client_at n i = (if i < length (nw_clients n) then Some (nw_clients n ! i) else None)"

definition set_client :: "nat \<Rightarrow> 'rx client \<Rightarrow> ('tx, 'rx) network \<Rightarrow> ('tx, 'rx) network" where
  "set_client i c n = n\<lparr>nw_clients := (nw_clients n)[i := c]\<rparr>"

definition set_db :: "'tx db \<Rightarrow> ('tx, 'rx) network \<Rightarrow> ('tx, 'rx) network" where
  "set_db db n = n\<lparr>nw_sys := (nw_sys n)\<lparr>sys_db := db\<rparr>\<rparr>"

text \<open>The session that a client has, with its tasks.\<close>

fun client_sub :: "'rx client \<Rightarrow> 'rx subscription option" where
  "client_sub (Attached sub s) = Some sub"
| "client_sub (Closing left) = left"
| "client_sub (Gone left) = left"
| "client_sub _ = None"

section \<open>Events\<close>

datatype 'tx net_event =
    Connects u128 "socket_read list"
  | Starts u128 nat
  | Serves u128 nat io nat
  | Selects u128 nat "bytes list \<Rightarrow> bytes list" sub_input
  | Detached u128 nat bytes
  | Releases u128 nat
  | Background "'tx sys_event"

fun net_time :: "'tx net_event \<Rightarrow> u128" where
  "net_time (Connects t reads) = t"
| "net_time (Starts t i) = t"
| "net_time (Serves t i io writes) = t"
| "net_time (Selects t i order input) = t"
| "net_time (Detached t i ch) = t"
| "net_time (Releases t i) = t"
| "net_time (Background ev) = ev_time ev"

text \<open>\<open>handle\<close> returns, with or without an error, and the guard of the task is dropped.\<close>

definition handle_returns :: "nat \<Rightarrow> 'rx subscription option \<Rightarrow> ('tx, 'rx) network \<Rightarrow> ('tx, 'rx) network" where
  "handle_returns i left n =
     set_client i (Closing left) (n\<lparr>nw_acceptor := client_guard_drop (nw_acceptor n)\<rparr>)"

text \<open>The start of \<open>run_subscribed\<close>, up to its loop.\<close>

definition enter_subscribed ::
  "('tx, 'rx) broadcast \<Rightarrow> nat \<Rightarrow> bytes list \<Rightarrow> nat \<Rightarrow> bytes \<times> socket_read list \<Rightarrow> ('tx, 'rx) network \<Rightarrow>
   frame list \<times> ('tx, 'rx) network" where
  "enter_subscribed B writes channels i s n =
     (case subscribe_loop B channels (sys_db (nw_sys n)) (new_subscription writes) of
        (acks, Stay, db, sub) \<Rightarrow> (acks, set_client i (Attached sub s) (set_db db n))
      | (acks, _, db, sub) \<Rightarrow> (acks, handle_returns i (Some sub) (set_db db n)))"

text \<open>One round of the loop of \<open>handle\<close>, with the bytes that it writes.\<close>

definition serve_request ::
  "('tx, 'rx) env \<Rightarrow> bytes \<Rightarrow> fsync_policy \<Rightarrow> u128 \<Rightarrow> io \<Rightarrow> nat \<Rightarrow> nat \<Rightarrow> frame \<Rightarrow> bytes \<times> socket_read list \<Rightarrow>
   ('tx, 'rx) network \<Rightarrow> (bytes \<times> ('tx, 'rx) network) option" where
  "serve_request E path policy t io writes i frame s n =
     (let w = sys_writer (nw_sys n); st = ac_state (nw_acceptor n) in
      case sys_next E path policy (ClientRequest t io st frame) (nw_sys n) of
        None \<Rightarrow> None
      | Some sys \<Rightarrow>
          let n' = n\<lparr>nw_sys := sys\<rparr> in
          (case handle_request E t t (\<lambda>_. t) (Some (aof_handle_of path policy io w)) st frame (sys_db (nw_sys n)) of
             (fs, step, _, _) \<Rightarrow>
               (case (write_frames fs, step) of
                  ((out, True), Continue) \<Rightarrow> Some (out, set_client i (Serving s) n')
                | ((out, True), EnterSubscribed channels) \<Rightarrow>
                    (case enter_subscribed (chans E) writes channels i s n' of
                       (acks, n') \<Rightarrow> Some (out @ concat (map encode acks), n'))
                | ((out, _), _) \<Rightarrow> Some (out, handle_returns i None n'))))"

definition serve ::
  "('tx, 'rx) env \<Rightarrow> bytes \<Rightarrow> fsync_policy \<Rightarrow> u128 \<Rightarrow> io \<Rightarrow> nat \<Rightarrow> nat \<Rightarrow> bytes \<times> socket_read list \<Rightarrow>
   ('tx, 'rx) network \<Rightarrow> (bytes \<times> ('tx, 'rx) network) option" where
  "serve E path policy t io writes i s n = (case read_conn s of
      Inl (ReadProtocol msg) \<Rightarrow> Some (fst (write_frames [protocol_error_frame msg]), handle_returns i None n)
    | Inl _ \<Rightarrow> Some ([], handle_returns i None n)
    | Inr (None, _) \<Rightarrow> Some ([], handle_returns i None n)
    | Inr (Some frame, s) \<Rightarrow> serve_request E path policy t io writes i frame s n)"

text \<open>One round of the loop of \<open>run_subscribed\<close>, or of one of its tasks.\<close>

definition attend ::
  "('tx, 'rx) broadcast \<Rightarrow> (bytes list \<Rightarrow> bytes list) \<Rightarrow> nat \<Rightarrow> sub_input \<Rightarrow> 'rx subscription \<Rightarrow>
   bytes \<times> socket_read list \<Rightarrow> ('tx, 'rx) network \<Rightarrow> (bytes \<times> ('tx, 'rx) network) option" where
  "attend B order i input sub s n =
     (case select read_conn input s of (ev, s) \<Rightarrow>
        (case sub_step B order ev (sys_db (nw_sys n)) sub of
           None \<Rightarrow> None
         | Some (fs, nxt, db, sub) \<Rightarrow>
             Some (concat (map encode fs),
               case nxt of
                 Stay \<Rightarrow> set_client i (Attached sub s) (set_db db n)
               | Leave \<Rightarrow> set_client i (Serving s) (set_db (close_tasks B (sb_tasks sub) db) n)
               | Fail \<Rightarrow> handle_returns i (Some sub) (set_db db n))))"

text \<open>
  A task whose session has returned an error: the queue has lost its receiver, so that \<open>try_send\<close> fails with
  \<open>Closed\<close>, and whatever the task receives, it ends. Nobody awaits it, and its channel is not collected.
\<close>

definition detached_task ::
  "('tx, 'rx) broadcast \<Rightarrow> bytes \<Rightarrow> 'tx db \<Rightarrow> 'rx subscription \<Rightarrow> ('tx db \<times> 'rx subscription) option" where
  "detached_task B ch db sub = (case hm_get (sb_tasks sub) ch of
      Some (Some rx) \<Rightarrow> Some (task_ends B ch rx db sub)
    | _ \<Rightarrow> None)"

text \<open>The tasks of the background: all of \<^const>\<open>sys_next\<close> but what belongs to clients.\<close>

fun background :: "'tx sys_event \<Rightarrow> bool" where
  "background (ClientRequest t io st f) = False"
| "background (TableStep t ps) = False"
| "background _ = True"

fun net_next ::
  "('tx, 'rx) env \<Rightarrow> bytes \<Rightarrow> fsync_policy \<Rightarrow> 'tx net_event \<Rightarrow> ('tx, 'rx) network \<Rightarrow>
   (bytes \<times> ('tx, 'rx) network) option" where
  "net_next E path policy (Connects t reads) n =
     (case accept_one (nw_acceptor n) of
        (True, a) \<Rightarrow> Some ([], n\<lparr>nw_acceptor := a, nw_clients := nw_clients n @ [Spawned reads]\<rparr>)
      | (False, a) \<Rightarrow> Some ([], n\<lparr>nw_acceptor := a\<rparr>))"
| "net_next E path policy (Starts t i) n = (case client_at n i of
      Some (Spawned reads) \<Rightarrow>
        Some ([], set_client i (Serving ([], reads)) (n\<lparr>nw_acceptor := client_guard_new (nw_acceptor n)\<rparr>))
    | _ \<Rightarrow> None)"
| "net_next E path policy (Serves t i io writes) n = (case client_at n i of
      Some (Serving s) \<Rightarrow> serve E path policy t io writes i s n
    | _ \<Rightarrow> None)"
| "net_next E path policy (Selects t i order input) n = (case client_at n i of
      Some (Attached sub s) \<Rightarrow> attend (chans E) order i input sub s n
    | _ \<Rightarrow> None)"
| "net_next E path policy (Detached t i ch) n = (case client_at n i of
      Some (Closing (Some sub)) \<Rightarrow>
        map_option (\<lambda>(db, sub). ([], set_client i (Closing (Some sub)) (set_db db n)))
          (detached_task (chans E) ch (sys_db (nw_sys n)) sub)
    | Some (Gone (Some sub)) \<Rightarrow>
        map_option (\<lambda>(db, sub). ([], set_client i (Gone (Some sub)) (set_db db n)))
          (detached_task (chans E) ch (sys_db (nw_sys n)) sub)
    | _ \<Rightarrow> None)"
| "net_next E path policy (Releases t i) n = (case client_at n i of
      Some (Closing left) \<Rightarrow>
        Some ([], set_client i (Gone left) (n\<lparr>nw_acceptor := permit_drop (nw_acceptor n)\<rparr>))
    | _ \<Rightarrow> None)"
| "net_next E path policy (Background ev) n =
     (if background ev then map_option (\<lambda>sys. ([], n\<lparr>nw_sys := sys\<rparr>)) (sys_next E path policy ev (nw_sys n))
      else None)"

text \<open>
  What a run must satisfy for its log to be recoverable: nothing is asked of the bytes that clients
  send but that deadlines do not pass before the recovery and that their commands are logged within the limit.
\<close>

definition net_admissible :: "u128 \<Rightarrow> 'tx net_event \<Rightarrow> ('tx, 'rx) network \<Rightarrow> bool" where
  "net_admissible later ev n = (case ev of
      Serves t i io writes \<Rightarrow> (case client_at n i of
          Some (Serving s) \<Rightarrow> (case read_conn s of
              Inr (Some f, _) \<Rightarrow> (case from_frame t f of Inr cmd \<Rightarrow> settled t later cmd \<and> log_fits t cmd | Inl _ \<Rightarrow> True)
            | _ \<Rightarrow> True)
        | _ \<Rightarrow> True)
    | Background sev \<Rightarrow> admissible later sev (nw_sys n)
    | _ \<Rightarrow> True)"

definition fresh_network :: "u128 \<Rightarrow> 'tx db \<Rightarrow> aof_writer \<Rightarrow> ('tx, 'rx) network" where
  "fresh_network now db w =
     \<lparr>nw_sys = \<lparr>sys_db = db, sys_writer = w, sys_phase = Idle\<rparr>, nw_acceptor = server_state_new now, nw_clients = []\<rparr>"

text \<open>The reachable states, over any number of lives of the server, as in \<^const>\<open>reachable\<close>.\<close>

inductive net_reachable ::
  "bytes \<Rightarrow> fsync_policy \<Rightarrow> u128 \<Rightarrow> ('tx, 'rx) env \<Rightarrow> u128 \<Rightarrow> ('tx, 'rx) network \<Rightarrow> bool"
  for path policy later where
  first: "iterates E \<Longrightarrow> boot E c (Some []) = (db, Some w) \<Longrightarrow>
    net_reachable path policy later E 0 (fresh_network 0 db w)"
| step: "net_reachable path policy later E t n \<Longrightarrow> t \<le> net_time ev \<Longrightarrow> net_time ev \<le> later \<Longrightarrow>
    net_admissible later ev n \<Longrightarrow> net_next E path policy ev n = Some (out, n') \<Longrightarrow>
    length (w_file (sys_writer (nw_sys n'))) < 2 ^ 64 \<Longrightarrow> net_reachable path policy later E (net_time ev) n'"
| restart: "net_reachable path policy later E t n \<Longrightarrow> \<not> si_write_failed (w_stats (sys_writer (nw_sys n))) \<Longrightarrow>
    iterates E' \<Longrightarrow> t \<le> now \<Longrightarrow> now \<le> later \<Longrightarrow> wire_frame g \<Longrightarrow> encode g = torn @ lost \<Longrightarrow> lost \<noteq> [] \<Longrightarrow>
    w_synced (sys_writer (nw_sys n)) \<le> k \<Longrightarrow> concat chunks = take k (w_file (sys_writer (nw_sys n)) @ torn) \<Longrightarrow> boot E' (\<lambda>_ _. now) (Some chunks) = (db, Some w) \<Longrightarrow>
    net_reachable path policy later E' now (fresh_network now db w)"

section \<open>The log\<close>

text \<open>What a client does to the server is a request, or a change of the table of channels.\<close>

definition only_table :: "'tx db \<Rightarrow> 'tx db \<Rightarrow> bool" where
  "only_table db db' \<longleftrightarrow> db' = db\<lparr>pubsub := pubsub db'\<rparr>"

lemma only_table_refl [simp]: "only_table db db" "only_table db (db\<lparr>pubsub := ps\<rparr>)"
  by (simp_all add: only_table_def)

lemma only_table_trans: "only_table db db1 \<Longrightarrow> only_table db1 db2 \<Longrightarrow> only_table db db2"
  unfolding only_table_def by (metis db.update_convs(2) db.surjective)

lemma only_table_drop [simp]: "only_table db (drop_receiver B ch rx db)"
  by (simp add: drop_receiver_def split: option.split)

lemma only_table_end_task [simp]: "only_table db (end_task B ch task db)"
proof -
  have gc: "only_table db (pubsub_gc B ch db)" for db
    by (simp add: pubsub_gc_def split: option.split)
  show ?thesis
    by (cases task) (simp_all add: end_task_def gc only_table_trans [OF only_table_drop gc])
qed

lemma only_table_close: "only_table db (close_tasks B tasks db)"
proof (induction tasks arbitrary: db)
  case (Cons p tasks)
  then show ?case using only_table_trans [OF only_table_end_task] by (cases p) fastforce
qed simp

lemma only_table_subscribe_one: "subscribe_one B ch db sub = (db', sub') \<Longrightarrow> only_table db db'"
  by (auto simp: subscribe_one_def pubsub_subscribe_def Let_def split: if_splits prod.splits)

lemma only_table_unsubscribe_one: "unsubscribe_one B ch db sub = (db', sub') \<Longrightarrow> only_table db db'"
  by (auto simp: unsubscribe_one_def split: option.splits)

lemma reply_then_db: "reply_then f n db sub = (fs, m, db', sub') \<Longrightarrow> db' = db"
  by (rule reply_then_keeps)

lemma only_table_loops:
  "subscribe_loop B chs db sub = (acks, n, db', sub') \<Longrightarrow> only_table db db'"
  "unsubscribe_loop B chs db sub = (acks, n, db', sub') \<Longrightarrow> only_table db db'"
proof (induction chs arbitrary: db sub acks)
  case (Cons ch chs)
  {
    case 1
    then show ?case
      using Cons.IH(1) only_table_subscribe_one only_table_trans
      by (fastforce split: prod.splits sub_next.splits dest: reply_then_db)
  next
    case 2
    then show ?case
      using Cons.IH(2) only_table_unsubscribe_one only_table_trans
      by (fastforce split: prod.splits sub_next.splits dest: reply_then_db)
  }
qed simp_all

lemma only_table_request: "sub_request B ord now f db sub = (fs, n, db', sub') \<Longrightarrow> only_table db db'"
  by (auto simp: sub_request_def Let_def split: sum.splits command.splits prod.splits if_splits next_step.splits
      list.splits sub_next.splits option.splits dest: only_table_loops reply_then_db)

lemma only_table_sub_step:
  assumes "sub_step B ord ev db sub = Some (fs, n, db', sub')" shows "only_table db db'"
proof (cases ev)
  case (SubFrame now f)
  then show ?thesis using assms only_table_request by simp
next
  case (SubTask ch r)
  then show ?thesis
    using assms by (auto simp: task_receives_def task_ends_def split: prod.splits option.splits received.splits if_splits)
qed (use assms in \<open>auto split: read_error.splits list.splits dest: reply_then_db\<close>)

lemma only_table_detached: "detached_task B ch db sub = Some (db', sub') \<Longrightarrow> only_table db db'"
  by (auto simp: detached_task_def task_ends_def split: option.splits)

text \<open>A detached task changes the session, wherever it is kept.\<close>

lemma net_next_detached:
  assumes "net_next E path policy (Detached t i ch) n = Some (out, n')"
  shows "\<exists>c c' sub sub' db. n' = set_client i c' (set_db db n) \<and> client_at n i = Some c \<and> client_sub c = Some sub \<and>
    client_sub c' = Some sub' \<and> detached_task (chans E) ch (sys_db (nw_sys n)) sub = Some (db, sub')"
proof -
  from assms consider sub where "client_at n i = Some (Closing (Some sub))" | sub where "client_at n i = Some (Gone (Some sub))"
    by (auto split: option.splits client.splits)
  then show ?thesis
  proof cases
    case (1 sub)
    with assms obtain db sub' where "detached_task (chans E) ch (sys_db (nw_sys n)) sub = Some (db, sub')"
        "n' = set_client i (Closing (Some sub')) (set_db db n)" by auto
    with 1 show ?thesis by (metis client_sub.simps(2))
  next
    case (2 sub)
    with assms obtain db sub' where "detached_task (chans E) ch (sys_db (nw_sys n)) sub = Some (db, sub')"
        "n' = set_client i (Gone (Some sub')) (set_db db n)" by auto
    with 2 show ?thesis by (metis client_sub.simps(3))
  qed
qed

text \<open>A run of the whole server is a run of \<open>System\<close>: every request has been read from the wire.\<close>

lemma reachable_table:
  assumes "reachable path policy later E t s" "only_table (sys_db s) db" "t \<le> t'" "t' \<le> later"
    "length (w_file (sys_writer s)) < 2 ^ 64"
  shows "reachable path policy later E t' (s\<lparr>sys_db := db\<rparr>)"
proof -
  have "sys_next E path policy (TableStep t' (pubsub db)) s = Some (s\<lparr>sys_db := db\<rparr>)"
    using assms(2) by (simp add: only_table_def)
  from reachable.step [OF assms(1) _ _ _ this] assms(3-5) show ?thesis by simp
qed

lemma reachable_later:
  assumes "reachable path policy later E t s" "t \<le> t'" "t' \<le> later" "length (w_file (sys_writer s)) < 2 ^ 64"
  shows "reachable path policy later E t' s"
  using reachable_table [OF assms(1) _ assms(2-4), of "sys_db s"] by simp

lemma read_frame_parses: "read_frame buf reads = Inr (Some f, buf', reads') \<Longrightarrow> \<exists>b r. parse b = Inr (Some f, r)"
proof (induction reads arbitrary: buf)
  case Nil
  from read_frame_Some [OF this] show ?case by auto
next
  case (Cons r reads)
  from read_frame_Some [OF Cons.prems] Cons.IH show ?case by blast
qed

lemma read_conn_wire: "read_conn s = Inr (Some f, s') \<Longrightarrow> wire_request now f"
  by (auto simp: read_conn_def result_cases dest!: read_frame_parses parsed_wire_request split: prod.splits)

lemma sys_of [simp]:
  "nw_sys (set_client i c n) = nw_sys n"
  "nw_sys (set_db db n) = (nw_sys n)\<lparr>sys_db := db\<rparr>"
  "nw_sys (handle_returns i left n) = nw_sys n"
  by (simp_all add: set_client_def set_db_def handle_returns_def)

lemma serve_request_runs:
  assumes "reachable path policy later E t (nw_sys n)" "t \<le> t'" "t' \<le> later" "wire_request t' f"
    "case from_frame t' f of Inl _ \<Rightarrow> True | Inr cmd \<Rightarrow> settled t' later cmd \<and> log_fits t' cmd"
    "serve_request E path policy t' io writes i f s n = Some (out, n')"
    "length (w_file (sys_writer (nw_sys n'))) < 2 ^ 64"
  shows "reachable path policy later E t' (nw_sys n')"
proof -
  let ?ev = "ClientRequest t' io (ac_state (nw_acceptor n)) f"
  obtain sys where sys: "sys_next E path policy ?ev (nw_sys n) = Some sys"
    using assms(6) by (auto simp: serve_request_def Let_def simp del: sys_next.simps split: option.splits)
  let ?n = "n\<lparr>nw_sys := sys\<rparr>"
  have n': "nw_sys n' = sys \<or> (\<exists>channels acks. enter_subscribed (chans E) writes channels i s ?n = (acks, n'))"
    using assms(6) sys
    by (auto simp: serve_request_def Let_def simp del: sys_next.simps split: prod.splits bool.splits next_step.splits)
  have tab: "\<exists>db. nw_sys n' = sys\<lparr>sys_db := db\<rparr> \<and> only_table (sys_db sys) db"
  proof (cases "nw_sys n' = sys")
    case False
    with n' obtain channels acks where "enter_subscribed (chans E) writes channels i s ?n = (acks, n')" by blast
    then show ?thesis
      by (fastforce simp: enter_subscribed_def split: prod.splits sub_next.splits dest: only_table_loops(1))
  qed (auto intro: exI [of _ "sys_db sys"])
  then obtain db where db: "nw_sys n' = sys\<lparr>sys_db := db\<rparr>" "only_table (sys_db sys) db" by blast
  have "reachable path policy later E t' sys"
    using reachable.step [OF assms(1) _ _ _ sys] assms db(1) by (simp del: sys_next.simps)
  from reachable_table [OF this db(2)] show ?thesis using assms(3,7) db(1) by simp
qed

lemma net_step_runs:
  assumes "reachable path policy later E t (nw_sys n)" "t \<le> net_time ev" "net_time ev \<le> later"
    "net_admissible later ev n" "net_next E path policy ev n = Some (out, n')"
    "length (w_file (sys_writer (nw_sys n'))) < 2 ^ 64"
  shows "reachable path policy later E (net_time ev) (nw_sys n')"
proof -
  have table: ?thesis if "nw_sys n' = (nw_sys n)\<lparr>sys_db := db\<rparr>" "only_table (sys_db (nw_sys n)) db" for db
    using reachable_table [OF assms(1) that(2) assms(2,3)] assms(6) that(1) by simp
  have same: ?thesis if "nw_sys n' = nw_sys n"
    using reachable_later [OF assms(1-3)] assms(6) that by simp
  show ?thesis
  proof (cases ev)
    case (Serves t' i io writes)
    with assms(5) obtain s where s: "client_at n i = Some (Serving s)" "serve E path policy t' io writes i s n = Some (out, n')"
      by (auto split: option.splits client.splits)
    show ?thesis
    proof (cases "\<exists>f s'. read_conn s = Inr (Some f, s')")
      case True
      then obtain f s' where f: "read_conn s = Inr (Some f, s')" by blast
      then show ?thesis
        using serve_request_runs [OF assms(1), of t' f io writes i s' out n'] read_conn_wire [OF f] assms s Serves
        by (simp add: serve_def net_admissible_def)
    next
      case False
      then have "nw_sys n' = nw_sys n"
        using s(2) by (auto simp: serve_def split: sum.splits read_error.splits prod.splits option.splits)
      then show ?thesis by (rule same)
    qed
  next
    case (Selects t' i order input)
    with assms(5) obtain sub s where s: "attend (chans E) order i input sub s n = Some (out, n')"
      by (auto split: option.splits client.splits)
    obtain e s1 where sel: "select read_conn input s = (e, s1)" by (cases "select read_conn input s")
    with s obtain fs nxt db sub1 where step: "sub_step (chans E) order e (sys_db (nw_sys n)) sub = Some (fs, nxt, db, sub1)"
      by (auto simp: attend_def split: option.splits)
    note t = only_table_sub_step [OF step]
    show ?thesis
      using s sel step table [OF _ t] table [OF _ only_table_trans [OF t only_table_close [of _ "chans E" "sb_tasks sub1"]]]
      by (cases nxt) (auto simp: attend_def)
  next
    case (Detached t' i ch)
    with assms(5) obtain c' sub sub' db where n': "n' = set_client i c' (set_db db n)"
        "detached_task (chans E) ch (sys_db (nw_sys n)) sub = Some (db, sub')"
      using net_next_detached by metis
    show ?thesis using table [OF _ only_table_detached [OF n'(2)]] by (simp add: n'(1))
  next
    case (Background sev)
    then show ?thesis
      using assms reachable.step [OF assms(1), of sev]
      by (auto simp: net_admissible_def split: if_splits)
  qed (use assms(5) same in \<open>auto split: prod.splits bool.splits option.splits client.splits\<close>)
qed

lemma fresh_sys [simp]: "nw_sys (fresh_network now db w) = \<lparr>sys_db = db, sys_writer = w, sys_phase = Idle\<rparr>"
  by (simp add: fresh_network_def)

lemma network_runs: "net_reachable path policy later E t n \<Longrightarrow> reachable path policy later E t (nw_sys n)"
proof (induction rule: net_reachable.induct)
  case (first E c db w)
  then show ?case by (auto intro: reachable.first)
next
  case (step E t n ev out n')
  from net_step_runs [OF step.IH step.hyps(2-6)] show ?case .
next
  case (restart E t n E' now g torn lost k chunks db w)
  from reachable.restart [OF restart.IH restart.hyps(2-11)] show ?case by simp
qed

section \<open>The receivers of a channel\<close>

text \<open>A client has a task that receives from the channel; the channels whose end its session attends to.\<close>

definition counts :: "bytes \<Rightarrow> 'rx client \<Rightarrow> bool" where
  "counts ch c = (case client_sub c of Some sub \<Rightarrow> running sub ch | None \<Rightarrow> False)"

definition attends :: "'rx client \<Rightarrow> bytes set" where
  "attends c = (case client_sub c of Some sub \<Rightarrow> dom (hm_get (sb_tasks sub)) | None \<Rightarrow> {})"

definition receivers :: "'rx client list \<Rightarrow> bytes \<Rightarrow> nat" where
  "receivers cs ch = length (filter (counts ch) cs)"

definition session_ok :: "'rx client \<Rightarrow> bool" where
  "session_ok c = (case client_sub c of
      Some sub \<Rightarrow> hm_ok (sb_tasks sub) \<and> length (sb_queue sub) \<le> PUBSUB_OUTPUT_CAP | None \<Rightarrow> True)"

definition receivers_inv :: "('tx, 'rx) broadcast \<Rightarrow> 'rx client list \<Rightarrow> 'tx db \<Rightarrow> bool" where
  "receivers_inv B cs db \<longleftrightarrow> subscribers B db = receivers cs \<and> orphans B db \<subseteq> \<Union> (attends ` set cs) \<and>
     list_all session_ok cs"

text \<open>The part of it that is about one client, next to the others.\<close>

definition client_inv :: "('tx, 'rx) broadcast \<Rightarrow> 'rx client list \<Rightarrow> 'tx db \<Rightarrow> 'rx client \<Rightarrow> bool" where
  "client_inv B rest db c = (case client_sub c of
      Some sub \<Rightarrow> sub_inv B (receivers rest) (\<Union> (attends ` set rest)) db sub
    | None \<Rightarrow> subscribers B db = receivers rest \<and> orphans B db \<subseteq> \<Union> (attends ` set rest))"

definition rest_of :: "nat \<Rightarrow> 'a list \<Rightarrow> 'a list" where
  "rest_of i xs = take i xs @ drop (Suc i) xs"

lemma rest_of_update [simp]: "rest_of i (xs[i := x]) = rest_of i xs"
  by (simp add: rest_of_def)

lemma receivers_inv_update:
  assumes "i < length cs"
  shows "receivers_inv B (cs[i := c]) db \<longleftrightarrow> list_all session_ok (rest_of i cs) \<and> client_inv B (rest_of i cs) db c"
  using assms
  by (auto simp: upd_conv_take_nth_drop rest_of_def receivers_inv_def receivers_def client_inv_def session_ok_def
      sub_inv_def attends_def counts_def fun_eq_iff split: option.splits)

lemma receivers_inv_at:
  assumes "i < length cs"
  shows "receivers_inv B cs db \<longleftrightarrow> list_all session_ok (rest_of i cs) \<and> client_inv B (rest_of i cs) db (cs ! i)"
  using receivers_inv_update [OF assms, of B "cs ! i" db] by simp

lemma client_inv_idle:
  "client_sub c = None \<Longrightarrow> client_sub c' = None \<Longrightarrow> client_inv B rest db c \<Longrightarrow> client_inv B rest db c'"
  by (simp add: client_inv_def)

lemma client_inv_request:
  "client_sub c = None \<Longrightarrow> client_inv B rest db c \<Longrightarrow> same_receivers B db db' \<Longrightarrow> client_inv B rest db' c"
  by (auto simp: client_inv_def same_receivers_def)

lemma client_inv_enter:
  "client_sub c = None \<Longrightarrow> client_inv B rest db c \<Longrightarrow>
     sub_inv B (receivers rest) (\<Union> (attends ` set rest)) db (new_subscription writes)"
  by (simp add: client_inv_def sub_inv_def running_def new_subscription_def)

text \<open>A step of one client, on the list of clients.\<close>

abbreviation net_receivers :: "('tx, 'rx) broadcast \<Rightarrow> ('tx, 'rx) network \<Rightarrow> bool" where
  "net_receivers B n \<equiv> receivers_inv B (nw_clients n) (sys_db (nw_sys n))"

lemma clients_of [simp]:
  "nw_clients (set_client i c n) = (nw_clients n)[i := c]"
  "nw_clients (set_db db n) = nw_clients n"
  "nw_clients (handle_returns i left n) = (nw_clients n)[i := Closing left]"
  by (simp_all add: set_client_def set_db_def handle_returns_def)

lemma client_atD: "client_at n i = Some c \<Longrightarrow> i < length (nw_clients n) \<and> nw_clients n ! i = c"
  by (simp add: client_at_def split: if_splits)

lemma enter_receivers:
  assumes "broadcast_ok B" "i < length (nw_clients n)" "client_sub (nw_clients n ! i) = None" "net_receivers B n"
    "enter_subscribed B writes channels i s n = (acks, n')"
  shows "net_receivers B n'"
proof -
  let ?rest = "rest_of i (nw_clients n)"
  obtain gs m db sub where l: "subscribe_loop B channels (sys_db (nw_sys n)) (new_subscription writes) = (gs, m, db, sub)"
    by (metis prod_cases4)
  have "list_all session_ok ?rest" "client_inv B ?rest (sys_db (nw_sys n)) (nw_clients n ! i)"
    using assms(4) receivers_inv_at [OF assms(2)] by blast+
  moreover from subscribe_loop_inv [OF assms(1) client_inv_enter [OF assms(3) this(2)] l]
  have "sub_inv B (receivers ?rest) (\<Union> (attends ` set ?rest)) db sub" by blast
  ultimately show ?thesis
    using assms(5) l
    by (cases m) (auto simp: enter_subscribed_def receivers_inv_update [OF assms(2)] client_inv_def)
qed

lemma serve_request_receivers:
  assumes "broadcast_ok (chans E)" "i < length (nw_clients n)" "client_sub (nw_clients n ! i) = None"
    "net_receivers (chans E) n" "serve_request E path policy t io writes i f s n = Some (out, n')"
  shows "net_receivers (chans E) n'"
proof -
  let ?st = "ac_state (nw_acceptor n)" and ?rest = "rest_of i (nw_clients n)"
  obtain fs step db logged where h: "handle_request E t t (\<lambda>_. t) (Some (aof_handle_of path policy io (sys_writer (nw_sys n))))
      ?st f (sys_db (nw_sys n)) = (fs, step, db, logged)" by (metis prod_cases4)
  obtain sys where sys: "sys_next E path policy (ClientRequest t io ?st f) (nw_sys n) = Some sys"
    using assms(5) by (auto simp: serve_request_def Let_def simp del: sys_next.simps split: option.splits)
  then have db: "sys_db sys = db" using h by auto
  have "list_all session_ok ?rest" "client_inv (chans E) ?rest (sys_db (nw_sys n)) (nw_clients n ! i)"
    using assms(4) receivers_inv_at [OF assms(2)] by blast+
  then have rest: "list_all session_ok ?rest" "client_inv (chans E) ?rest db (nw_clients n ! i)"
    using client_inv_request [OF assms(3) _ handle_request_receivers [OF assms(1) h]] by blast+
  then have idle: "client_sub c = None \<Longrightarrow> net_receivers (chans E) (set_client i c (n\<lparr>nw_sys := sys\<rparr>))" for c
    using client_inv_idle [OF assms(3)] by (simp add: receivers_inv_update [OF assms(2)] db)
  have "net_receivers (chans E) (n\<lparr>nw_sys := sys\<rparr>)"
    using rest receivers_inv_at [OF assms(2), of "chans E" db] by (simp add: db)
  from enter_receivers [OF assms(1) _ _ this] assms(2,3)
  have enter: "enter_subscribed (chans E) writes channels i s (n\<lparr>nw_sys := sys\<rparr>) = (acks, n1) \<Longrightarrow>
      net_receivers (chans E) n1" for channels acks n1 by simp
  show ?thesis
    using assms(5) sys h idle enter idle [of "Closing None"]
    by (auto simp: serve_request_def Let_def handle_returns_def simp del: sys_next.simps
        split: prod.splits bool.splits next_step.splits)
qed

lemma attend_receivers:
  assumes "broadcast_ok B" "i < length (nw_clients n)" "nw_clients n ! i = Attached sub s" "net_receivers B n"
    "attend B order i input sub s n = Some (out, n')"
  shows "net_receivers B n'"
proof -
  let ?rest = "rest_of i (nw_clients n)"
  obtain e s1 where sel: "select read_conn input s = (e, s1)" by (cases "select read_conn input s")
  with assms(5) obtain fs nxt db sub1 where step: "sub_step B order e (sys_db (nw_sys n)) sub = Some (fs, nxt, db, sub1)"
    by (auto simp: attend_def split: option.splits)
  have "list_all session_ok ?rest" "sub_inv B (receivers ?rest) (\<Union> (attends ` set ?rest)) (sys_db (nw_sys n)) sub"
    using assms(4) receivers_inv_at [OF assms(2)] by (auto simp: assms(3) client_inv_def)
  moreover note inv = sub_step_inv [OF assms(1) this(2) step]
  ultimately show ?thesis
    using assms(5) sel step close_tasks_inv [OF assms(1) inv]
    by (cases nxt) (auto simp: attend_def receivers_inv_update [OF assms(2)] client_inv_def)
qed

lemma detached_receivers:
  assumes "broadcast_ok B" "i < length (nw_clients n)" "client_sub (nw_clients n ! i) = Some sub" "net_receivers B n"
    "detached_task B ch (sys_db (nw_sys n)) sub = Some (db, sub')" "client_sub c = Some sub'"
  shows "net_receivers B (set_client i c (set_db db n))"
proof -
  let ?rest = "rest_of i (nw_clients n)"
  have "list_all session_ok ?rest" "sub_inv B (receivers ?rest) (\<Union> (attends ` set ?rest)) (sys_db (nw_sys n)) sub"
    using assms(3,4) receivers_inv_at [OF assms(2)] by (auto simp: client_inv_def)
  moreover from assms(5) obtain rx where "hm_get (sb_tasks sub) ch = Some (Some rx)"
      "task_ends B ch rx (sys_db (nw_sys n)) sub = (db, sub')"
    by (auto simp: detached_task_def split: option.splits)
  ultimately show ?thesis
    using task_ends_inv [OF assms(1)] assms(6) by (auto simp: receivers_inv_update [OF assms(2)] client_inv_def)
qed

lemma receivers_inv_idle:
  "i < length cs \<Longrightarrow> client_sub (cs ! i) = None \<Longrightarrow> client_sub c = None \<Longrightarrow> receivers_inv B cs db \<Longrightarrow>
     receivers_inv B (cs[i := c]) db"
  using receivers_inv_at [of i cs B db] by (simp add: receivers_inv_update client_inv_def)

lemma receivers_inv_release:
  "i < length cs \<Longrightarrow> client_sub c = client_sub (cs ! i) \<Longrightarrow> receivers_inv B cs db \<Longrightarrow> receivers_inv B (cs[i := c]) db"
  using receivers_inv_at [of i cs B db] by (simp add: receivers_inv_update client_inv_def)

lemma receivers_inv_spawn: "client_sub c = None \<Longrightarrow> receivers_inv B cs db \<Longrightarrow> receivers_inv B (cs @ [c]) db"
  by (auto simp: receivers_inv_def receivers_def session_ok_def attends_def counts_def fun_eq_iff)

lemma receivers_inv_table: "pubsub db' = pubsub db \<Longrightarrow> receivers_inv B cs db' = receivers_inv B cs db"
  by (simp add: receivers_inv_def subscribers_def orphans_def fun_eq_iff)

lemma sweep_pubsub: "pubsub (sweep_once t db) = pubsub db"
  by (simp add: sweep_once_def)

lemma background_pubsub:
  "background ev \<Longrightarrow> sys_next E path policy ev s = Some s' \<Longrightarrow> pubsub (sys_db s') = pubsub (sys_db s)"
  by (cases ev) (auto simp: sweep_pubsub Let_def split: if_splits rewrite_phase.splits prod.splits sum.splits option.splits)

lemma net_step_receivers:
  assumes "broadcast_ok (chans E)" "net_receivers (chans E) n" "net_next E path policy ev n = Some (out, n')"
  shows "net_receivers (chans E) n'"
proof (cases ev)
  case (Connects t reads)
  then show ?thesis using assms(2,3) receivers_inv_spawn [of "Spawned reads"] by (auto split: prod.splits bool.splits)
next
  case (Starts t i)
  then show ?thesis
    using assms(2,3) by (auto split: option.splits client.splits dest!: client_atD intro!: receivers_inv_idle)
next
  case (Serves t i io writes)
  with assms(3) obtain s where s: "i < length (nw_clients n)" "nw_clients n ! i = Serving s"
      "serve E path policy t io writes i s n = Some (out, n')"
    by (auto split: option.splits client.splits dest!: client_atD)
  show ?thesis
  proof (cases "\<exists>f s'. read_conn s = Inr (Some f, s')")
    case True
    then show ?thesis
      using s serve_request_receivers [OF assms(1) s(1) _ assms(2)] by (auto simp: serve_def)
  next
    case False
    then have "n' = handle_returns i None n"
      using s(3) by (auto simp: serve_def split: sum.splits read_error.splits prod.splits option.splits)
    then show ?thesis using s(1,2) assms(2) by (simp add: receivers_inv_idle)
  qed
next
  case (Selects t i order input)
  then show ?thesis
    using assms(2,3) attend_receivers [OF assms(1)]
    by (auto split: option.splits client.splits dest!: client_atD)
next
  case (Detached t i ch)
  with assms(3) obtain c c' sub sub' db where "n' = set_client i c' (set_db db n)" "client_at n i = Some c"
      "client_sub c = Some sub" "client_sub c' = Some sub'" "detached_task (chans E) ch (sys_db (nw_sys n)) sub = Some (db, sub')"
    using net_next_detached by metis
  then show ?thesis using detached_receivers [OF assms(1) _ _ assms(2)] by (auto dest!: client_atD)
next
  case (Releases t i)
  then show ?thesis
    using assms(2,3) by (auto split: option.splits client.splits dest!: client_atD intro!: receivers_inv_release)
next
  case (Background sev)
  with assms(3) obtain sys where "background sev" "sys_next E path policy sev (nw_sys n) = Some sys" "n' = n\<lparr>nw_sys := sys\<rparr>"
    by (auto split: if_splits)
  with assms(2) background_pubsub [OF this(1,2)] receivers_inv_table show ?thesis by auto
qed

text \<open>A process starts with a table of channels without receivers.\<close>

lemma drain_receivers: "broadcast_ok (chans E) \<Longrightarrow> same_receivers (chans E) (rs_db rs) (rs_db (drain E c total_read rs))"
proof (induction E c total_read rs rule: drain.induct)
  case (1 E c total_read rs)
  show ?case
  proof (cases "\<exists>f buf cmd. rs_buf rs \<noteq> [] \<and> parse (rs_buf rs) = Inr (Some f, buf) \<and> from_frame (c (rs_applied rs) 0) f = Inr cmd")
    case True
    then obtain f buf cmd where f: "rs_buf rs \<noteq> []" "parse (rs_buf rs) = Inr (Some f, buf)"
        "from_frame (c (rs_applied rs) 0) f = Inr cmd" by blast
    obtain r db1 where a: "apply_cmd E (\<lambda>i. c (rs_applied rs) (Suc i)) cmd (rs_db rs) = (r, db1)" by force
    have here: "same_receivers (chans E) (rs_db rs) db1" using apply_receivers [OF "1.prems", of "rs_db rs"] a by (metis snd_conv)
    show ?thesis
      using here "1.IH" [OF f(1) refl refl f(2) refl refl f(3) a [symmetric]] "1.prems" f a
      by (subst drain.simps) (auto simp: Let_def split: frame.splits intro: same_receivers_trans)
  next
    case False
    then show ?thesis by (subst drain.simps) (auto simp: Let_def split: sum.splits prod.splits option.splits)
  qed
qed

lemma replay_loop_receivers:
  "broadcast_ok (chans E) \<Longrightarrow> same_receivers (chans E) (rs_db rs) (rs_db (replay_loop E c chunks total_read rs))"
proof (induction chunks arbitrary: total_read rs)
  case Nil
  then show ?case
    using same_receivers_trans [OF drain_receivers drain_receivers] drain_receivers by (auto simp: Let_def)
next
  case (Cons chunk chunks)
  note here = drain_receivers [OF Cons.prems, of rs c total_read]
  have "same_receivers (chans E) (rs_db rs)
      (rs_db (replay_loop E c chunks t ((drain E c total_read rs)\<lparr>rs_buf := b\<rparr>)))" for t b
    using same_receivers_trans [OF here] Cons.IH [OF Cons.prems, of "(drain E c total_read rs)\<lparr>rs_buf := b\<rparr>" t] by simp
  then show ?case using here by (simp add: Let_def)
qed

lemma boot_receivers:
  assumes "broadcast_ok (chans E)" "boot E c (Some chunks) = (db, Some w)"
  shows "net_receivers (chans E) (fresh_network now db w)"
proof -
  have "same_receivers (chans E) new_db db"
    using assms(2) replay_loop_receivers [OF assms(1), of "\<lparr>rs_buf = [], rs_db = new_db, rs_applied = 0, rs_valid_len = 0,
        rs_truncate_to = None\<rparr>" c chunks 0]
    by (auto simp: boot_def replay_def Let_def split: prod.splits)
  then show ?thesis
    by (auto simp: fresh_network_def receivers_inv_def receivers_def same_receivers_def subscribers_def orphans_def
        new_db_def fun_eq_iff)
qed

lemma network_receivers:
  assumes "net_reachable path policy later E t n" "broadcast_ok (chans E)"
  shows "net_receivers (chans E) n"
  using assms by (induction rule: net_reachable.induct) (auto simp del: fresh_sys intro: boot_receivers net_step_receivers)

section \<open>The slots of the clients\<close>

fun waiting :: "'rx client \<Rightarrow> bool" where
  "waiting (Spawned reads) = True"
| "waiting _ = False"

fun handled :: "'rx client \<Rightarrow> bool" where
  "handled (Serving s) = True"
| "handled (Attached sub s) = True"
| "handled _ = False"

fun closing :: "'rx client \<Rightarrow> bool" where
  "closing (Closing left) = True"
| "closing _ = False"

text \<open>Each step of the server is one of the clients' life in \<^const>\<open>client_step\<close>, or does not touch it.\<close>

definition population_of :: "'rx client list \<Rightarrow> population" where
  "population_of cs =
     \<lparr>po_spawned = length (filter waiting cs), po_serving = length (filter handled cs),
      po_closing = length (filter closing cs), po_accepted = length cs\<rparr>"

abbreviation lives :: "('tx, 'rx) network \<Rightarrow> acceptor \<times> population" where
  "lives n \<equiv> (nw_acceptor n, population_of (nw_clients n))"

lemma population_update:
  assumes "i < length cs"
  shows "population_of (cs[i := c]) =
      \<lparr>po_spawned = po_spawned (population_of (rest_of i cs)) + of_bool (waiting c),
       po_serving = po_serving (population_of (rest_of i cs)) + of_bool (handled c),
       po_closing = po_closing (population_of (rest_of i cs)) + of_bool (closing c),
       po_accepted = length cs\<rparr>"
  using assms by (simp add: population_of_def upd_conv_take_nth_drop rest_of_def)

lemma population_at:
  assumes "i < length cs"
  shows "population_of cs =
      \<lparr>po_spawned = po_spawned (population_of (rest_of i cs)) + of_bool (waiting (cs ! i)),
       po_serving = po_serving (population_of (rest_of i cs)) + of_bool (handled (cs ! i)),
       po_closing = po_closing (population_of (rest_of i cs)) + of_bool (closing (cs ! i)),
       po_accepted = length cs\<rparr>"
  using population_update [OF assms, of "cs ! i"] by simp

definition lives_on :: "('tx, 'rx) network \<Rightarrow> ('tx, 'rx) network \<Rightarrow> bool" where
  "lives_on n n' \<longleftrightarrow> lives n' = lives n \<or> client_step (lives n) (lives n')"

lemma acceptor_of [simp]:
  "nw_acceptor (set_client i c n) = nw_acceptor n"
  "nw_acceptor (set_db db n) = nw_acceptor n"
  "nw_acceptor (handle_returns i left n) = client_guard_drop (nw_acceptor n)"
  by (simp_all add: set_client_def set_db_def handle_returns_def)

lemma handled_only: "handled c \<Longrightarrow> \<not> waiting c \<and> \<not> closing c"
  by (cases c) simp_all

text \<open>A client that is handled stays so or leaves.\<close>

lemma lives_on_handled:
  assumes "i < length (nw_clients n)" "handled (nw_clients n ! i)"
    "nw_acceptor n' = nw_acceptor n \<and> nw_clients n' = (nw_clients n)[i := c] \<and> handled c \<or>
     nw_acceptor n' = client_guard_drop (nw_acceptor n) \<and> nw_clients n' = (nw_clients n)[i := Closing left]"
  shows "lives_on n n'"
proof -
  note at = population_at [OF assms(1)] and upd = population_update [OF assms(1)]
  from assms(3) show ?thesis
  proof
    assume "nw_acceptor n' = nw_acceptor n \<and> nw_clients n' = (nw_clients n)[i := c] \<and> handled c"
    then have "lives n' = lives n" using assms(2) handled_only [of c] handled_only [OF assms(2)] by (simp add: at upd)
    then show ?thesis by (simp add: lives_on_def)
  next
    assume "nw_acceptor n' = client_guard_drop (nw_acceptor n) \<and> nw_clients n' = (nw_clients n)[i := Closing left]"
    then have "client_step (lives n) (lives n')"
      using client_step.end_task [of "population_of (nw_clients n)" "po_serving (population_of (rest_of i (nw_clients n)))"
          "nw_acceptor n"] assms(2) handled_only [OF assms(2)]
      by (simp add: at upd)
    then show ?thesis by (simp add: lives_on_def)
  qed
qed

lemma enter_lives:
  "enter_subscribed B writes channels i s n = (acks, n') \<Longrightarrow>
     nw_acceptor n' = nw_acceptor n \<and> (\<exists>c. nw_clients n' = (nw_clients n)[i := c] \<and> handled c) \<or>
     nw_acceptor n' = client_guard_drop (nw_acceptor n) \<and> (\<exists>left. nw_clients n' = (nw_clients n)[i := Closing left])"
  by (cases "subscribe_loop B channels (sys_db (nw_sys n)) (new_subscription writes)")
     (fastforce simp: enter_subscribed_def split: sub_next.splits)

lemma serve_request_lives:
  "serve_request E path policy t io writes i f s n = Some (out, n') \<Longrightarrow>
     nw_acceptor n' = nw_acceptor n \<and> (\<exists>c. nw_clients n' = (nw_clients n)[i := c] \<and> handled c) \<or>
     nw_acceptor n' = client_guard_drop (nw_acceptor n) \<and> (\<exists>left. nw_clients n' = (nw_clients n)[i := Closing left])"
  by (fastforce simp: serve_request_def Let_def simp del: sys_next.simps dest: enter_lives
      split: option.splits prod.splits bool.splits next_step.splits)

lemma net_step_lives:
  assumes "net_next E path policy ev n = Some (out, n')" shows "lives_on n n'"
proof (cases ev)
  case (Connects t reads)
  obtain ok a where a: "accept_one (nw_acceptor n) = (ok, a)" by force
  show ?thesis
  proof (cases ok)
    case True
    then have "client_step (lives n) (lives n')"
      using client_step.accept [of "nw_acceptor n" a "population_of (nw_clients n)"] assms a
      by (auto simp: Connects population_of_def)
    then show ?thesis by (simp add: lives_on_def)
  next
    case False
    then have "a = nw_acceptor n" using a by (simp add: accept_one_def split: if_splits)
    then show ?thesis using assms a False by (auto simp: Connects lives_on_def)
  qed
next
  case (Starts t i)
  with assms obtain reads where i: "i < length (nw_clients n)" "nw_clients n ! i = Spawned reads"
      "n' = set_client i (Serving ([], reads)) (n\<lparr>nw_acceptor := client_guard_new (nw_acceptor n)\<rparr>)"
    by (auto split: option.splits client.splits dest!: client_atD)
  then have "client_step (lives n) (lives n')"
    using client_step.begin_task [of "population_of (nw_clients n)" _ "nw_acceptor n"]
    by (simp add: population_at [OF i(1)] population_update [OF i(1)])
  then show ?thesis by (simp add: lives_on_def)
next
  case (Serves t i io writes)
  with assms obtain s where s: "i < length (nw_clients n)" "nw_clients n ! i = Serving s"
      "serve E path policy t io writes i s n = Some (out, n')"
    by (auto split: option.splits client.splits dest!: client_atD)
  then show ?thesis
    using lives_on_handled [of i n n'] serve_request_lives
    by (fastforce simp: serve_def split: sum.splits read_error.splits prod.splits option.splits)
next
  case (Selects t i order input)
  with assms obtain sub s where s: "i < length (nw_clients n)" "nw_clients n ! i = Attached sub s"
      "attend (chans E) order i input sub s n = Some (out, n')"
    by (auto split: option.splits client.splits dest!: client_atD)
  then show ?thesis
    using lives_on_handled [of i n n'] by (fastforce simp: attend_def split: prod.splits option.splits sub_next.splits)
next
  case (Detached t i ch)
  with assms have "i < length (nw_clients n) \<and> nw_acceptor n' = nw_acceptor n \<and>
      (\<exists>c. nw_clients n' = (nw_clients n)[i := c] \<and> \<not> waiting c \<and> \<not> waiting (nw_clients n ! i) \<and>
        handled c = handled (nw_clients n ! i) \<and> closing c = closing (nw_clients n ! i))"
    by (auto split: option.splits client.splits prod.splits dest!: client_atD)
  then have "lives n' = lives n" by (auto simp: population_at population_update)
  then show ?thesis by (simp add: lives_on_def)
next
  case (Releases t i)
  with assms obtain left where i: "i < length (nw_clients n)" "nw_clients n ! i = Closing left"
      "n' = set_client i (Gone left) (n\<lparr>nw_acceptor := permit_drop (nw_acceptor n)\<rparr>)"
    by (auto split: option.splits client.splits dest!: client_atD)
  then have "client_step (lives n) (lives n')"
    using client_step.release [of "population_of (nw_clients n)" _ "nw_acceptor n"]
    by (simp add: population_at [OF i(1)] population_update [OF i(1)])
  then show ?thesis by (simp add: lives_on_def)
next
  case (Background sev)
  then show ?thesis using assms by (auto simp: lives_on_def split: if_splits)
qed

text \<open>A process that started at \<open>now\<close> has at any time lived as \<^const>\<open>clients_reachable\<close> says.\<close>

lemma network_lives: "net_reachable path policy later E t n \<Longrightarrow> \<exists>now. clients_reachable now (lives n)"
proof (induction rule: net_reachable.induct)
  case (step E t n ev out n')
  then obtain now where "clients_reachable now (lives n)" by blast
  with net_step_lives [OF step.hyps(5)] have "clients_reachable now (lives n')"
    by (auto simp: lives_on_def simp del: split_paired_All intro: clients_reachable.step)
  then show ?case by blast
qed (auto simp: fresh_network_def population_of_def intro: clients_reachable.start)

end
