(* ===== verification/Sample.thy ===== *)
theory Sample
  imports Wire
begin

text \<open>
  A small concrete server, on which the witnesses of the properties are evaluated: a shard hash, a
  broadcast channel that counts its receivers, and a database with a string, a list and a hash.
\<close>

definition counting_broadcast :: "(nat, unit) broadcast" where
  "counting_broadcast = \<lparr>bc_channel = (\<lambda>_. 0), bc_subscribe = (\<lambda>n. ((), Suc n)),
     bc_send = (\<lambda>m n. (if n = 0 then None else Some n, n)), bc_receiver_count = (\<lambda>n. n),
     bc_drop = (\<lambda>_ n. n - 1)\<rparr>"

definition sample_env :: "(nat, unit) env" where
  "sample_env = \<lparr>xxh = (\<lambda>k. of_nat (length k)), hash_iter = (\<lambda>m. m), chans = counting_broadcast,
     process_id = ''1''\<rparr>"

definition sample_step :: "command \<Rightarrow> nat db \<Rightarrow> nat db" where
  "sample_step cmd db = snd (apply_cmd sample_env (\<lambda>_. 10) cmd db)"

definition sample_db :: "nat db" where
  "sample_db = fold sample_step
     [Set ''n'' ''41'' (Some 100), RPush ''list'' [''a'', ''b'', ''c''], HSet ''h'' [(''f'', ''1'')]] new_db"

lemma sample_step_view:
  assumes "db_wf (xxh sample_env) db"
  shows "db_wf (xxh sample_env) (sample_step cmd db)"
    "db_live (xxh sample_env) 10 (sample_step cmd db) =
       snd (spec_apply (hash_iter sample_env) 10 cmd (db_live (xxh sample_env) 10 db))"
  using apply_keeps [OF assms, of cmd "\<lambda>_. 10"] apply_refines [OF assms, of 10 cmd]
  by (simp_all add: sample_step_def keeps_def implements_def)

lemma sample_db_wf: "db_wf (xxh sample_env) sample_db"
  by (simp add: sample_db_def sample_step_view(1) db_wf_new del: apply_cmd.simps)

lemma sample_live:
  "db_live (xxh sample_env) 10 sample_db =
     [''n'' \<mapsto> string_entry ''41'' (Some 100), ''list'' \<mapsto> list_entry [''a'', ''b'', ''c''] None,
      ''h'' \<mapsto> hash_entry [(''f'', ''1'')] None]"
proof -
  have "db_live (xxh sample_env) 10 (new_db :: nat db) = Map.empty"
    by (simp add: db_live_def db_at_new fun_eq_iff)
  then show ?thesis
    by (simp add: sample_db_def sample_step_view db_wf_new eval_limits reply_def at_key_def spec_set_def
        spec_push_def spec_hset_def hset_pairs_def live_def entry_expired_def)
qed

lemma sample_numbers: "parse_i64_bytes ''41'' = Some 41" "show_i64 42 = ''42''"
proof -
  have "show_i64 41 = ''41''" by code_simp
  then show "parse_i64_bytes ''41'' = Some 41" using parse_i64_bytes_show_i64 [of 41] by simp
qed code_simp

lemma sample_reply:
  "fst (spec_apply (hash_iter sample_env) 10 cmd (db_live (xxh sample_env) 10 sample_db)) = Some r \<Longrightarrow>
   fst (apply_cmd sample_env (\<lambda>_. 10) cmd sample_db) = r"
  using apply_refines [OF sample_db_wf, of 10 cmd] by (simp add: implements_def)

lemma broadcast_ok_counting: "broadcast_ok counting_broadcast"
  by (simp add: broadcast_ok_def counting_broadcast_def)

end
