(* ===== verification/Sessions.thy ===== *)
theory Sessions
  imports Conversation Sample
begin

text \<open>The properties of client connections: the limit on clients, pipelining, and the subscribed mode.\<close>

section \<open>Pipelining\<close>

text \<open>
  C14. Pipelining: whatever pieces the network delivers a sequence of requests in, the connection writes the
  encoded replies of the requests, executed one after the other in their order, and nothing else;
  what follows the requests is still to be read, at the start of the next round.
\<close>

theorem pipelined_requests:
  assumes "list_all wire_frame fs" "length qs = length fs" "goes_on E qs fs db"
    "concat chunks = concat (map encode fs) @ rest"
    "length (concat (map encode fs) @ rest) \<le> MAX_BUFFERED_FRAME_BYTES"
  shows "\<exists>buf' chunks'. handle_loop E qs [] (map Received chunks) db =
      (concat (map encode (fst (answer_all E qs fs db))), InLoop buf' (map Received chunks'),
       snd (answer_all E qs fs db)) \<and> buf' @ concat chunks' = rest"
  using handle_loop_answers [OF assms(1-3), of "[]" chunks rest] assms(4,5) by simp

definition sample_turn :: turn where
  "sample_turn = \<lparr>tn_parse = 10, tn_log = 10, tn_clock = (\<lambda>_. 10), tn_aof = None,
     tn_state = \<lparr>ss_connected_clients = 1, ss_total_connections = 1, ss_started_at_ms = 0\<rparr>\<rparr>"

lemma sample_ping:
  "handle_request E (tn_parse sample_turn) (tn_log sample_turn) (tn_clock sample_turn) (tn_aof sample_turn)
     (tn_state sample_turn) (Array [Bulk ''PING'']) db = ([Simple ''PONG''], Continue, db, None)"
proof -
  have "from_frame 10 (Array [Bulk ''PING'']) = Inr (Ping None)"
    by code_simp
  then show ?thesis by (simp add: sample_turn_def handle_request_def execute_def)
qed

theorem pipelined_requests_witness:
  "\<exists>buf' chunks'. handle_loop sample_env [sample_turn, sample_turn] []
      (map Received [''*1'', crlf @ ''$4'' @ crlf @ ''PING'', crlf @ ''*1'' @ crlf @ ''$4'' @ crlf @ ''PING'' @ crlf]) sample_db =
      (concat (map encode [Simple ''PONG'', Simple ''PONG'']), InLoop buf' (map Received chunks'), sample_db) \<and>
      buf' @ concat chunks' = []"
proof -
  let ?f = "Array [Bulk ''PING'']" and ?q = sample_turn
  have enc: "encode ?f = ''*1'' @ crlf @ ''$4'' @ crlf @ ''PING'' @ crlf" by code_simp
  have "length (encode (Simple ''PONG'')) = 7" by code_simp
  then have on: "goes_on sample_env [?q, ?q] [?f, ?f] sample_db"
    by (simp add: sample_ping MAX_RESPONSE_FRAME_BYTES_def del: encode.simps)
  have "answer_all sample_env [?q, ?q] [?f, ?f] sample_db = ([Simple ''PONG'', Simple ''PONG''], sample_db)"
    by (simp add: sample_ping)
  then show ?thesis
    using pipelined_requests [OF _ _ on, of "[''*1'', crlf @ ''$4'' @ crlf @ ''PING'',
        crlf @ ''*1'' @ crlf @ ''$4'' @ crlf @ ''PING'' @ crlf]" "[]"]
    by (simp add: enc eval_limits del: encode.simps)
qed

text \<open>
  A connection whose client sends finitely many bytes ends: the loop of \<open>handle\<close> is left after at most one
  round more than there are bytes (by the end of the stream, an error, or the subscribed mode), since every
  round that goes on has taken a frame off the input; further rounds would not happen.
\<close>

theorem connection_ends:
  assumes "length buf + bytes_to_come reads < length qs"
  shows "\<not> stays (fst (snd (handle_loop E qs buf reads db))) \<and>
    handle_loop E (qs @ qs1) buf reads db = handle_loop E qs buf reads db"
  using assms by (rule handle_loop_ends)

theorem connection_ends_witness:
  "\<not> stays (fst (snd (handle_loop sample_env (replicate 20 sample_turn) [] [Received ''PING'', Received crlf] sample_db)))"
  using connection_ends [of "[]" "[Received ''PING'', Received crlf]" "replicate 20 sample_turn" sample_env sample_db]
  by simp

section \<open>The limit on clients\<close>

text \<open>
  In every interleaving of the accept loop with the tasks of the clients, the slots of the semaphore
  and the clients that hold one add up to \<open>MAX_CLIENTS\<close>; the counter that \<open>INFO\<close> reports is the number
  of clients being served, without wrapping around, and the other counter the number of accepted
  connections; a connection is turned away only when all slots are taken.
\<close>

theorem client_limit:
  assumes "clients_reachable now (a, p)"
  shows "ac_slots a + po_spawned p + po_serving p + po_closing p = MAX_CLIENTS \<and>
    ss_connected_clients (ac_state a) = po_serving p \<and> po_serving p \<le> MAX_CLIENTS \<and>
    ss_total_connections (ac_state a) = word_of_nat (po_accepted p) \<and>
    (fst (accept_one a) \<longleftrightarrow> po_spawned p + po_serving p + po_closing p < MAX_CLIENTS)"
  using clients_reachable_inv [OF assms] by (auto simp: clients_inv_def accept_one_def)

lemma sample_clients:
  "clients_reachable 0 (client_guard_new (snd (accept_one (server_state_new 0))),
     \<lparr>po_spawned = 0, po_serving = 1, po_closing = 0, po_accepted = 1\<rparr>)"
proof -
  have "accept_one (server_state_new 0) = (True, snd (accept_one (server_state_new 0)))"
    by (simp add: accept_one_def server_state_new_def MAX_CLIENTS_def)
  from clients_reachable.step [OF clients_reachable.start client_step.accept [OF this]]
  have "clients_reachable 0 (snd (accept_one (server_state_new 0)),
      \<lparr>po_spawned = 1, po_serving = 0, po_closing = 0, po_accepted = 1\<rparr>)" by simp
  from clients_reachable.step [OF this client_step.begin_task [of _ 0]] show ?thesis by simp
qed

theorem client_limit_witness:
  "ss_connected_clients (ac_state (client_guard_new (snd (accept_one (server_state_new 0))))) = 1"
  using client_limit [OF sample_clients] by simp

text \<open>
  C26. No slot is lost: from every state that can be reached, the tasks can run to their end, whatever
  they do meanwhile, and then all slots are free and no client is counted.
\<close>

theorem client_slots_return:
  assumes "clients_reachable now (a, p)"
  shows "\<exists>a' p'. client_step\<^sup>*\<^sup>* (a, p) (a', p') \<and> po_accepted p' = po_accepted p \<and> ac_slots a' = MAX_CLIENTS \<and>
    ss_connected_clients (ac_state a') = 0"
  using assms by (rule slots_return)

theorem client_slots_return_witness:
  "\<exists>a' p'. client_step\<^sup>*\<^sup>* (client_guard_new (snd (accept_one (server_state_new 0))),
      \<lparr>po_spawned = 0, po_serving = 1, po_closing = 0, po_accepted = 1\<rparr>) (a', p') \<and>
    po_accepted p' = 1 \<and> ac_slots a' = 1024"
  using client_slots_return [OF sample_clients] by (auto simp: MAX_CLIENTS_def)

section \<open>The subscribed mode\<close>

text \<open>
  A subscribed session that is left in the regular way (its last channel is unsubscribed, the client
  disconnects, or it is too slow) leaves no trace: every channel has the receivers it had before, and no
  channel without receivers is added to the table, whatever messages, lags and commands came in between and
  however many writes the client takes.
\<close>

theorem session_leaves_no_trace:
  assumes "broadcast_ok B" "run_subscribed B ord writes channels evs db = (fs, SubLeft, db')"
  shows "subscribers B db' = subscribers B db \<and> orphans B db' \<subseteq> orphans B db"
  using assms by (rule run_subscribed_left)

definition sample_session :: "sub_event list" where
  "sample_session = [SubTask ''a'' (ROk ''hi''), SubMessage, SubTask ''b'' RLagged, SubSlow]"

lemma small_write: "length (encode f) \<le> 100 \<Longrightarrow> write_frame f = Inr (encode f)"
  by (rule write_frame_fits) (simp add: MAX_RESPONSE_FRAME_BYTES_def)

lemma sample_writes:
  "write_frame (ack_subscribe ''subscribe'' ''a'' (Suc 0)) = Inr (encode (ack_subscribe ''subscribe'' ''a'' (Suc 0)))"
  "write_frame (ack_subscribe ''subscribe'' ''b'' (Suc (Suc 0))) = Inr (encode (ack_subscribe ''subscribe'' ''b'' (Suc (Suc 0))))"
  "write_frame (Array [Bulk ''message'', Bulk ''a'', Bulk ''hi'']) =
     Inr (encode (Array [Bulk ''message'', Bulk ''a'', Bulk ''hi'']))"
  "write_frame (Error ''ERR subscriber output buffer limit exceeded'') =
     Inr (encode (Error ''ERR subscriber output buffer limit exceeded''))"
proof -
  have "list_all (\<lambda>f. length (encode f) \<le> 100) [ack_subscribe ''subscribe'' ''a'' (Suc 0), ack_subscribe ''subscribe'' ''b'' (Suc (Suc 0)),
      Array [Bulk ''message'', Bulk ''a'', Bulk ''hi''], Error ''ERR subscriber output buffer limit exceeded'']"
    by code_simp
  then show "write_frame (ack_subscribe ''subscribe'' ''a'' (Suc 0)) = Inr (encode (ack_subscribe ''subscribe'' ''a'' (Suc 0)))"
    "write_frame (ack_subscribe ''subscribe'' ''b'' (Suc (Suc 0))) = Inr (encode (ack_subscribe ''subscribe'' ''b'' (Suc (Suc 0))))"
    "write_frame (Array [Bulk ''message'', Bulk ''a'', Bulk ''hi'']) =
       Inr (encode (Array [Bulk ''message'', Bulk ''a'', Bulk ''hi'']))"
    "write_frame (Error ''ERR subscriber output buffer limit exceeded'') =
       Inr (encode (Error ''ERR subscriber output buffer limit exceeded''))"
    by (simp_all add: small_write del: encode.simps)
qed

lemmas session_eval =
  run_subscribed_def subscribe_one_def new_subscription_def Let_def reply_then_def pubsub_subscribe_def
  task_receives_def task_ends_def PUBSUB_OUTPUT_CAP_def case_prod_beta sample_writes

lemma sample_session_run:
  "\<exists>db'. run_subscribed counting_broadcast (\<lambda>x. x) 10 [''a'', ''b''] sample_session sample_db =
     ([ack_subscribe ''subscribe'' ''a'' 1, ack_subscribe ''subscribe'' ''b'' 2,
       Array [Bulk ''message'', Bulk ''a'', Bulk ''hi''],
       Error ''ERR subscriber output buffer limit exceeded''], SubLeft, db')"
  by (simp add: sample_session_def session_eval numeral_2_eq_2 del: encode.simps)

theorem session_leaves_no_trace_witness:
  "\<exists>fs db'. run_subscribed counting_broadcast (\<lambda>x. x) 10 [''a'', ''b''] sample_session sample_db = (fs, SubLeft, db') \<and>
     subscribers counting_broadcast db' = subscribers counting_broadcast sample_db"
  using session_leaves_no_trace [OF broadcast_ok_counting] sample_session_run by blast



text \<open>
  A subscriber is never lost to the size of a publication: a message that arrived as \<open>PUBLISH\<close> over the wire,
  in whatever spelling, fits the output limit together with its channel, so that writing it to a
  subscriber succeeds as long as the socket takes it.
\<close>

theorem publications_fit:
  assumes "parse buf = Inr (Some f, r)" "from_frame now f = Inr (Publish channel msg)"
  shows "write_frame (Array [Bulk ''message'', Bulk channel, Bulk msg]) =
      Inr (encode (Array [Bulk ''message'', Bulk channel, Bulk msg])) \<and>
    (0 < sb_writes sub \<and> sb_queue sub = (channel, msg) # q \<longrightarrow>
      sub_step B ord SubMessage db sub = Some ([Array [Bulk ''message'', Bulk channel, Bulk msg]], Stay, db,
        sub\<lparr>sb_queue := q, sb_writes := sb_writes sub - 1\<rparr>))"
proof -
  have "write_frame (Array [Bulk ''message'', Bulk channel, Bulk msg]) =
      Inr (encode (Array [Bulk ''message'', Bulk channel, Bulk msg]))"
    using message_within [OF assms] by (intro write_frame_fits) (simp only: limits_values)
  then show ?thesis by (simp add: reply_then_def del: encode.simps)
qed

theorem publications_fit_witness:
  "write_frame (Array [Bulk ''message'', Bulk ''a'', Bulk ''hi'']) =
     Inr (encode (Array [Bulk ''message'', Bulk ''a'', Bulk ''hi'']))"
proof -
  let ?f = "Array [Bulk ''publish'', Bulk ''a'', Bulk ''hi'']"
  have "from_frame 10 ?f = Inr (Publish ''a'' ''hi'')" by code_simp
  moreover have "parse (encode ?f @ []) = Inr (Some ?f, [])" by (rule parse_encode) (simp add: eval_limits)
  ultimately show ?thesis using publications_fit by blast
qed

text \<open>
  C36. A subscribed session that ends with an error returns without ending its tasks: each channel whose
  subscription it had acknowledged still counts its receiver, so that \<open>PUBLISH\<close> reports a subscriber that is
  gone, and the channel stays in the table.
\<close>

theorem failed_session_keeps_receivers:
  assumes "broadcast_ok B" "run_subscribed B ord writes channels [SubReadError err] db = (fs, r, db')"
  shows "r = SubFailed \<and>
    list_all (\<lambda>ch. subscribers B db' ch = Suc (subscribers B db ch)) (take (length fs) channels)"
  using run_subscribed_failed [OF assms] by (simp add: list_all_iff)

theorem failed_session_keeps_receivers_witness:
  "\<exists>fs db'. run_subscribed counting_broadcast (\<lambda>x. x) 10 [''a''] [SubReadError ReadIdleTimeout] (new_db :: nat db) =
      (fs, SubFailed, db') \<and> subscribers counting_broadcast db' ''a'' = 1"
proof -
  obtain db' where run: "run_subscribed counting_broadcast (\<lambda>x. x) 10 [''a''] [SubReadError ReadIdleTimeout]
      (new_db :: nat db) = ([ack_subscribe ''subscribe'' ''a'' 1], SubFailed, db')"
    by (simp add: session_eval del: encode.simps)
  have "subscribers counting_broadcast (new_db :: nat db) ''a'' = 0" by (simp add: subscribers_def new_db_def)
  then show ?thesis using failed_session_keeps_receivers [OF broadcast_ok_counting run] run by simp
qed

section \<open>Whole connections\<close>

text \<open>
  C13. What a client gets depends on the frames it sends and not on how they arrive: however the network cuts
  the stream, a connection, with every subscribed mode it enters and leaves, writes the same bytes, does
  the same to the database and ends in the same way as one that is handed the frames one by one, and what it
  has not read yet is the encoding of the frames it has not been handed.
\<close>

theorem connection_serves_frames:
  assumes "list_all wire_frame fs" "concat chunks = concat (map encode fs)"
    "length (concat chunks) \<le> MAX_BUFFERED_FRAME_BYTES" "handle_conn E next_frame rounds fs db = (out, r, db')"
  shows "\<exists>r'. handle_conn E read_conn rounds ([], map Received chunks) db = (out, r', db') \<and>
    rel_conn_end delivers r' r"
proof -
  have "delivers ([], map Received chunks) fs" using assms(1-3) by (auto simp: delivers_def)
  from wire.handle_conn_same [OF this, of E rounds db] assms(4) show ?thesis
    by (cases "handle_conn E read_conn rounds ([], map Received chunks) db") (auto simp: rel_prod_conv)
qed

definition sample_round :: conn_round where
  "sample_round = \<lparr>cr_turn = sample_turn, cr_order = (\<lambda>chs. chs), cr_writes = 10,
     cr_inputs = [TaskReady ''a'' RLagged, SlowReady]\<rparr>"

definition slow_frames :: "frame list" where
  "slow_frames = [Array [Bulk ''SUBSCRIBE'', Bulk ''a''], Array [Bulk ''PING'']]"

definition slow_output :: "frame list" where
  "slow_output = [ack_subscribe ''subscribe'' ''a'' 1, Error ''ERR subscriber output buffer limit exceeded'', Simple ''PONG'']"

lemma sample_subscribe:
  "handle_request E (tn_parse sample_turn) (tn_log sample_turn) (tn_clock sample_turn) (tn_aof sample_turn)
     (tn_state sample_turn) (Array [Bulk ''SUBSCRIBE'', Bulk ''a'']) db = ([], EnterSubscribed [''a''], db, None)"
proof -
  have "from_frame 10 (Array [Bulk ''SUBSCRIBE'', Bulk ''a'']) = Inr (Subscribe [''a''])" by code_simp
  then show ?thesis by (simp add: sample_turn_def handle_request_def)
qed

lemma slow_conversation:
  "\<exists>db'. handle_conn sample_env next_frame [sample_round, sample_round, sample_round] slow_frames sample_db =
     (concat (map encode slow_output), Closed, db')"
proof -
  have "length (encode (Simple ''PONG'')) \<le> 100" by code_simp
  then have pong: "write_frame (Simple ''PONG'') = Inr (encode (Simple ''PONG''))" by (rule small_write)
  have r: "cr_turn sample_round = sample_turn" "cr_order sample_round = (\<lambda>chs. chs)" "cr_writes sample_round = 10"
      "cr_inputs sample_round = [TaskReady ''a'' RLagged, SlowReady]" by (simp_all add: sample_round_def)
  show ?thesis
    by (simp add: slow_frames_def slow_output_def r sample_subscribe sample_ping visit_def session_eval pong
        del: encode.simps)
qed

theorem connection_serves_frames_witness:
  "\<exists>db'. handle_conn sample_env read_conn [sample_round, sample_round, sample_round]
      ([], map Received [take 5 (concat (map encode slow_frames)), drop 5 (concat (map encode slow_frames))]) sample_db =
      (concat (map encode slow_output), Closed, db')"
proof -
  obtain db' where r: "handle_conn sample_env next_frame [sample_round, sample_round, sample_round] slow_frames sample_db =
     (concat (map encode slow_output), Closed, db')" using slow_conversation by blast
  have "length (concat (map encode slow_frames)) \<le> 100" by code_simp
  then have "length (concat (map encode slow_frames)) \<le> MAX_BUFFERED_FRAME_BYTES" by (simp add: limits_values)
  moreover have "list_all wire_frame slow_frames" by (simp add: slow_frames_def eval_limits)
  ultimately obtain r' where r': "handle_conn sample_env read_conn [sample_round, sample_round, sample_round]
      ([], map Received [take 5 (concat (map encode slow_frames)), drop 5 (concat (map encode slow_frames))]) sample_db =
      (concat (map encode slow_output), r', db')" "rel_conn_end delivers r' Closed"
    using connection_serves_frames [OF _ _ _ r, of "[take 5 (concat (map encode slow_frames)),
      drop 5 (concat (map encode slow_frames))]"] by (auto simp del: handle_conn.simps)
  from r'(2) have "r' = Closed" by (cases r') simp_all
  with r'(1) show ?thesis by blast
qed

text \<open>
  A connection that is still open or has been closed by its client has left no receiver behind and no
  channel without receivers, whatever it subscribed to, published and ran meanwhile, and however often it
  entered the subscribed mode.
\<close>

theorem connection_leaves_no_trace:
  assumes "broadcast_ok (chans E)" "handle_conn E read_conn rounds (buf, reads) db = (out, r, db')"
    "r = Closed \<or> (\<exists>s. r = Looping s)"
  shows "subscribers (chans E) db' = subscribers (chans E) db \<and> orphans (chans E) db' \<subseteq> orphans (chans E) db"
  using handle_conn_receivers [OF assms] by (simp add: same_receivers_def)

lemma slow_conversation_read:
  "\<exists>db'. handle_conn sample_env read_conn [sample_round, sample_round, sample_round]
      ([], [Received (concat (map encode slow_frames))]) sample_db = (concat (map encode slow_output), Closed, db')"
proof -
  let ?s = "([], [Received (concat (map encode slow_frames))])" and ?qs = "[sample_round, sample_round, sample_round]"
  have "length (concat (map encode slow_frames)) \<le> 100" by code_simp
  then have "delivers ?s slow_frames"
    by (auto simp: delivers_def limits_values slow_frames_def eval_limits simp del: encode.simps intro!: exI [of _ "[_]"])
  from wire.handle_conn_same [OF this, of sample_env ?qs sample_db] slow_conversation
  obtain r db' where r: "handle_conn sample_env read_conn ?qs ?s sample_db = (concat (map encode slow_output), r, db')"
      "rel_conn_end delivers r Closed"
    by (cases "handle_conn sample_env read_conn ?qs ?s sample_db") (auto simp: rel_prod_conv simp del: handle_conn.simps)
  from r(2) have "r = Closed" by (cases r) simp_all
  with r(1) show ?thesis by blast
qed

theorem connection_leaves_no_trace_witness:
  "\<exists>out db'. handle_conn sample_env read_conn [sample_round, sample_round, sample_round]
      ([], [Received (concat (map encode slow_frames))]) sample_db = (out, Closed, db') \<and>
    subscribers (chans sample_env) db' = subscribers (chans sample_env) sample_db"
proof -
  obtain db' where r: "handle_conn sample_env read_conn [sample_round, sample_round, sample_round]
      ([], [Received (concat (map encode slow_frames))]) sample_db = (concat (map encode slow_output), Closed, db')"
    using slow_conversation_read by blast
  have "broadcast_ok (chans sample_env)" by (simp add: sample_env_def broadcast_ok_counting)
  from connection_leaves_no_trace [OF this r] r show ?thesis by blast
qed

text \<open>
  C27. A connection ends when its client sends finitely many bytes: after at most one round more than there are
  bytes, if every subscribed mode it enters also gets to read often enough, \<open>handle\<close> has returned. Every
  round, and every frame of the subscribed mode, takes bytes off the input.
\<close>

theorem conversation_ends:
  assumes "length buf + bytes_to_come reads < length rounds"
    "list_all (\<lambda>q. length buf + bytes_to_come reads < frames_ready (cr_inputs q)) rounds"
  shows "over (fst (snd (handle_conn E read_conn rounds (buf, reads) db)))"
  using assms finite_wire.handle_conn_ends [of "(buf, reads)" rounds E db] by (simp add: bytes_left_def)

theorem conversation_ends_witness:
  "over (fst (snd (handle_conn sample_env read_conn
     (replicate 20 (sample_round\<lparr>cr_inputs := replicate 20 (FrameReady 10)\<rparr>)) ([], [Received ''PING'', Received crlf]) sample_db)))"
proof (rule conversation_ends)
  have "frames_ready (replicate n (FrameReady 10)) = n" for n by (induction n) simp_all
  then show "list_all (\<lambda>q. length ([] :: bytes) + bytes_to_come [Received ''PING'', Received crlf] < frames_ready (cr_inputs q))
      (replicate 20 (sample_round\<lparr>cr_inputs := replicate 20 (FrameReady 10)\<rparr>))"
    by (simp add: list_all_iff)
qed simp

text \<open>
  C40. A subscriber that is too slow is not disconnected: the mode is left, its subscriptions end and an error
  is written, but the connection goes on, and the next request is answered as if nothing had happened.
\<close>

theorem slow_subscriber_stays_connected:
  "\<exists>db'. handle_conn sample_env read_conn [sample_round, sample_round, sample_round]
      ([], [Received (concat (map encode slow_frames))]) sample_db =
    (encode (ack_subscribe ''subscribe'' ''a'' 1) @ encode (Error ''ERR subscriber output buffer limit exceeded'') @
     encode (Simple ''PONG''), Closed, db')"
  using slow_conversation_read by (simp add: slow_output_def del: handle_conn.simps encode.simps)

end
