(* ===== verification/Gate.thy ===== *)
theory Gate
  imports System
begin

text \<open>
  The gate of the database at work (\<open>write_gate\<close> of \<^verbatim>\<open>src/src/db/mod.rs\<close>). The theory \<open>System\<close>
  executes and logs a write in one step; here the write of \<open>handle\<close> (\<^verbatim>\<open>src/src/server.rs\<close>) goes
  through the steps the code has: it takes the gate and remembers the entries it may change, executes,
  waits for the log, and undoes its changes when the log refuses. Meanwhile everything that does
  not take the gate goes on: commands that only read, the sweeper, the fsync timer and a rewrite that
  writes its file. The invariant says what is on disk at each moment, and that the interleaving is harmless
  for it.
\<close>

section \<open>States and steps\<close>

type_synonym rollback = "(bytes \<times> entry option) list"

text \<open>
  Who holds the gate: nobody, a write before its execution, one that waits for the log (with its reply),
  one that must be undone, or a rewrite that has started buffering but not taken its snapshot.
\<close>

datatype gate =
    Free
  | Prepared command frame rollback
  | Applied frame frame rollback
  | Undoing bytes rollback
  | Starting

record 'tx gated =
  gt_sys :: "'tx system"
  gt_gate :: gate

datatype 'tx gate_event =
    Ungated "'tx sys_event"
  | TakeGate u128 u128 u128 frame
  | ApplyWrite u128
  | LogWrite u128 io
  | UndoWrite u128
  | StartRewrite u128
  | TakeEntries u128

fun gate_time :: "'tx gate_event \<Rightarrow> u128" where
  "gate_time (Ungated ev) = ev_time ev"
| "gate_time (TakeGate parsed built t f) = t"
| "gate_time (ApplyWrite t) = t"
| "gate_time (LogWrite t io) = t"
| "gate_time (UndoWrite t) = t"
| "gate_time (StartRewrite t) = t"
| "gate_time (TakeEntries t) = t"

text \<open>The events that need the gate.\<close>

fun takes_gate :: "'tx sys_event \<Rightarrow> bool" where
  "takes_gate (ClientRequest t io st f) = (case from_frame t f of Inr cmd \<Rightarrow> is_write cmd | Inl e \<Rightarrow> False)"
| "takes_gate (TakeSnapshot t) = True"
| "takes_gate _ = False"

text \<open>
  The next state, \<^const>\<open>None\<close> where the event cannot happen. A write was parsed at \<open>parsed\<close> and its log
  frame built at \<open>built\<close>, both before it got the gate.
\<close>

fun gate_next ::
  "('tx, 'rx) env \<Rightarrow> bytes \<Rightarrow> fsync_policy \<Rightarrow> 'tx gate_event \<Rightarrow> 'tx gated \<Rightarrow> 'tx gated option" where
  "gate_next E path policy (Ungated ev) g =
     (if takes_gate ev then None
      else case sys_next E path policy ev (gt_sys g) of Some s \<Rightarrow> Some (g\<lparr>gt_sys := s\<rparr>) | None \<Rightarrow> None)"
| "gate_next E path policy (TakeGate parsed built t f) g =
     (case (gt_gate g, from_frame parsed f) of
        (Free, Inr cmd) \<Rightarrow>
          (case aof_frame built cmd of
             Some frame \<Rightarrow>
               Some (g\<lparr>gt_gate := Prepared cmd frame
                        (snapshot_entries (xxh E) (mutated_keys cmd) (sys_db (gt_sys g)))\<rparr>)
           | None \<Rightarrow> None)
      | _ \<Rightarrow> None)"
| "gate_next E path policy (ApplyWrite t) g = (case gt_gate g of
      Prepared cmd frame rb \<Rightarrow>
        (case apply_cmd E (\<lambda>_. t) cmd (sys_db (gt_sys g)) of
           (Error e, db) \<Rightarrow> Some (g\<lparr>gt_sys := (gt_sys g)\<lparr>sys_db := db\<rparr>, gt_gate := Free\<rparr>)
         | (r, db) \<Rightarrow> Some (g\<lparr>gt_sys := (gt_sys g)\<lparr>sys_db := db\<rparr>, gt_gate := Applied r frame rb\<rparr>))
    | _ \<Rightarrow> None)"
| "gate_next E path policy (LogWrite t io) g = (case gt_gate g of
      Applied r frame rb \<Rightarrow>
        (case handle_write policy io frame (sys_writer (gt_sys g)) of
           (Inr _, w) \<Rightarrow> Some (g\<lparr>gt_sys := (gt_sys g)\<lparr>sys_writer := w\<rparr>, gt_gate := Free\<rparr>)
         | (Inl e, w) \<Rightarrow> Some (g\<lparr>gt_sys := (gt_sys g)\<lparr>sys_writer := w\<rparr>, gt_gate := Undoing e rb\<rparr>))
    | _ \<Rightarrow> None)"
| "gate_next E path policy (UndoWrite t) g = (case gt_gate g of
      Undoing e rb \<Rightarrow>
        Some (g\<lparr>gt_sys := (gt_sys g)\<lparr>sys_db := restore_entries (xxh E) rb (sys_db (gt_sys g))\<rparr>, gt_gate := Free\<rparr>)
    | _ \<Rightarrow> None)"
| "gate_next E path policy (StartRewrite t) g = (case (gt_gate g, sys_phase (gt_sys g)) of
      (Free, Scheduled) \<Rightarrow>
        (case writer_step policy no_failures MStartRewrite (sys_writer (gt_sys g)) of
           (Inl e, w) \<Rightarrow> Some (g\<lparr>gt_sys := (gt_sys g)\<lparr>
               sys_writer := w\<lparr>w_stats := finish_rewrite_stats t False (Some e) (w_stats w)\<rparr>, sys_phase := Idle\<rparr>\<rparr>)
         | (Inr _, w) \<Rightarrow> Some (g\<lparr>gt_sys := (gt_sys g)\<lparr>sys_writer := w\<rparr>, gt_gate := Starting\<rparr>))
    | _ \<Rightarrow> None)"
| "gate_next E path policy (TakeEntries t) g = (case gt_gate g of
      Starting \<Rightarrow> Some (g\<lparr>gt_sys := (gt_sys g)\<lparr>
          sys_phase := Snapshotted (aof_snapshot_entries t (sys_db (gt_sys g)))\<rparr>, gt_gate := Free\<rparr>)
    | _ \<Rightarrow> None)"

text \<open>What a run must satisfy for its log to be recoverable, as \<^const>\<open>admissible\<close> in \<open>System\<close>.\<close>

fun gate_admissible :: "u128 \<Rightarrow> 'tx gate_event \<Rightarrow> 'tx gated \<Rightarrow> bool" where
  "gate_admissible later (Ungated ev) g \<longleftrightarrow> admissible later ev (gt_sys g)"
| "gate_admissible later (TakeGate parsed built t f) g \<longleftrightarrow> wire_request parsed f \<and>
     (case from_frame parsed f of Inl _ \<Rightarrow> True | Inr cmd \<Rightarrow> log_fits built cmd)"
| "gate_admissible later (ApplyWrite t) g \<longleftrightarrow>
     (case gt_gate g of Prepared cmd frame rb \<Rightarrow> settled t later cmd | _ \<Rightarrow> True)"
| "gate_admissible later (TakeEntries t) g \<longleftrightarrow>
     (\<forall>(k, e) \<in> set (aof_snapshot_entries t (sys_db (gt_sys g))). rewritable later e)"
| "gate_admissible later _ g \<longleftrightarrow> True"

inductive gate_reachable ::
  "bytes \<Rightarrow> fsync_policy \<Rightarrow> u128 \<Rightarrow> ('tx, 'rx) env \<Rightarrow> u128 \<Rightarrow> 'tx gated \<Rightarrow> bool"
  for path policy later where
  first: "iterates E \<Longrightarrow> boot E c (Some []) = (db, Some w) \<Longrightarrow>
    gate_reachable path policy later E 0
      \<lparr>gt_sys = \<lparr>sys_db = db, sys_writer = w, sys_phase = Idle\<rparr>, gt_gate = Free\<rparr>"
| step: "gate_reachable path policy later E t g \<Longrightarrow> t \<le> gate_time ev \<Longrightarrow> gate_time ev \<le> later \<Longrightarrow>
    gate_admissible later ev g \<Longrightarrow> gate_next E path policy ev g = Some g' \<Longrightarrow>
    length (w_file (sys_writer (gt_sys g'))) < 2 ^ 64 \<Longrightarrow> gate_reachable path policy later E (gate_time ev) g'"
| restart: "gate_reachable path policy later E t g \<Longrightarrow> \<not> si_write_failed (w_stats (sys_writer (gt_sys g))) \<Longrightarrow>
    iterates E' \<Longrightarrow> t \<le> now \<Longrightarrow> now \<le> later \<Longrightarrow> wire_frame f \<Longrightarrow> encode f = torn @ lost \<Longrightarrow> lost \<noteq> [] \<Longrightarrow>
    w_synced (sys_writer (gt_sys g)) \<le> k \<Longrightarrow> concat chunks = take k (w_file (sys_writer (gt_sys g)) @ torn) \<Longrightarrow> boot E' (\<lambda>_ _. now) (Some chunks) = (db, Some w) \<Longrightarrow>
    gate_reachable path policy later E' now
      \<lparr>gt_sys = \<lparr>sys_db = db, sys_writer = w, sys_phase = Idle\<rparr>, gt_gate = Free\<rparr>"

section \<open>The settled view\<close>

text \<open>
  The database without the write that is under way, and the state of the server in which neither that
  write nor the start of the rewrite has happened.
\<close>

definition settled_db :: "(bytes \<Rightarrow> u64) \<Rightarrow> 'tx gated \<Rightarrow> 'tx db" where
  "settled_db h g = (case gt_gate g of
      Applied r frame rb \<Rightarrow> restore_entries h rb (sys_db (gt_sys g))
    | Undoing e rb \<Rightarrow> restore_entries h rb (sys_db (gt_sys g))
    | _ \<Rightarrow> sys_db (gt_sys g))"

definition settled_sys :: "(bytes \<Rightarrow> u64) \<Rightarrow> 'tx gated \<Rightarrow> 'tx system" where
  "settled_sys h g = (gt_sys g)\<lparr>sys_db := settled_db h g,
     sys_writer := (if gt_gate g = Starting then (sys_writer (gt_sys g))\<lparr>w_buffer := None\<rparr> else sys_writer (gt_sys g))\<rparr>"

definition write_ok :: "command \<Rightarrow> frame \<Rightarrow> bool" where
  "write_ok cmd frame \<longleftrightarrow> command_wf cmd \<and> append_fits cmd \<and> is_write cmd \<and> wire_frame frame \<and>
     (\<exists>built. aof_frame built cmd = Some frame)"

definition gate_inv :: "(bytes \<Rightarrow> u64) \<Rightarrow> u128 \<Rightarrow> u128 \<Rightarrow> 'tx gated \<Rightarrow> bool" where
  "gate_inv h t later g \<longleftrightarrow> sys_inv h t later (settled_sys h g) \<and> db_wf h (sys_db (gt_sys g)) \<and>
     (case gt_gate g of
        Free \<Rightarrow> True
      | Prepared cmd frame rb \<Rightarrow> write_ok cmd frame \<and> distinct (map fst rb) \<and> fst ` set rb = set (mutated_keys cmd) \<and>
          db_live h t (restore_entries h rb (sys_db (gt_sys g))) = db_live h t (sys_db (gt_sys g))
      | Applied r frame rb \<Rightarrow> distinct (map fst rb) \<and> db_inv h t later (sys_db (gt_sys g)) \<and>
          leads_in t later [frame] (db_live h t (settled_db h g)) (db_live h t (sys_db (gt_sys g)))
      | Undoing e rb \<Rightarrow> distinct (map fst rb)
      | Starting \<Rightarrow> sys_phase (gt_sys g) = Scheduled \<and> w_buffer (sys_writer (gt_sys g)) = Some rewrite_buffer_new)"

lemma settled_simps [simp]:
  "gt_gate g = Free \<Longrightarrow> settled_db h g = sys_db (gt_sys g)"
  "gt_gate g = Prepared cmd frame rb \<Longrightarrow> settled_db h g = sys_db (gt_sys g)"
  "gt_gate g = Applied r frame rb \<Longrightarrow> settled_db h g = restore_entries h rb (sys_db (gt_sys g))"
  "gt_gate g = Undoing e rb \<Longrightarrow> settled_db h g = restore_entries h rb (sys_db (gt_sys g))"
  "gt_gate g = Starting \<Longrightarrow> settled_db h g = sys_db (gt_sys g)"
  by (simp_all add: settled_db_def)

lemma settled_sys_simps [simp]:
  "sys_db (settled_sys h g) = settled_db h g" "sys_phase (settled_sys h g) = sys_phase (gt_sys g)"
  "w_file (sys_writer (settled_sys h g)) = w_file (sys_writer (gt_sys g))"
  "w_synced (sys_writer (settled_sys h g)) = w_synced (sys_writer (gt_sys g))"
  "w_stats (sys_writer (settled_sys h g)) = w_stats (sys_writer (gt_sys g))"
  by (simp_all add: settled_sys_def)

lemma settled_sys_eq:
  "gt_gate g \<noteq> Starting \<Longrightarrow> settled_sys h g = (gt_sys g)\<lparr>sys_db := settled_db h g\<rparr>"
  by (simp add: settled_sys_def)

text \<open>The invariant of the server depends on the database only through its live entries.\<close>

lemma sys_inv_cong:
  assumes "sys_inv h t later s" "db_wf h db" "db_live h t db = db_live h t (sys_db s)"
  shows "sys_inv h t later (s\<lparr>sys_db := db\<rparr>)"
  using assms db_inv_same [of h t later "sys_db s" db] by (simp add: sys_inv_def)

text \<open>Rolling back does not notice changes of entries that are not live.\<close>

lemma live_restore:
  assumes "db_wf h db" "distinct (map fst rb)"
  shows "db_live h t (restore_entries h rb db) k = (case map_of rb k of Some eo \<Rightarrow> live t eo | None \<Rightarrow> db_live h t db k)"
  using restore_entries_view [OF assms] by (simp add: db_live_def split: option.splits)

lemma live_restore_cong:
  assumes "db_wf h db" "db_wf h db'" "distinct (map fst rb)" "db_live h t db' = db_live h t db"
  shows "db_live h t (restore_entries h rb db') = db_live h t (restore_entries h rb db)"
  using assms by (simp add: live_restore fun_eq_iff split: option.splits)

lemma restored_passes:
  assumes "db_wf h db" "distinct (map fst rb)" "t \<le> t'"
    "db_live h t (restore_entries h rb db) = db_live h t db"
  shows "db_live h t' (restore_entries h rb db) = db_live h t' db"
proof
  fix k
  have "live t' (live t (db_at h (restore_entries h rb db) k)) = live t' (live t (db_at h db k))"
    using fun_cong [OF assms(4), of k] by (simp add: db_live_def)
  then show "db_live h t' (restore_entries h rb db) k = db_live h t' db k"
    by (simp add: db_live_def live_later [OF assms(3)])
qed

section \<open>What goes on beside the gate\<close>

text \<open>Such an event changes nothing that is live, and does to the log what it would do on another database.\<close>

lemma ungated_live:
  assumes "\<not> takes_gate ev" "sys_next E path policy ev s = Some s'" "db_wf (xxh E) (sys_db s)" "admissible later ev s"
  shows "db_wf (xxh E) (sys_db s')" "db_live (xxh E) (ev_time ev) (sys_db s') = db_live (xxh E) (ev_time ev) (sys_db s)"
proof -
  have "db_wf (xxh E) (sys_db s') \<and>
    db_live (xxh E) (ev_time ev) (sys_db s') = db_live (xxh E) (ev_time ev) (sys_db s)"
  proof (cases ev)
    case (ClientRequest t io st f)
    obtain replies nxt db' logged where h: "handle_request E t t (\<lambda>_. t)
        (Some (aof_handle_of path policy io (sys_writer s))) st f (sys_db s) = (replies, nxt, db', logged)"
      by (metis prod_cases4)
    have "log_call E t f (sys_db s) = None"
      using assms(1) by (simp add: ClientRequest log_call_def split: sum.splits)
    then have "logged = None" using log_call_cases [OF h] by simp
    moreover have "sys_db s' = db'" using assms(2) h by (auto simp: ClientRequest)
    moreover have "db_wf (xxh E) db'" using handle_request_wf [OF assms(3)] h by (metis fst_conv snd_conv)
    ultimately show ?thesis using request_cases [OF assms(3) _ h] assms(4) by (simp add: ClientRequest)
  next
    case (SweepTick t)
    then have "sys_db s' = sweep_once t (sys_db s)" using assms(2) by auto
    then show ?thesis
      using db_at_sweep [OF assms(3), of t] live_later [of t t] db_wf_sweep [OF assms(3), of t]
      by (simp add: SweepTick db_live_def fun_eq_iff)
  qed (use assms in \<open>auto split: if_splits rewrite_phase.splits sum.splits option.splits prod.splits simp: Let_def\<close>)
  then show "db_wf (xxh E) (sys_db s')" "db_live (xxh E) (ev_time ev) (sys_db s') = db_live (xxh E) (ev_time ev) (sys_db s)"
    by blast+
qed

lemma ungated_other_db:
  assumes "\<not> takes_gate ev" "sys_next E path policy ev s = Some s'"
  shows "\<exists>db'. sys_next E path policy ev (s\<lparr>sys_db := db\<rparr>) = Some (s'\<lparr>sys_db := db'\<rparr>)"
proof -
  obtain db0 w phase where s: "s = \<lparr>sys_db = db0, sys_writer = w, sys_phase = phase\<rparr>" by (cases s)
  show ?thesis
  proof (cases ev)
    case (ClientRequest t io st f)
    have "log_call E t f db1 = None" for db1 :: "'a db"
      using assms(1) by (simp add: ClientRequest log_call_def split: sum.splits)
    then show ?thesis using assms(2) by (auto simp: s ClientRequest request_writer_def split: prod.splits)
  qed (use assms in \<open>auto simp: s Let_def split: if_splits rewrite_phase.splits sum.splits option.splits prod.splits\<close>)
qed

lemma ungated_starting:
  assumes "\<not> takes_gate ev" "sys_next E path policy ev s = Some s'" "sys_phase s = Scheduled"
    "si_rewrite_in_progress (w_stats (sys_writer s))"
  shows "sys_next E path policy ev (s\<lparr>sys_writer := (sys_writer s)\<lparr>w_buffer := None\<rparr>\<rparr>) =
      Some (s'\<lparr>sys_writer := (sys_writer s')\<lparr>w_buffer := None\<rparr>\<rparr>) \<and>
    sys_phase s' = Scheduled \<and> w_buffer (sys_writer s') = w_buffer (sys_writer s)"
proof (cases ev)
  case (ClientRequest t io st f)
  have call: "log_call E t f (sys_db s) = None"
    using assms(1) by (simp add: ClientRequest log_call_def split: sum.splits)
  have "fst (snd (snd (handle_request E t t (\<lambda>_. t) (Some (aof_handle_of path policy io w)) st f (sys_db s)))) =
      fst (snd (snd (handle_request E t t (\<lambda>_. t) (Some (aof_handle_of path policy io w')) st f (sys_db s))))" for w w'
    using assms(1)
    by (auto simp: ClientRequest handle_request_def execute_read case_prod_beta split: sum.splits command.splits option.splits)
  then show ?thesis
    using assms(2-4) call
    by (auto simp: ClientRequest request_writer_def begin_rewrite_def case_prod_beta)
next
  case (FsyncTick t io)
  then show ?thesis using assms by (cases "io_sync io") (auto simp: writer_tick_def sync_data_def split: if_splits)
qed (use assms in auto)

section \<open>Every step keeps the invariant\<close>

lemma settled_db_wf: "gate_inv h t later g \<Longrightarrow> db_wf h (settled_db h g)"
  by (simp add: gate_inv_def sys_inv_def db_inv_def)

lemma gate_inv_passes:
  assumes "gate_inv h t later g" "t \<le> t'" "t' \<le> later" shows "gate_inv h t' later g"
proof -
  have sys: "sys_inv h t' later (settled_sys h g)"
    using assms sys_inv_passes by (auto simp: gate_inv_def)
  have settled: "db_live h t' (settled_db h g) = db_live h t (settled_db h g)"
    using assms db_live_passes [of h t later "settled_db h g" t'] by (simp add: gate_inv_def sys_inv_def)
  show ?thesis
  proof (cases "gt_gate g")
    case (Prepared cmd frame rb)
    then show ?thesis
      using assms(1,2) sys restored_passes [of h "sys_db (gt_sys g)" rb t t'] by (simp add: gate_inv_def)
  next
    case (Applied r frame rb)
    then have a: "db_inv h t later (sys_db (gt_sys g))"
        "leads_in t later [frame] (db_live h t (settled_db h g)) (db_live h t (sys_db (gt_sys g)))"
      using assms(1) by (simp_all add: gate_inv_def)
    have "db_live h t' (sys_db (gt_sys g)) = db_live h t (sys_db (gt_sys g))"
      using a(1) assms(2,3) by (rule db_live_passes)
    then show ?thesis
      using assms(1) sys settled Applied a(1) leads_in_passes [OF a(2) assms(2)] by (simp add: gate_inv_def db_inv_def)
  qed (use assms(1) sys in \<open>simp_all add: gate_inv_def\<close>)
qed

lemma ungated_inv:
  assumes inv: "gate_inv (xxh E) (ev_time ev) later g" and t: "ev_time ev \<le> later"
    and nxt: "gate_next E path policy (Ungated ev) g = Some g'" and adm: "admissible later ev (gt_sys g)"
    and len: "length (w_file (sys_writer (gt_sys g'))) < 2 ^ 64"
    and later: "unat later + unat MAX_EXPIRE_AT_MS < 2 ^ 128" and ord: "\<forall>hm. mset (hash_iter E hm) = mset hm"
  shows "gate_inv (xxh E) (ev_time ev) later g'"
proof -
  let ?h = "xxh E" and ?t = "ev_time ev" and ?s = "gt_sys g"
  have quiet: "\<not> takes_gate ev" using nxt by (auto split: if_splits)
  obtain s' where s': "sys_next E path policy ev ?s = Some s'" "g' = g\<lparr>gt_sys := s'\<rparr>"
    using nxt quiet by (auto split: option.splits)
  have wf: "db_wf ?h (sys_db ?s)" using inv by (simp add: gate_inv_def)
  note live = ungated_live [OF quiet s'(1) wf adm]
  let ?base = "settled_sys ?h g"
  have adm0: "admissible later ev ?base" using adm quiet by (cases ev) (auto split: sum.splits)
  obtain s1 where s1: "sys_next E path policy ev ?base = Some s1" "sys_phase s1 = sys_phase s'"
      "sys_writer s1 = sys_writer (settled_sys ?h g')"
      "gt_gate g = Starting \<longrightarrow> sys_phase s' = Scheduled \<and> w_buffer (sys_writer s') = w_buffer (sys_writer ?s)"
  proof (cases "gt_gate g = Starting")
    case True
    then have "si_rewrite_in_progress (w_stats (sys_writer ?s))" "sys_phase ?s = Scheduled"
      using inv by (auto simp: gate_inv_def sys_inv_def writer_inv_def)
    from ungated_starting [OF quiet s'(1) this(2,1)] True that show ?thesis
      by (simp add: settled_sys_def s'(2))
  next
    case False
    obtain db' where "sys_next E path policy ev ?base = Some (s'\<lparr>sys_db := db'\<rparr>)"
      using ungated_other_db [OF quiet s'(1), of "settled_db ?h g"] False by (auto simp: settled_sys_eq)
    then show ?thesis using that False by (simp add: settled_sys_def s'(2))
  qed
  have inv0: "sys_inv ?h ?t later ?base" using inv by (simp add: gate_inv_def)
  have "length (w_file (sys_writer s1)) < 2 ^ 64" using len by (simp add: s1(3))
  then have inv1: "sys_inv ?h ?t later s1"
    using sys_next_inv [OF inv0 refl t adm0 s1(1) _ ord later] by simp
  have live1: "db_live ?h ?t (sys_db s1) = db_live ?h ?t (settled_db ?h g)"
    using ungated_live(2) [OF quiet s1(1) _ adm0] inv0 by (simp add: sys_inv_def db_inv_def)
  have settled: "db_wf ?h (settled_db ?h g') \<and> db_live ?h ?t (settled_db ?h g') = db_live ?h ?t (settled_db ?h g)"
  proof (cases "gt_gate g")
    case (Applied r frame rb)
    then have "distinct (map fst rb)" using inv by (simp add: gate_inv_def)
    then show ?thesis
      using Applied live_restore_cong [OF wf live(1) _ live(2)] restore_entries_view [OF live(1)] by (simp add: s'(2))
  next
    case (Undoing e rb)
    then have "distinct (map fst rb)" using inv by (simp add: gate_inv_def)
    then show ?thesis
      using Undoing live_restore_cong [OF wf live(1) _ live(2)] restore_entries_view [OF live(1)] by (simp add: s'(2))
  qed (use live in \<open>simp_all add: s'(2)\<close>)
  have "settled_sys ?h g' = s1\<lparr>sys_db := settled_db ?h g'\<rparr>" using s1(2,3) by (simp add: settled_sys_def s'(2))
  then have sys: "sys_inv ?h ?t later (settled_sys ?h g')"
    using sys_inv_cong [OF inv1, of "settled_db ?h g'"] settled live1 by simp
  show ?thesis
  proof (cases "gt_gate g")
    case (Prepared cmd frame rb)
    then have "distinct (map fst rb)"
        "db_live ?h ?t (restore_entries ?h rb (sys_db ?s)) = db_live ?h ?t (sys_db ?s)"
      using inv by (simp_all add: gate_inv_def)
    then show ?thesis
      using Prepared inv sys live live_restore_cong [OF wf live(1) _ live(2)] by (simp add: gate_inv_def s'(2))
  next
    case (Applied r frame rb)
    have "db_inv ?h ?t later (sys_db s')" using Applied inv live db_inv_same by (auto simp: gate_inv_def)
    then show ?thesis using Applied inv sys live settled by (simp add: gate_inv_def s'(2))
  qed (use inv sys live s1(4) in \<open>simp_all add: gate_inv_def s'(2)\<close>)
qed

text \<open>Taking the gate: the values remembered are those of the database.\<close>

lemma take_inv:
  assumes inv: "gate_inv (xxh E) t later g" and nxt: "gate_next E path policy (TakeGate parsed built t f) g = Some g'"
    and adm: "gate_admissible later (TakeGate parsed built t f) g"
  shows "gate_inv (xxh E) t later g'"
proof -
  obtain cmd frame where c: "gt_gate g = Free" "from_frame parsed f = Inr cmd" "aof_frame built cmd = Some frame"
      "g' = g\<lparr>gt_gate := Prepared cmd frame (snapshot_entries (xxh E) (mutated_keys cmd) (sys_db (gt_sys g)))\<rparr>"
    using nxt by (auto split: gate.splits sum.splits option.splits)
  have f: "wire_request parsed f" "log_fits built cmd" using adm c by simp_all
  have "write_ok cmd frame"
    using from_frame_wf [OF c(2)] from_frame_append_fits [OF c(2)] wire_requestD [OF f(1) c(2)] log_fits_wire [OF f(1) c(2) f(2) c(3)] c(3)
      aof_frame_is_write [of built cmd] by (auto simp: write_ok_def wire_frame_def)
  moreover have wf: "db_wf (xxh E) (sys_db (gt_sys g))" using inv by (simp add: gate_inv_def)
  moreover have "fst ` set (snapshot_entries (xxh E) (mutated_keys cmd) (sys_db (gt_sys g))) = set (mutated_keys cmd)"
    using snapshot_keys [of "xxh E" "mutated_keys cmd" "sys_db (gt_sys g)"] by (metis list.set_map remdups_adj_set set_sort)
  moreover have "db_live (xxh E) t (restore_entries (xxh E) (snapshot_entries (xxh E) (mutated_keys cmd) (sys_db (gt_sys g)))
      (sys_db (gt_sys g))) = db_live (xxh E) t (sys_db (gt_sys g))"
    using rollback_restores(2) [OF wf keeps_refl [OF wf]] by (rule db_live_of_at)
  ultimately show ?thesis
    using inv c(1,4) distinct_snapshot_keys by (simp add: gate_inv_def settled_sys_def)
qed

text \<open>Executing: what was remembered still gives back the key space before.\<close>

lemma apply_inv:
  assumes inv: "gate_inv (xxh E) t later g" and t: "t \<le> later" "unat later + unat MAX_EXPIRE_AT_MS < 2 ^ 128"
    and nxt: "gate_next E path policy (ApplyWrite t) g = Some g'" and adm: "gate_admissible later (ApplyWrite t) g"
  shows "gate_inv (xxh E) t later g'"
proof -
  let ?h = "xxh E" and ?db = "sys_db (gt_sys g)"
  obtain cmd frame rb where p: "gt_gate g = Prepared cmd frame rb" using nxt by (auto split: gate.splits)
  then have w: "command_wf cmd" "append_fits cmd" "is_write cmd" "wire_frame frame" "settled t later cmd"
      and rb: "distinct (map fst rb)" "fst ` set rb = set (mutated_keys cmd)" "db_live ?h t (restore_entries ?h rb ?db) = db_live ?h t ?db"
      and sys: "sys_inv ?h t later ((gt_sys g)\<lparr>sys_db := ?db\<rparr>)" and wf: "db_wf ?h ?db"
    using inv adm by (simp_all add: gate_inv_def write_ok_def settled_sys_def)
  obtain built where built: "aof_frame built cmd = Some frame" using inv p by (auto simp: gate_inv_def write_ok_def)
  obtain r db' where a: "apply_cmd E (\<lambda>_. t) cmd ?db = (r, db')" by force
  have keeps: "keeps ?h (mutated_keys cmd) ?db db'" using apply_keeps [OF wf, of cmd "\<lambda>_. t"] a by simp
  then have wf': "db_wf ?h db'" by (simp add: keeps_def)
  show ?thesis
  proof (cases "\<exists>m. r = Error m")
    case True
    then obtain m where m: "r = Error m" by blast
    then have g': "g' = g\<lparr>gt_sys := (gt_sys g)\<lparr>sys_db := db'\<rparr>, gt_gate := Free\<rparr>" using nxt p a by simp
    have "db_live ?h t db' = db_live ?h t ?db" using error_keeps_live [OF wf w(2), of t m] a m by simp
    then show ?thesis using sys_inv_cong [OF sys wf'] wf' by (simp add: gate_inv_def g' settled_sys_def)
  next
    case False
    then have g': "g' = g\<lparr>gt_sys := (gt_sys g)\<lparr>sys_db := db'\<rparr>, gt_gate := Applied r frame rb\<rparr>"
      using nxt p a by (cases r) auto
    have restored: "db_live ?h t (restore_entries ?h rb db') = db_live ?h t ?db"
    proof
      fix k
      have "db_live ?h t db' k = db_live ?h t ?db k" if "map_of rb k = None"
        using that keeps rb(2) by (simp add: keeps_def map_of_eq_None_iff db_live_def)
      then have "db_live ?h t (restore_entries ?h rb db') k = db_live ?h t (restore_entries ?h rb ?db) k"
        by (simp add: live_restore [OF wf' rb(1)] live_restore [OF wf rb(1)] split: option.splits)
      then show "db_live ?h t (restore_entries ?h rb db') k = db_live ?h t ?db k" by (simp add: rb(3))
    qed
    have "db_inv ?h t later ?db" using sys by (simp add: sys_inv_def)
    note l = logged_leads [OF this t w(5,1,3) built w(4) _ a]
    have "db_wf ?h (restore_entries ?h rb db')" using restore_entries_view [OF wf' rb(1)] by simp
    then have "sys_inv ?h t later ((gt_sys g)\<lparr>sys_db := restore_entries ?h rb db'\<rparr>)"
      using sys_inv_cong [OF sys] restored by simp
    then show ?thesis
      using rb(1) l False restored wf' by (simp add: gate_inv_def g' settled_sys_def)
  qed
qed

text \<open>The answer of the log.\<close>

lemma log_write_inv:
  assumes inv: "gate_inv (xxh E) t later g" and nxt: "gate_next E path policy (LogWrite t io) g = Some g'"
    and len: "length (w_file (sys_writer (gt_sys g'))) < 2 ^ 64"
  shows "gate_inv (xxh E) t later g'"
proof -
  let ?h = "xxh E" and ?s = "gt_sys g"
  obtain r frame rb where p: "gt_gate g = Applied r frame rb" using nxt by (auto split: gate.splits)
  let ?m = "db_live ?h t (restore_entries ?h rb (sys_db ?s))"
  have i: "writer_inv (sys_phase ?s) (sys_writer ?s)" "log_inv t later (sys_writer ?s) ?m"
      "rewrite_inv t later (sys_phase ?s) (sys_writer ?s) ?m" "distinct (map fst rb)" "db_wf ?h (sys_db ?s)"
      "db_inv ?h t later (sys_db ?s)" "leads_in t later [frame] ?m (db_live ?h t (sys_db ?s))"
      "db_inv ?h t later (restore_entries ?h rb (sys_db ?s))"
    using inv p by (simp_all add: gate_inv_def sys_inv_def settled_sys_def)
  obtain a w where w: "handle_write policy io frame (sys_writer ?s) = (a, w)" by force
  show ?thesis
  proof (cases a)
    case (Inl e)
    then have "g' = g\<lparr>gt_sys := ?s\<lparr>sys_writer := w\<rparr>, gt_gate := Undoing e rb\<rparr>" using nxt p w by simp
    moreover have "writer_inv (sys_phase ?s) w \<and> log_inv t later w ?m \<and> rewrite_inv t later (sys_phase ?s) w ?m"
      using w i(1-3) unfolding Inl by (rule writer_nack_inv)
    ultimately show ?thesis using i by (simp add: gate_inv_def sys_inv_def settled_sys_def)
  next
    case (Inr u)
    then have g': "g' = g\<lparr>gt_sys := ?s\<lparr>sys_writer := w\<rparr>, gt_gate := Free\<rparr>" using nxt p w by simp
    have "writer_inv (sys_phase ?s) w \<and> log_inv t later w (db_live ?h t (sys_db ?s)) \<and>
        rewrite_inv t later (sys_phase ?s) w (db_live ?h t (sys_db ?s))"
      using w i(1-3,6,7) len unfolding Inr g' by (intro writer_ack_inv) (simp_all add: db_inv_def usable_def)
    then show ?thesis using i by (simp add: gate_inv_def sys_inv_def settled_sys_def g')
  qed
qed

lemma undo_inv:
  assumes "gate_inv (xxh E) t later g" "gate_next E path policy (UndoWrite t) g = Some g'"
  shows "gate_inv (xxh E) t later g'"
proof -
  obtain e rb where p: "gt_gate g = Undoing e rb" using assms(2) by (auto split: gate.splits)
  then show ?thesis
    using assms settled_db_wf [OF assms(1)] by (auto simp: gate_inv_def settled_sys_def)
qed

text \<open>A rewrite starts buffering and takes its snapshot while it holds the gate.\<close>

lemma start_inv:
  assumes "gate_inv (xxh E) t later g" "gate_next E path policy (StartRewrite t) g = Some g'"
  shows "gate_inv (xxh E) t later g'"
proof -
  have p: "gt_gate g = Free" "sys_phase (gt_sys g) = Scheduled"
    using assms(2) by (auto split: gate.splits rewrite_phase.splits)
  then have "w_buffer (sys_writer (gt_sys g)) = None"
    using assms(1) not_rewriting by (auto simp: gate_inv_def sys_inv_def settled_sys_def)
  moreover from this have "g' = g\<lparr>gt_sys := (gt_sys g)\<lparr>
      sys_writer := (sys_writer (gt_sys g))\<lparr>w_buffer := Some rewrite_buffer_new\<rparr>\<rparr>, gt_gate := Starting\<rparr>"
    using assms(2) p by simp
  moreover have "sys_inv (xxh E) t later ((gt_sys g)\<lparr>sys_writer := (sys_writer (gt_sys g))\<lparr>w_buffer := None\<rparr>\<rparr>)"
  proof -
    have eq: "(sys_writer (gt_sys g))\<lparr>w_buffer := None\<rparr> = sys_writer (gt_sys g)"
      using calculation(1) by (cases "sys_writer (gt_sys g)") simp
    show ?thesis unfolding eq using assms(1) p by (simp add: gate_inv_def settled_sys_def)
  qed
  ultimately show ?thesis using assms(1) p by (simp add: gate_inv_def settled_sys_def)
qed

lemma entries_inv:
  assumes inv: "gate_inv (xxh E) t later g" and nxt: "gate_next E path policy (TakeEntries t) g = Some g'"
    and adm: "gate_admissible later (TakeEntries t) g"
  shows "gate_inv (xxh E) t later g'"
proof -
  let ?base = "settled_sys (xxh E) g"
  have p: "gt_gate g = Starting" using nxt by (auto split: gate.splits)
  then have i: "sys_inv (xxh E) t later ?base" "sys_phase (gt_sys g) = Scheduled"
      "w_buffer (sys_writer (gt_sys g)) = Some rewrite_buffer_new" "db_wf (xxh E) (sys_db (gt_sys g))"
    using inv by (simp_all add: gate_inv_def)
  have g': "g' = g\<lparr>gt_sys := (gt_sys g)\<lparr>sys_phase := Snapshotted (aof_snapshot_entries t (sys_db (gt_sys g)))\<rparr>, gt_gate := Free\<rparr>"
    using nxt p by simp
  have "sys_next E path policy (TakeSnapshot t) ?base = Some (gt_sys g')"
    using p i(2,3) by (simp add: settled_sys_def g')
  moreover have "admissible later (TakeSnapshot t) ?base" using adm p by simp
  ultimately have "sys_inv (xxh E) t later (gt_sys g')" using snapshot_inv [OF i(1)] by blast
  then show ?thesis using i(4) by (simp add: gate_inv_def settled_sys_def g')
qed

section \<open>Reachable states\<close>

lemma gate_next_inv:
  assumes "gate_inv (xxh E) t later g" "t = gate_time ev" "t \<le> later" "gate_admissible later ev g"
    "gate_next E path policy ev g = Some g'" "length (w_file (sys_writer (gt_sys g'))) < 2 ^ 64"
    "iterates E" "unat later + unat MAX_EXPIRE_AT_MS < 2 ^ 128"
  shows "gate_inv (xxh E) t later g'"
proof (cases ev)
  case (Ungated ev')
  then show ?thesis
    using assms ungated_inv [of E ev' later g path policy g'] by (simp add: iterates_def)
next
  case (TakeGate parsed built t' f)
  then show ?thesis using assms take_inv [of E t later g path policy parsed built f g'] by simp
next
  case (ApplyWrite t')
  then show ?thesis using assms apply_inv [of E t later g path policy g'] by simp
next
  case (LogWrite t' io)
  then show ?thesis using assms log_write_inv [of E t later g path policy io g'] by simp
next
  case (UndoWrite t')
  then show ?thesis using assms undo_inv [of E t later g path policy g'] by simp
next
  case (StartRewrite t')
  then show ?thesis using assms start_inv [of E t later g path policy g'] by simp
next
  case (TakeEntries t')
  then show ?thesis using assms entries_inv [of E t later g path policy g'] by simp
qed

lemma gate_inv_boot:
  "sys_inv h t later \<lparr>sys_db = db, sys_writer = w, sys_phase = Idle\<rparr> \<Longrightarrow>
   gate_inv h t later \<lparr>gt_sys = \<lparr>sys_db = db, sys_writer = w, sys_phase = Idle\<rparr>, gt_gate = Free\<rparr>"
  by (simp add: gate_inv_def settled_sys_def sys_inv_def db_inv_def)

lemma gate_reachable_inv:
  assumes "gate_reachable path policy later E t g" "unat later + unat MAX_EXPIRE_AT_MS < 2 ^ 128"
  shows "gate_inv (xxh E) t later g \<and> t \<le> later \<and> iterates E \<and> length (w_file (sys_writer (gt_sys g))) < 2 ^ 64"
  using assms(1)
proof (induction rule: gate_reachable.induct)
  case (first E c db w)
  have "reachable path policy later E 0 \<lparr>sys_db = db, sys_writer = w, sys_phase = Idle\<rparr>"
    using first by (rule reachable.first)
  from reachable_inv [OF this assms(2)] gate_inv_boot show ?case by auto
next
  case (step E t g ev g')
  then have "gate_inv (xxh E) (gate_time ev) later g" "iterates E" using gate_inv_passes by blast+
  from gate_next_inv [OF this(1) refl step.hyps(3,4,5,6) this(2) assms(2)] this(2) step.hyps(3,6) show ?case by simp
next
  case (restart E t g E' now f torn lost k chunks db w)
  let ?w = "sys_writer (gt_sys g)"
  have "log_since t later (w_synced ?w) (w_file ?w) (db_live (xxh E) t (settled_db (xxh E) g))"
    using restart.IH restart.hyps(2) log_invD [of t later "sys_writer (settled_sys (xxh E) g)"]
    by (simp add: gate_inv_def sys_inv_def)
  from crash_inv [OF restart.hyps(11) this restart.hyps(4-10)] gate_inv_boot restart.IH restart.hyps(3,5)
  show ?case by simp
qed

lemma gate_next_synced:
  assumes "synced_inv policy (sys_writer (gt_sys g))" "gate_next E path policy ev g = Some g'"
  shows "synced_inv policy (sys_writer (gt_sys g'))"
proof (cases ev)
  case (Ungated ev')
  then show ?thesis using assms sys_next_synced by (auto split: if_splits option.splits)
next
  case (LogWrite t io)
  then obtain r frame rb where p: "gt_gate g = Applied r frame rb" using assms(2) by (auto split: gate.splits)
  obtain a w where w: "handle_write policy io frame (sys_writer (gt_sys g)) = (a, w)" by force
  have "synced_inv policy w" using assms(1) w by (rule synced_inv_write)
  then show ?thesis using assms(2) p w LogWrite by (auto split: sum.splits)
qed (use assms in \<open>auto simp: synced_inv_def finish_rewrite_stats_def
      split: gate.splits sum.splits option.splits rewrite_phase.splits prod.splits frame.splits if_splits\<close>)

lemma gate_reachable_synced:
  assumes "gate_reachable path policy later E t g" shows "synced_inv policy (sys_writer (gt_sys g))"
  using assms
proof (induction rule: gate_reachable.induct)
  case (first E c db w)
  then show ?case by (auto simp: boot_def synced_inv_spawn split: prod.splits)
next
  case (step E t g ev g')
  then show ?case using gate_next_synced by blast
next
  case (restart E t g E' now f torn lost k chunks db w)
  then show ?case by (auto simp: boot_def synced_inv_spawn split: prod.splits)
qed

end
