(* ===== verification/SnapshotFrames.thy ===== *)
theory SnapshotFrames
  imports Rewrite
begin

text \<open>
  \<open>Db::aof_snapshot_frames\<close> of \<^verbatim>\<open>src/src/db/mod.rs\<close>: one command per entry, or two when there is a
  deadline, without regard to the size of a frame. It is the plain form of what the rewrite of
  \<^verbatim>\<open>aof.rs\<close> writes in pieces, and its reference here. It has its own copies of the helpers of
  \<^verbatim>\<open>cmd/mod.rs\<close>, which are shown to agree with them.
\<close>

section \<open>The helpers\<close>

definition db_bulk_string :: "u128 \<Rightarrow> frame" where "db_bulk_string n = Bulk (show_u128 n)"

definition db_relative_millis_for_aof :: "u128 \<Rightarrow> u128 \<Rightarrow> u128" where
  "db_relative_millis_for_aof now deadline =
     max 1 (min MAX_EXPIRE_AT_MS (saturating_sub_u128 deadline now))"

definition db_push_set_expiry :: "u128 \<Rightarrow> u128 \<Rightarrow> frame list" where
  "db_push_set_expiry now deadline =
     (if deadline \<le> MAX_EXPIRE_AT_MS then [Bulk ''PXAT'', db_bulk_string deadline]
      else [Bulk ''PX'', db_bulk_string (db_relative_millis_for_aof now deadline)])"

definition db_pexpireat_frame :: "bytes \<Rightarrow> u128 \<Rightarrow> frame" where
  "db_pexpireat_frame key deadline = Array [Bulk ''PEXPIREAT'', Bulk key, db_bulk_string deadline]"

lemma db_helpers:
  "db_push_set_expiry = push_set_expiry" "db_pexpireat_frame = pexpireat_frame"
proof -
  have "db_relative_millis_for_aof = relative_millis_for_aof"
    by (simp add: fun_eq_iff db_relative_millis_for_aof_def relative_millis_for_aof_def Let_def)
  then show "db_push_set_expiry = push_set_expiry"
    by (simp add: fun_eq_iff db_push_set_expiry_def push_set_expiry_def db_bulk_string_def bulk_string_u128_def)
  show "db_pexpireat_frame = pexpireat_frame"
    by (simp add: fun_eq_iff db_pexpireat_frame_def pexpireat_frame_def db_bulk_string_def bulk_string_u128_def)
qed

section \<open>The frames of a snapshot\<close>

definition deadline_frames :: "bytes \<Rightarrow> u128 option \<Rightarrow> frame list" where
  "deadline_frames key exp = (case exp of Some deadline \<Rightarrow> [db_pexpireat_frame key deadline] | None \<Rightarrow> [])"

definition snapshot_entry_frames :: "hash_order \<Rightarrow> u128 \<Rightarrow> bytes \<Rightarrow> entry \<Rightarrow> frame list" where
  "snapshot_entry_frames ord now key e = (case evalue e of
      VString val \<Rightarrow>
        [Array ([Bulk ''SET'', Bulk key, Bulk val]
           @ (case expires_at e of Some deadline \<Rightarrow> db_push_set_expiry now deadline | None \<Rightarrow> []))]
    | VList vals \<Rightarrow>
        if vals \<noteq> [] then Array (Bulk ''RPUSH'' # Bulk key # map Bulk vals) # deadline_frames key (expires_at e)
        else []
    | VHash hm \<Rightarrow>
        if hm \<noteq> []
        then Array (Bulk ''HSET'' # Bulk key # pair_frames (sort_key fst (ord hm))) # deadline_frames key (expires_at e)
        else [])"

text \<open>The same with the helpers of the commands.\<close>

lemmas deadline_frames_eq = deadline_frames_def [unfolded db_helpers]
lemmas snapshot_entry_frames_eq = snapshot_entry_frames_def [unfolded db_helpers]

text \<open>The loop over the entries; \<open>c\<close> is what the clock reads for each of them.\<close>

fun snapshot_frames_loop :: "hash_order \<Rightarrow> clock \<Rightarrow> nat \<Rightarrow> (bytes \<times> entry) list \<Rightarrow> frame list" where
  "snapshot_frames_loop ord c i [] = []"
| "snapshot_frames_loop ord c i ((key, e) # es) =
     snapshot_entry_frames ord (c i) key e @ snapshot_frames_loop ord c (Suc i) es"

definition aof_snapshot_frames :: "hash_order \<Rightarrow> u128 \<Rightarrow> clock \<Rightarrow> 'tx db \<Rightarrow> frame list" where
  "aof_snapshot_frames ord now c db = snapshot_frames_loop ord c 0 (aof_snapshot_entries now db)"

section \<open>The rewrite writes the same frames where they fit\<close>

lemma hash_loop_one_frame:
  assumes "command_size ''HSET'' key (flat_pairs (current @ ps)) \<le> MAX_AOF_BUFFERED_FRAME_BYTES" "current @ ps \<noteq> []"
  shows "hash_loop key current (payload (flat_pairs current)) ps =
    Inr [Array (Bulk ''HSET'' # Bulk key # pair_frames (current @ ps))]"
  using assms
proof (induction ps arbitrary: current)
  case Nil
  then show ?case
    using replay_len_command [of "''HSET''" key "flat_pairs current"]
    by (simp add: write_hset_snapshot_def write_frame_eq pair_frames_flat)
next
  case (Cons p ps)
  obtain f v where p: "p = (f, v)" by (cases p)
  have fits: "command_size ''HSET'' key (flat_pairs (current @ [(f, v)])) \<le> MAX_AOF_BUFFERED_FRAME_BYTES"
    using command_size_mono [of "''HSET''" key "flat_pairs (current @ [(f, v)])" "flat_pairs ps"] Cons.prems(1)
    by (simp add: p flat_pairs_append)
  then have "command_size ''HSET'' key (flat_pairs (current @ [(f, v)])) < usize_limit"
    by (simp add: MAX_AOF_BUFFERED_FRAME_BYTES_def usize_limit_def)
  from hash_loop_step [OF this, of ps] fits Cons.IH [of "current @ [(f, v)]"] Cons.prems(1) show ?case
    by (simp add: p)
qed

text \<open>An entry whose frames are within the replay limit and whose deadline the log carries exactly.\<close>

definition plain_entry :: "hash_order \<Rightarrow> bytes \<Rightarrow> entry \<Rightarrow> bool" where
  "plain_entry ord key e \<longleftrightarrow>
     (case expires_at e of Some d \<Rightarrow> d \<le> MAX_EXPIRE_AT_MS | None \<Rightarrow> True) \<and>
     list_all (\<lambda>f. length (encode f) \<le> MAX_AOF_BUFFERED_FRAME_BYTES) (snapshot_entry_frames ord 0 key e)"

lemma plain_time:
  assumes "plain_entry ord key e"
  shows "snapshot_entry_frames ord now key e = snapshot_entry_frames ord 0 key e"
  using assms
  by (auto simp: plain_entry_def snapshot_entry_frames_eq push_set_expiry_def split: rvalue.splits option.splits)

lemma written_deadline:
  assumes "case exp of Some d \<Rightarrow> d \<le> MAX_EXPIRE_AT_MS | None \<Rightarrow> True" "list_all replay_len (deadline_frames key exp)"
  shows "write_expiry_snapshot now key exp = Inr (deadline_frames key exp)"
  using assms by (auto simp: write_expiry_snapshot_def deadline_frames_eq expiry_frame_eq write_frame_eq split: option.splits)

lemma write_entry_plain:
  assumes "plain_entry ord key e" "\<not> entry_expired (c 0) e" "\<forall>hm. mset (ord hm) = mset hm"
  shows "write_snapshot_entry ord c key e = Inr (snapshot_entry_frames ord 0 key e)"
proof -
  have d: "case expires_at e of Some d \<Rightarrow> d \<le> MAX_EXPIRE_AT_MS | None \<Rightarrow> True"
      and fits: "list_all replay_len (snapshot_entry_frames ord 0 key e)"
    using assms(1) by (simp_all add: plain_entry_def replay_len_def [abs_def])
  show ?thesis
  proof (cases "evalue e")
    case (VString val)
    then have f: "snapshot_entry_frames ord 0 key e = [set_frame (c 1) key val (expires_at e)]"
      using plain_time [OF assms(1), of "c 1"] by (simp add: snapshot_entry_frames_eq set_frame_eq)
    then show ?thesis
      using fits VString assms(2)
      by (simp add: write_snapshot_entry_def write_string_snapshot_def frame_is_replayable_eq write_frame_eq)
  next
    case (VList vals)
    show ?thesis
    proof (cases "vals = []")
      case False
      then have f: "snapshot_entry_frames ord 0 key e =
          Array (map Bulk (''RPUSH'' # key # vals)) # deadline_frames key (expires_at e)"
        using VList by (simp add: snapshot_entry_frames_eq)
      then have "list_loop key [] 0 vals = Inr [Array (map Bulk (''RPUSH'' # key # vals))]"
        using list_loop_one_frame [of key "[]" vals] fits False
        by (simp only: replay_len_command list.pred_inject) (simp add: command_with_values_def)
      then show ?thesis
        using VList False assms(2) written_deadline [OF d, of key "c 1"] fits
        by (simp add: f write_snapshot_entry_def write_list_snapshot_def then_write_Inr)
    qed (use VList assms(2) in \<open>simp add: snapshot_entry_frames_eq write_snapshot_entry_def\<close>)
  next
    case (VHash hm)
    show ?thesis
    proof (cases "hm = []")
      case False
      let ?ps = "sort_key fst (ord hm)"
      have "mset ?ps = mset hm" using assms(3) by simp
      then have ne: "?ps \<noteq> []" using False by (metis mset_zero_iff)
      have f: "snapshot_entry_frames ord 0 key e =
          Array (map Bulk (''HSET'' # key # flat_pairs ?ps)) # deadline_frames key (expires_at e)"
        using VHash False by (simp add: snapshot_entry_frames_eq pair_frames_flat)
      then have "hash_loop key [] 0 ?ps = Inr [Array (map Bulk (''HSET'' # key # flat_pairs ?ps))]"
        using hash_loop_one_frame [of key "[]" ?ps] fits ne
        by (simp only: replay_len_command list.pred_inject) (simp add: pair_frames_flat)
      then show ?thesis
        using VHash False assms(2) written_deadline [OF d, of key "c 1"] fits
        by (simp add: f write_snapshot_entry_def write_hash_snapshot_def then_write_Inr)
    qed (use VHash assms(2) in \<open>simp add: snapshot_entry_frames_eq write_snapshot_entry_def\<close>)
  qed
qed

lemma write_entries_plain:
  assumes "\<forall>(key, e) \<in> set es. plain_entry ord key e" "\<forall>j. \<forall>e \<in> snd ` set es. \<not> entry_expired (c j 0) e"
    "\<forall>hm. mset (ord hm) = mset hm"
  shows "write_snapshot_entries ord c i es = Inr (snapshot_frames_loop ord c' k es)"
  using assms(1,2)
proof (induction es arbitrary: i k)
  case (Cons p es)
  obtain key e where p: "p = (key, e)" by (cases p)
  have e: "plain_entry ord key e" "\<not> entry_expired (c i 0) e" using Cons.prems by (auto simp: p)
  have "write_snapshot_entries ord c (Suc i) es = Inr (snapshot_frames_loop ord c' (Suc k) es)"
    using Cons.IH [of "Suc i" "Suc k"] Cons.prems by simp
  then show ?case
    using write_entry_plain [of ord key e "c i", OF e assms(3)] plain_time [OF e(1), of "c' k"] by (simp add: p then_write_Inr)
qed simp

end
