(* ===== verification/Startup.thy ===== *)
theory Startup
  imports Writer Rereading
begin

text \<open>
  The start of the server on its log, with every answer of the file system: \<open>replay\<close>, \<open>truncate_aof\<close> and
  \<open>spawn_writer\<close> of \<^verbatim>\<open>src/src/aof.rs\<close>, as \<^verbatim>\<open>src/src/main.rs\<close> calls them. The theories
  before this one assume that reading and cutting the log succeed; here is shown what a failure does.
\<close>

section \<open>Reading the log\<close>

text \<open>The answers of the file system: an error where there is one, and whether \<open>metadata\<close> gave the length.\<close>

record start_io =
  st_open :: "bytes option"
  st_metadata :: bool
  st_truncate_open :: "bytes option"
  st_set_len :: "bytes option"
  st_sync :: "bytes option"
  st_append_open :: "bytes option"
  st_append_metadata :: bool

definition healthy :: start_io where
  "healthy = \<lparr>st_open = None, st_metadata = True, st_truncate_open = None, st_set_len = None, st_sync = None,
     st_append_open = None, st_append_metadata = True\<rparr>"

text \<open>
  The loop of \<open>replay\<close> over the reads, of which one may fail; the end of the list is the end of the file. The
  result has the error that ends the function, if any.
\<close>

fun replay_reads ::
  "('tx, 'rx) env \<Rightarrow> (nat \<Rightarrow> clock) \<Rightarrow> (bytes, bytes) result list \<Rightarrow> nat \<Rightarrow> 'tx replay_state \<Rightarrow>
   bytes option \<times> 'tx replay_state" where
  "replay_reads E c [] total_read rs = (None, replay_loop E c [] total_read rs)"
| "replay_reads E c (Inl e # reads) total_read rs =
     (let rs = drain E c total_read rs in
      if rs_truncate_to rs \<noteq> None then (None, rs) else (Some e, rs))"
| "replay_reads E c (Inr chunk # reads) total_read rs =
     (let rs = drain E c total_read rs in
      if rs_truncate_to rs \<noteq> None then (None, rs)
      else replay_reads E c reads (total_read + length chunk) (rs\<lparr>rs_buf := rs_buf rs @ chunk\<rparr>))"

text \<open>\<open>truncate_aof\<close> opens the file, sets its length and syncs it.\<close>

definition truncate_file :: "start_io \<Rightarrow> nat \<Rightarrow> bytes \<Rightarrow> (bytes, unit) result \<times> bytes" where
  "truncate_file io len file = (case st_truncate_open io of
      Some e \<Rightarrow> (Inl e, file)
    | None \<Rightarrow> (case st_set_len io of
        Some e \<Rightarrow> (Inl e, file)
      | None \<Rightarrow> (done_or (st_sync io), set_len len file)))"

text \<open>
  \<open>replay\<close> on a path, where there may be no file: the number of commands applied or the error, the database, and the
  file afterwards.
\<close>

definition replay_file ::
  "('tx, 'rx) env \<Rightarrow> (nat \<Rightarrow> clock) \<Rightarrow> start_io \<Rightarrow> (bytes, bytes) result list \<Rightarrow> bytes option \<Rightarrow> 'tx db \<Rightarrow>
   (bytes, nat) result \<times> 'tx db \<times> bytes option" where
  "replay_file E c io reads file db = (case file of
      None \<Rightarrow> (Inr 0, db, None)
    | Some content \<Rightarrow>
        (case st_open io of
           Some e \<Rightarrow> (Inl e, db, Some content)
         | None \<Rightarrow>
             let original_len = (if st_metadata io then length content else 0) in
             (case replay_reads E c reads 0
                  \<lparr>rs_buf = [], rs_db = db, rs_applied = 0, rs_valid_len = 0, rs_truncate_to = None\<rparr> of
                (Some e, rs) \<Rightarrow> (Inl e, rs_db rs, Some content)
              | (None, rs) \<Rightarrow>
                  (case rs_truncate_to rs of
                     Some len \<Rightarrow>
                       if len < original_len
                       then (case truncate_file io len content of
                               (Inl e, file) \<Rightarrow> (Inl e, rs_db rs, Some file)
                             | (Inr _, file) \<Rightarrow> (Inr (rs_applied rs), rs_db rs, Some file))
                       else (Inr (rs_applied rs), rs_db rs, Some content)
                   | None \<Rightarrow> (Inr (rs_applied rs), rs_db rs, Some content)))))"

text \<open>\<open>spawn_writer\<close> opens the file for appending, creating it, and asks for its length.\<close>

definition spawn_writer_on :: "start_io \<Rightarrow> bytes option \<Rightarrow> (bytes, aof_writer) result" where
  "spawn_writer_on io file = (case st_append_open io of
      Some e \<Rightarrow> Inl e
    | None \<Rightarrow>
        let content = (case file of Some content \<Rightarrow> content | None \<Rightarrow> []); w = spawn_writer content in
        Inr (if st_append_metadata io then w else w\<lparr>w_stats := (w_stats w)\<lparr>si_current_size := 0\<rparr>\<rparr>))"

text \<open>
  The part of \<open>main\<close> between the arguments and the sockets, with the path of the log if one was given; an error
  ends the process.
\<close>

definition start_up ::
  "('tx, 'rx) env \<Rightarrow> (nat \<Rightarrow> clock) \<Rightarrow> start_io \<Rightarrow> (bytes, bytes) result list \<Rightarrow> bytes option option \<Rightarrow>
   (bytes, 'tx db \<times> aof_writer option) result" where
  "start_up E c io reads aof = (case aof of
      None \<Rightarrow> Inr (new_db, None)
    | Some file \<Rightarrow>
        (case replay_file E c io reads file new_db of
           (Inl e, _, _) \<Rightarrow> Inl e
         | (Inr applied, db, file) \<Rightarrow> map_result (\<lambda>w. (db, Some w)) (spawn_writer_on io file)))"

section \<open>What failures do\<close>

lemma replay_reads_Inr: "replay_reads E c (map Inr chunks) t rs = (None, replay_loop E c chunks t rs)"
  by (induction chunks arbitrary: t rs) (simp_all add: replay_loop.simps(2) Let_def)

lemma replay_reads_stops:
  "replay_reads E c (map Inr chunks @ Inl e # reads) t rs = (None, rs') \<Longrightarrow> replay_loop E c (chunks @ x) t rs = rs'"
proof (induction chunks arbitrary: t rs)
  case Nil
  then show ?case by (cases x) (auto simp: replay_loop.simps Let_def split: if_splits)
next
  case (Cons chunk chunks)
  then show ?case by (auto simp: replay_loop.simps(2) Let_def split: if_splits)
qed

text \<open>Reads that deliver the pieces of a file, to the end or up to an error.\<close>

definition reads_of :: "bytes list \<Rightarrow> (bytes, bytes) result list \<Rightarrow> bool" where
  "reads_of chunks reads \<longleftrightarrow> reads = map Inr chunks \<or>
     (\<exists>n e. reads = map Inr (take n chunks) @ [Inl e])"

lemma reads_of_loop:
  assumes "reads_of chunks reads" "replay_reads E c reads t rs = (None, rs')"
  shows "rs' = replay_loop E c chunks t rs"
proof -
  consider "reads = map Inr chunks" | n e where "reads = map Inr (take n chunks) @ [Inl e]"
    using assms(1) unfolding reads_of_def by blast
  then show ?thesis
  proof cases
    case 1
    then show ?thesis using assms(2) by (simp add: replay_reads_Inr)
  next
    case 2
    then show ?thesis using replay_reads_stops [of E c "take n chunks" e "[]" t rs rs' "drop n chunks"] assms(2) by simp
  qed
qed

text \<open>Without failures this is \<open>replay\<close> and \<open>boot\<close> of the other theories.\<close>

lemma set_len_truncate: "len \<le> length file \<Longrightarrow> set_len len file = truncate_aof len file"
  by (simp add: set_len_def truncate_aof_def)

lemma replay_file_healthy:
  "replay_file E c healthy (map Inr chunks) (Some (concat chunks)) db =
     (case replay E c chunks db of (n, db', file) \<Rightarrow> (Inr n, db', Some file))"
  by (simp add: replay_file_def replay_def replay_reads_Inr healthy_def truncate_file_def done_or_def Let_def
      set_len_truncate split: option.split)

text \<open>A failure leaves the file as it was, or cut where a replay without failures cuts it.\<close>

lemma replay_file_fails:
  assumes "replay_file E c io reads (Some (concat chunks)) db = (r, db', file')" "reads_of chunks reads"
    "replay E c chunks db = (n, db1, kept)"
  shows "file' = Some (concat chunks) \<or> file' = Some kept"
    "r = Inr m \<Longrightarrow> m = n \<and> db' = db1 \<and> (st_metadata io \<longrightarrow> file' = Some kept)"
proof -
  let ?rs = "\<lparr>rs_buf = [], rs_db = db, rs_applied = 0, rs_valid_len = 0, rs_truncate_to = None\<rparr>"
  obtain err rs where rs: "replay_reads E c reads 0 ?rs = (err, rs)" by force
  have loop: "err = None \<Longrightarrow> replay_loop E c chunks 0 ?rs = rs"
    using reads_of_loop [OF assms(2), of E c 0 ?rs rs] rs by simp
  have "(file' = Some (concat chunks) \<or> file' = Some kept) \<and>
      (r = Inr m \<longrightarrow> m = n \<and> db' = db1 \<and> (st_metadata io \<longrightarrow> file' = Some kept))"
    using assms(1,3) rs loop
    by (auto simp: replay_file_def replay_def truncate_file_def done_or_def Let_def set_len_truncate
        split: option.splits if_splits)
  then show "file' = Some (concat chunks) \<or> file' = Some kept"
    "r = Inr m \<Longrightarrow> m = n \<and> db' = db1 \<and> (st_metadata io \<longrightarrow> file' = Some kept)" by blast+
qed

end
