(* ===== verification/Compaction.thy ===== *)
theory Compaction
  imports System
begin

text \<open>
  A rewrite as the functions \<open>rewrite_inner\<close> and \<open>AofHandle::rewrite_now\<close> of \<^verbatim>\<open>src/src/aof.rs\<close>,
  run from begin to end with no other task in between. The steps of a rewrite in the theory of the
  server, which other tasks interleave with, are shown to be these functions when nothing does.
\<close>

section \<open>The calls on the handle\<close>

definition start_rewrite_buffering :: "fsync_policy \<Rightarrow> aof_writer \<Rightarrow> (bytes, unit) result \<times> aof_writer" where
  "start_rewrite_buffering policy w = writer_step policy no_failures MStartRewrite w"

definition finish_rewrite :: "fsync_policy \<Rightarrow> io \<Rightarrow> aof_writer \<Rightarrow> (bytes, unit) result \<times> aof_writer" where
  "finish_rewrite policy io w = writer_step policy io MFinishRewrite w"

definition abort_rewrite :: "fsync_policy \<Rightarrow> bytes \<Rightarrow> aof_writer \<Rightarrow> aof_writer" where
  "abort_rewrite policy reason w = snd (writer_step policy no_failures (MAbortRewrite reason) w)"

text \<open>
  The times are those of the snapshot, of each encoded entry (\<open>c\<close>) and of the statistics (\<open>finished\<close>).
  \<open>err\<close> is the answer of the file system to the writing of the temporary file, \<open>io\<close> that to its
  taking the place of the log. The result of removing the temporary file is ignored, as in the
  code; it is taken to be gone.
\<close>

definition rewrite_inner ::
  "('tx, 'rx) env \<Rightarrow> fsync_policy \<Rightarrow> u128 \<Rightarrow> (nat \<Rightarrow> clock) \<Rightarrow> bytes option \<Rightarrow> io \<Rightarrow> u128 \<Rightarrow>
   'tx db \<Rightarrow> aof_writer \<Rightarrow> (bytes, unit) result \<times> aof_writer" where
  "rewrite_inner E policy t c err io finished db w =
     (case start_rewrite_buffering policy w of
        (Inl e, w) \<Rightarrow> (Inl e, w)
      | (Inr _, w) \<Rightarrow>
          let snapshot = aof_snapshot_entries t db in
          (case bind_result (write_snapshot_entries (hash_iter E) c 0 snapshot)
                  (\<lambda>fs. map_result (\<lambda>_. fs) (done_or err)) of
             Inl e \<Rightarrow> (Inl e, (abort_rewrite policy e w)\<lparr>w_temp := None\<rparr>)
           | Inr fs \<Rightarrow>
               (case finish_rewrite policy io (w\<lparr>w_temp := Some (concat (map encode fs))\<rparr>) of
                  (Inl e, w) \<Rightarrow> (Inl e, w\<lparr>w_temp := None\<rparr>)
                | (Inr _, w) \<Rightarrow> (Inr (), w\<lparr>w_stats := finish_rewrite_stats finished True None (w_stats w)\<rparr>))))"

definition rewrite_now ::
  "('tx, 'rx) env \<Rightarrow> fsync_policy \<Rightarrow> u128 \<Rightarrow> (nat \<Rightarrow> clock) \<Rightarrow> bytes option \<Rightarrow> io \<Rightarrow> u128 \<Rightarrow>
   'tx db \<Rightarrow> aof_writer \<Rightarrow> (bytes, unit) result \<times> aof_writer" where
  "rewrite_now E policy t c err io finished db w =
     (case begin_rewrite w of
        (Inl _, w) \<Rightarrow> (Inl ''AOF rewrite already in progress'', w)
      | (Inr _, w) \<Rightarrow>
          (case rewrite_inner E policy t c err io finished db w of
             (Inr _, w) \<Rightarrow> (Inr (), w)
           | (Inl e, w) \<Rightarrow> (Inl e, w\<lparr>w_stats := finish_rewrite_stats finished False (Some e) (w_stats w)\<rparr>)))"

section \<open>The functions are the steps of the server, one after the other\<close>

text \<open>Events that cannot happen are passed over.\<close>

fun offered ::
  "('tx, 'rx) env \<Rightarrow> bytes \<Rightarrow> fsync_policy \<Rightarrow> 'tx sys_event list \<Rightarrow> 'tx system \<Rightarrow> 'tx system" where
  "offered E path policy [] s = s"
| "offered E path policy (ev # evs) s =
     offered E path policy evs (case sys_next E path policy ev s of Some s' \<Rightarrow> s' | None \<Rightarrow> s)"

definition rewrite_events :: "u128 \<Rightarrow> (nat \<Rightarrow> clock) \<Rightarrow> bytes option \<Rightarrow> io \<Rightarrow> u128 \<Rightarrow> 'tx sys_event list" where
  "rewrite_events t c err io finished = [TakeSnapshot t, WriteTemp finished c err, FinishRewrite finished io]"

definition scheduled :: "'tx system \<Rightarrow> 'tx system" where
  "scheduled s = s\<lparr>sys_writer := snd (begin_rewrite (sys_writer s)), sys_phase := Scheduled\<rparr>"

lemma rewrite_now_steps:
  assumes "rewrite_now E policy t c err io finished (sys_db s) (sys_writer s) = (r, w')"
    "\<not> si_rewrite_in_progress (w_stats (sys_writer s))" "w_buffer (sys_writer s) = None"
  shows "offered E path policy (rewrite_events t c err io finished) (scheduled s) = s\<lparr>sys_writer := w', sys_phase := Idle\<rparr>"
  using assms
  by (auto simp: rewrite_now_def rewrite_inner_def rewrite_events_def scheduled_def begin_rewrite_def Let_def
      start_rewrite_buffering_def finish_rewrite_def abort_rewrite_def done_or_def rewrite_failed_def
      split: sum.splits option.splits prod.splits)

text \<open>The request that schedules a rewrite changes nothing else.\<close>

lemma request_schedules:
  assumes "from_frame t f = Inr BgRewriteAof" "\<not> si_rewrite_in_progress (w_stats (sys_writer s))"
  shows "sys_next E path policy (ClientRequest t io st f) s = Some (scheduled s)"
  using assms
  by (auto simp: handle_request_def scheduled_def request_writer_def begin_rewrite_def aof_handle_of_def
      split: prod.splits sum.splits)

text \<open>What a rewrite leaves in the writer, whatever it answers.\<close>

lemma finish_rewrite_cases:
  assumes "finish_rewrite policy io w = (r, w')" "w_temp w = Some temp" "w_buffer w = Some rewrite_buffer_new"
  shows "w_buffer w' = None" "si_rewrite_count (w_stats w') = si_rewrite_count (w_stats w)"
    "si_write_failed (w_stats w') = si_write_failed (w_stats w)"
    "r = Inr () \<Longrightarrow> w_file w' = temp \<and> w_temp w' = None \<and> w_synced w' = length temp"
    "r \<noteq> Inr () \<Longrightarrow> w_file w' = w_file w \<and> w_synced w' = w_synced w \<or> w_file w' = temp \<and> w_synced w' = length temp"
  using assms
  by (auto simp: finish_rewrite_def finish_rewrite_file_def sync_data_def rewrite_buffer_new_def done_or_def Let_def
      split: option.splits if_splits)

text \<open>The accounts of a rewrite that answered \<open>r\<close>.\<close>

definition accounted :: "(bytes, unit) result \<Rightarrow> aof_writer \<Rightarrow> aof_writer \<Rightarrow> bool" where
  "accounted r w w' \<longleftrightarrow> w_buffer w' = None \<and> w_temp w' = None \<and> \<not> si_rewrite_in_progress (w_stats w') \<and>
     si_rewrite_count (w_stats w') = si_rewrite_count (w_stats w) + 1 \<and>
     si_write_failed (w_stats w') = si_write_failed (w_stats w) \<and>
     si_last_rewrite_ok (w_stats w') = (r = Inr ()) \<and>
     si_last_error (w_stats w') = (case r of Inl e \<Rightarrow> Some e | Inr _ \<Rightarrow> None)"

text \<open>The log is the encoded snapshot and nothing else, all of it synced.\<close>

definition is_snapshot :: "('tx, 'rx) env \<Rightarrow> (nat \<Rightarrow> clock) \<Rightarrow> (bytes \<times> entry) list \<Rightarrow> aof_writer \<Rightarrow> bool" where
  "is_snapshot E c es w \<longleftrightarrow> (\<exists>fs. write_snapshot_entries (hash_iter E) c 0 es = Inr fs \<and>
     w_file w = concat (map encode fs) \<and> w_synced w = length (w_file w))"

lemma rewrite_now_cases:
  assumes "rewrite_now E policy t c err io finished db w = (r, w')"
    "\<not> si_rewrite_in_progress (w_stats w)" "w_buffer w = None"
  shows "accounted r w w' \<and> (r = Inr () \<longrightarrow> is_snapshot E c (aof_snapshot_entries t db) w') \<and>
    (r \<noteq> Inr () \<longrightarrow> w_file w' = w_file w \<and> w_synced w' = w_synced w \<or>
      is_snapshot E c (aof_snapshot_entries t db) w')"
proof -
  let ?w1 = "w\<lparr>w_stats := (w_stats w)\<lparr>si_rewrite_in_progress := True\<rparr>, w_buffer := Some rewrite_buffer_new\<rparr>"
  let ?snap = "write_snapshot_entries (hash_iter E) c 0 (aof_snapshot_entries t db)"
  show ?thesis
  proof (cases "bind_result ?snap (\<lambda>fs. map_result (\<lambda>_. fs) (done_or err))")
    case (Inl e)
    then show ?thesis
      using assms by (auto simp: accounted_def rewrite_now_def rewrite_inner_def begin_rewrite_def
          start_rewrite_buffering_def abort_rewrite_def finish_rewrite_stats_def Let_def)
  next
    case (Inr fs)
    then have snap: "?snap = Inr fs" by (auto simp: result_cases)
    obtain r1 w2 where f: "finish_rewrite policy io (?w1\<lparr>w_temp := Some (concat (map encode fs))\<rparr>) = (r1, w2)" by force
    note c = finish_rewrite_cases [OF f]
    show ?thesis
      using assms Inr f c snap
      by (cases r1) (auto simp: accounted_def is_snapshot_def rewrite_now_def rewrite_inner_def begin_rewrite_def
          start_rewrite_buffering_def finish_rewrite_stats_def Let_def)
  qed
qed

text \<open>Without failures of the file system a rewrite succeeds when its entries can be encoded.\<close>

lemma rewrite_now_succeeds:
  assumes "write_snapshot_entries (hash_iter E) c 0 (aof_snapshot_entries t db) = Inr fs"
    "\<not> si_rewrite_in_progress (w_stats w)" "w_buffer w = None"
  shows "fst (rewrite_now E policy t c None no_failures finished db w) = Inr ()"
  using assms
  by (simp add: rewrite_now_def rewrite_inner_def begin_rewrite_def start_rewrite_buffering_def finish_rewrite_def
      finish_rewrite_file_def no_failures_def sync_data_def done_or_def rewrite_buffer_new_def Let_def)

section \<open>A rewrite keeps the content of the log\<close>

lemma idle_writer:
  assumes "sys_inv h t later s" "sys_phase s = Idle"
  shows "\<not> si_rewrite_in_progress (w_stats (sys_writer s))" "w_buffer (sys_writer s) = None"
  using assms not_rewriting [of t later "sys_phase s" "sys_writer s"] by (auto simp: sys_inv_def writer_inv_def)

lemma rewrite_now_live:
  "sys_inv h t0 later s \<Longrightarrow> t0 \<le> t \<Longrightarrow> t \<le> now \<Longrightarrow> now \<le> later \<Longrightarrow> db_live h now (sys_db s) = db_live h t (sys_db s)"
  using db_live_passes [of h t0 later "sys_db s" now] db_live_passes [of h t0 later "sys_db s" t]
  by (simp add: sys_inv_def)

text \<open>The log afterwards is the one before or the encoded snapshot, all of which is synced.\<close>

lemma rewrite_now_log:
  assumes "sys_inv (xxh E) t0 later s" "sys_phase s = Idle" "iterates E" "unat later + unat MAX_EXPIRE_AT_MS < 2 ^ 128"
    "t0 \<le> t" "t \<le> finished" "finished \<le> later" "\<forall>j. c j 0 \<le> finished"
    "\<forall>(k, e) \<in> set (aof_snapshot_entries t (sys_db s)). rewritable later e"
    "rewrite_now E policy t c err io finished (sys_db s) (sys_writer s) = (r, w')"
    "r = Inr () \<or> \<not> si_write_failed (w_stats (sys_writer s))"
  shows "log_since finished later (w_synced w') (w_file w') (db_live (xxh E) finished (sys_db s))"
proof -
  let ?es = "aof_snapshot_entries t (sys_db s)" and ?m = "db_live (xxh E) finished (sys_db s)"
  have wf: "db_wf (xxh E) (sys_db s)" "usable later (db_live (xxh E) t0 (sys_db s))"
    using assms(1) by (simp_all add: sys_inv_def db_inv_def usable_def)
  have t0: "t0 \<le> finished" using assms(5,6) by simp
  have m: "?m = db_live (xxh E) t (sys_db s)" "?m = db_live (xxh E) t0 (sys_db s)"
    using rewrite_now_live [OF assms(1,5-7)] rewrite_now_live [OF assms(1) order_refl t0 assms(7)] by simp_all
  consider (new) fs where "write_snapshot_entries (hash_iter E) c 0 ?es = Inr fs" "w_file w' = concat (map encode fs)"
      "w_synced w' = length (w_file w')"
    | (old) "\<not> si_write_failed (w_stats (sys_writer s))" "w_file w' = w_file (sys_writer s)" "w_synced w' = w_synced (sys_writer s)"
    using rewrite_now_cases [OF assms(10) idle_writer [OF assms(1,2)]] assms(11) unfolding is_snapshot_def by metis
  then show ?thesis
  proof cases
    case new
    have es: "map_of ?es = ?m" using map_of_aof_snapshot [OF wf(1), of t] by (simp add: m(1))
    have "keyspace_ok (map_of ?es)" using wf(2) m(2) by (simp add: es usable_def)
    moreover have "\<forall>hm. mset (hash_iter E hm) = mset hm" using assms(3) by (simp add: iterates_def)
    ultimately have "leads_in finished later fs Map.empty (map_of ?es)"
      by (intro leads_in_snapshot [OF new(1) distinct_snapshot [OF wf(1)] assms(9) _ assms(8) _ assms(4)])
    then have "log_for finished later (w_file w') ?m" using new(2) es by (auto simp: log_for_def)
    then show ?thesis using log_since_all wf(2) m(2) new(3) by metis
  next
    case old
    have "log_since t0 later (w_synced (sys_writer s)) (w_file (sys_writer s)) (db_live (xxh E) t0 (sys_db s))"
      using assms(1) old(1) by (simp add: sys_inv_def log_invD)
    then show ?thesis using log_since_passes [OF _ t0] old(2,3) m(2) by simp
  qed
qed

end
