(* ===== verification/Durability.thy ===== *)
theory Durability
  imports Gate Sample SnapshotFrames Startup Compaction
begin

text \<open>The properties of the append-only log: recovery of a run of the server, and what limits it.\<close>

section \<open>Crash recovery\<close>

text \<open>
  Crash recovery: a server that starts empty, handles any sequence of requests and crashes, possibly
  while appending one more frame to its log, is rebuilt by \<open>replay\<close> at the time \<open>later\<close> with exactly
  the live key space it had, for every way the file is cut into reads; the torn frame is cut off the
  file. The deadlines that were set must not pass between the command and the recovery, and the
  logged frame of a command that sets one must be within the parser's size limit.
\<close>

theorem crash_recovery:
  assumes "\<forall>q \<in> set qs. recoverable later q" "sorted (map rq_time qs @ [later])"
    "unat later + unat MAX_EXPIRE_AT_MS < 2 ^ 128" "serve E qs new_db = (db', fs)"
    "wire_frame g" "encode g = torn @ lost" "lost \<noteq> []" "concat chunks = concat (map encode fs) @ torn"
  shows "\<exists>db2. replay E' (\<lambda>_ _. later) chunks new_db = (length fs, db2, concat (map encode fs)) \<and>
    db_wf (xxh E') db2 \<and> db_live (xxh E') later db2 = db_live (xxh E) later db'"
  using assms by (rule crash_recovers)

definition sample_request :: "u128 \<Rightarrow> frame \<Rightarrow> request" where
  "sample_request t f = \<lparr>rq_time = t,
     rq_aof = \<lparr>ah_write = (\<lambda>_. Inr ()),
       ah_stats = \<lparr>as_enabled = True, as_path = ''a.aof'', as_fsync_policy = FsyncAlways, as_current_size = 0,
         as_rewrite_in_progress = False, as_rewrite_count = 0, as_last_rewrite_status = ''none'',
         as_last_rewrite_finished_ms = 0, as_write_failed = False, as_last_error = None\<rparr>,
       ah_schedule = Inr ()\<rparr>,
     rq_state = \<lparr>ss_connected_clients = 1, ss_total_connections = 1, ss_started_at_ms = 0\<rparr>,
     rq_frame = f\<rparr>"

lemma rq_time_sample [simp]: "rq_time (sample_request t f) = t"
  by (simp add: sample_request_def)

lemma sample_serve:
  assumes "from_frame t f = Inr cmd" "is_write cmd" "aof_frame t cmd = Some g"
    "apply_cmd E (\<lambda>_. t) cmd db = (r, db1)" "\<forall>m. r \<noteq> Error m"
  shows "serve E (sample_request t f # qs) db = (case serve E qs db1 of (db', fs) \<Rightarrow> (db', g # fs))"
proof -
  have "execute E t (\<lambda>_. t) (Some (\<lambda>_. Inr ())) cmd db = (r, db1, Some g)"
    using execute_cases [OF assms(2,4,3), of "\<lambda>_. Inr ()"] assms(5) by simp
  then show ?thesis
    using assms(1,2) by (cases cmd) (simp_all add: sample_request_def handle_request_def split: prod.splits)
qed

theorem crash_recovery_witness:
  "\<exists>db2. replay sample_env (\<lambda>_ _. 50) [encode (Array [Bulk ''INCR'', Bulk ''n'']) @ ''*'', ''2''] new_db =
      (1, db2, encode (Array [Bulk ''INCR'', Bulk ''n''])) \<and>
    db_live (xxh sample_env) 50 db2 ''n'' = Some (string_entry ''1'' None)"
proof -
  let ?f = "Array [Bulk ''INCR'', Bulk ''n'']" and ?E = sample_env
  obtain r db1 where a: "apply_cmd ?E (\<lambda>_. 10) (Incr ''n'') new_db = (r, db1)" by force
  have "show_i64 1 = ''1''" by code_simp
  then have r: "r = Integer 1" and live: "db_live (xxh ?E) 10 db1 = [''n'' \<mapsto> string_entry ''1'' None]"
    using apply_refines [OF db_wf_new, of ?E 10 "Incr ''n''"] a
    by (auto simp: implements_def reply_def at_key_def spec_incr_def db_live_new)
  moreover have from_f: "from_frame 10 ?f = Inr (Incr ''n'')" by (simp add: logged_frames)
  ultimately have srv: "serve ?E [sample_request 10 ?f] new_db = (db1, [?f])"
    using a by (subst sample_serve) (auto simp: command_one_def simp del: apply_cmd.simps)
  moreover have "recoverable 50 (sample_request 10 ?f)"
    by (simp add: recoverable_def sample_request_def from_f wire_request_def log_fits_def eval_limits)
  moreover have "encode ?f = ''*2'' @ drop 2 (encode ?f)" "drop 2 (encode ?f) \<noteq> []" by code_simp+
  moreover have "wire_frame ?f" by (simp add: eval_limits)
  ultimately have "\<exists>db2. replay ?E (\<lambda>_ _. 50) [encode ?f @ ''*'', ''2''] new_db =
      (length [?f], db2, concat (map encode [?f])) \<and> db_wf (xxh ?E) db2 \<and>
      db_live (xxh ?E) 50 db2 = db_live (xxh ?E) 50 db1"
    by (intro crash_recovery [of "[sample_request 10 ?f]" 50 ?E db1 "[?f]" ?f "''*2''"
          "drop 2 (encode ?f)" "[encode ?f @ ''*'', ''2'']"])
       (simp_all add: unat_max_expire del: encode.simps serve.simps)
  moreover have "db_live (xxh ?E) 50 db1 = db_live (xxh ?E) 10 db1"
    by (rule lasting_live [of 50]) (simp_all add: live lasting_def)
  ultimately show ?thesis by (auto simp: live simp del: encode.simps)
qed

text \<open>
  C17. Recovery is stable, whatever the file holds: garbage, torn frames, requests that are not commands, commands
  that fail. When \<open>replay\<close> has cut the file where it stopped, a replay of what is left, read in the same
  pieces at the same time, applies as many commands, gives the same live key space and cuts nothing more.
\<close>

theorem recovery_is_stable:
  assumes "replay E (\<lambda>_ _. now) chunks new_db = (n, db1, kept)"
  shows "concat (cut (length kept) chunks) = kept \<and>
    (\<exists>db2. replay E (\<lambda>_ _. now) (cut (length kept) chunks) new_db = (n, db2, kept) \<and>
      db_live (xxh E) now db2 = db_live (xxh E) now db1)"
  using db_wf_new assms by (rule replay_again)

lemma sample_corrupt_log:
  "replay sample_env (\<lambda>_ _. 10) [encode (Array [Bulk ''PING'']) @ ''*-5'', crlf @ ''*1''] new_db =
     (1, new_db, encode (Array [Bulk ''PING'']))"
proof -
  let ?f = "Array [Bulk ''PING'']" and ?C = "(\<lambda>_ _. 10) :: nat \<Rightarrow> clock"
  let ?rs = "\<lparr>rs_buf = [], rs_db = new_db :: nat db, rs_applied = 0, rs_valid_len = 0, rs_truncate_to = None\<rparr>"
  let ?rs1 = "?rs\<lparr>rs_buf := encode ?f @ ''*-5''\<rparr>"
  let ?rs2 = "?rs\<lparr>rs_buf := ''*-5'', rs_applied := 1, rs_valid_len := length (encode ?f)\<rparr>"
  have wf: "wire_frame ?f" by (simp add: eval_limits)
  have "from_frame 10 ?f = Inr (Ping None)" by code_simp
  then have run: "run_log sample_env ?C 0 [?f] new_db = Some new_db" by simp
  let ?T = "length (encode ?f @ ''*-5'')"
  have "drain sample_env ?C ?T ?rs1 = drain sample_env ?C ?T (?rs1\<lparr>rs_buf := ''*-5'', rs_db := new_db,
      rs_applied := rs_applied ?rs1 + 1, rs_valid_len := ?T - length ''*-5''\<rparr>)"
    by (rule drain_frame [OF wf]) (simp_all add: run del: encode.simps run_log.simps)
  also have "?rs1\<lparr>rs_buf := ''*-5'', rs_db := new_db, rs_applied := rs_applied ?rs1 + 1,
      rs_valid_len := ?T - length ''*-5''\<rparr> = ?rs2" by (simp del: encode.simps)
  also have "\<not> MAX_LINE_LEN < Suc (Suc 0)" by (simp add: parser_limits)
  then have p: "parse ''*-5'' = Inr (None, ''*-5'')"
    by (simp add: parse.simps is_resp_type_def parse_frame_Cons read_line_int_def read_line_def CR_def)
  have "length ''*-5'' \<le> 100" "100 \<le> MAX_AOF_BUFFERED_FRAME_BYTES" by (simp_all add: MAX_AOF_BUFFERED_FRAME_BYTES_def)
  then have "length ''*-5'' \<le> MAX_AOF_BUFFERED_FRAME_BYTES" by (rule order_trans)
  with p have "drain sample_env ?C ?T ?rs2 = ?rs2" by (intro drain_stop) (simp_all only: replay_state.simps)
  finally have d1: "drain sample_env ?C ?T ?rs1 = ?rs2" .
  have "parse (''*-5'' @ crlf @ ''*1'') = Inl (Protocol ''negative array len'')" by code_simp
  then have d2: "drain sample_env ?C t (?rs2\<lparr>rs_buf := ''*-5'' @ crlf @ ''*1''\<rparr>) =
      ?rs2\<lparr>rs_buf := ''*-5'' @ crlf @ ''*1'', rs_truncate_to := Some (length (encode ?f))\<rparr>" for t
    by (subst drain.simps) (simp add: Let_def del: encode.simps)
  have "drain sample_env ?C 0 ?rs = ?rs" by (subst drain.simps) simp
  then show ?thesis
    using d1 d2 by (simp add: replay_def replay_loop.simps Let_def truncate_aof_def del: encode.simps)
qed

theorem recovery_is_stable_witness:
  "\<exists>db2. replay sample_env (\<lambda>_ _. 10) [encode (Array [Bulk ''PING''])] new_db =
      (1, db2, encode (Array [Bulk ''PING''])) \<and>
    db_live (xxh sample_env) 10 db2 = db_live (xxh sample_env) 10 (new_db :: nat db)"
proof -
  have c: "cut (length b) [b @ x, y] = [b]" if "b \<noteq> []" for b x y :: bytes using that by simp
  have "cut (length (encode (Array [Bulk ''PING'']))) [encode (Array [Bulk ''PING'']) @ ''*-5'', crlf @ ''*1''] =
      [encode (Array [Bulk ''PING''])]" by (rule c) simp
  then show ?thesis using recovery_is_stable [OF sample_corrupt_log] by (simp only:)
qed

text \<open>
  C19. A failure of the file system during recovery loses nothing: whether opening, reading, cutting or syncing
  the log fails, the file is afterwards as it was, or cut exactly where a recovery without failures cuts it,
  and from there the next attempt recovers the same. If recovery succeeds in spite of a failure, it has
  applied the same commands.
\<close>

theorem failed_start_loses_nothing:
  assumes "replay E (\<lambda>_ _. now) chunks new_db = (n, db1, kept)" "reads_of chunks reads"
    "replay_file E (\<lambda>_ _. now) io reads (Some (concat chunks)) new_db = (r, db', file')"
  shows "(file' = Some (concat chunks) \<or> file' = Some kept \<and> concat (cut (length kept) chunks) = kept) \<and>
    (\<exists>db2. replay E (\<lambda>_ _. now) (cut (length kept) chunks) new_db = (n, db2, kept) \<and>
      db_live (xxh E) now db2 = db_live (xxh E) now db1) \<and>
    (case r of Inr m \<Rightarrow> m = n \<and> db' = db1 | Inl e \<Rightarrow> True)"
  using replay_file_fails [OF assms(3,2,1)] replay_again [OF db_wf_new assms(1)] by (auto split: sum.split)

theorem failed_start_loses_nothing_witness:
  "\<exists>db2. replay sample_env (\<lambda>_ _. 10) (cut (length (encode (Array [Bulk ''PING''])))
      [encode (Array [Bulk ''PING'']) @ ''*-5'', crlf @ ''*1'']) new_db =
      (1, db2, encode (Array [Bulk ''PING'']))"
proof -
  let ?chunks = "[encode (Array [Bulk ''PING'']) @ ''*-5'', crlf @ ''*1'']"
  have "reads_of ?chunks [Inr (hd ?chunks), Inl ''io'']"
    unfolding reads_of_def by (intro disjI2 exI [of _ 1] exI [of _ "''io''"]) (simp del: encode.simps)
  then show ?thesis
    using failed_start_loses_nothing [OF sample_corrupt_log, of _ healthy] prod_cases3 by (metis (no_types, lifting))
qed

text \<open>
  C38. \<open>replay\<close> takes the length of a log whose \<open>metadata\<close> fails for 0 and then does not cut off a torn frame;
  the server starts all the same and appends to it. A write that is then executed and logged, with
  \<open>fsync\<close>, is lost: the next recovery cannot read past the torn frame.
\<close>

theorem unknown_length_loses_writes:
  "\<exists>w. start_up sample_env (\<lambda>_ _. 10) (healthy\<lparr>st_metadata := False\<rparr>) [Inr ''*''] (Some (Some ''*'')) =
      Inr (new_db, Some (spawn_writer ''*'')) \<and>
    handle_write FsyncAlways no_failures (Array [Bulk ''INCR'', Bulk ''n'']) (spawn_writer ''*'') = (Inr (), w) \<and>
    replay sample_env (\<lambda>_ _. 20) [w_file w] new_db = (0, new_db, [])"
proof -
  let ?f = "Array [Bulk ''INCR'', Bulk ''n'']"
  let ?rs = "\<lparr>rs_buf = [], rs_db = new_db :: nat db, rs_applied = 0, rs_valid_len = 0, rs_truncate_to = None\<rparr>"
  have empty: "drain sample_env c 0 ?rs = ?rs" for c by (subst drain.simps) simp
  have "encode ?f = ''*'' @ drop 1 (encode ?f)" "drop 1 (encode ?f) \<noteq> []" by code_simp+
  moreover have "wire_frame ?f" by (simp add: eval_limits)
  ultimately have "waiting ''*''" by (intro waiting_prefix)
  then have star: "drain sample_env c t (?rs\<lparr>rs_buf := ''*''\<rparr>) = ?rs\<lparr>rs_buf := ''*''\<rparr>" for c t
    by (intro drain_stop) (simp_all add: waiting_def)
  have start: "start_up sample_env (\<lambda>_ _. 10) (healthy\<lparr>st_metadata := False\<rparr>) [Inr ''*''] (Some (Some ''*'')) =
      Inr (new_db, Some (spawn_writer ''*''))"
    using empty star by (simp add: start_up_def replay_file_def replay_loop.simps healthy_def spawn_writer_on_def Let_def)
  obtain w where w: "handle_write FsyncAlways no_failures ?f (spawn_writer ''*'') = (Inr (), w)"
      "w_file w = ''*'' @ encode ?f"
    by (simp add: handle_write_def write_logged_def write_one_def write_all_def no_failures_def spawn_writer_def
        default_stats_def sync_after_write_def sync_data_def done_or_def Let_def del: encode.simps)
  have "parse (''*'' @ encode ?f) = Inl (Protocol ''invalid integer'')" by code_simp
  then have "drain sample_env c t (?rs\<lparr>rs_buf := ''*'' @ encode ?f\<rparr>) =
      ?rs\<lparr>rs_buf := ''*'' @ encode ?f, rs_truncate_to := Some 0\<rparr>" for c t
    by (subst drain.simps) (simp add: Let_def del: encode.simps)
  then have "replay sample_env (\<lambda>_ _. 20) [w_file w] new_db = (0, new_db, [])"
    using empty by (simp add: replay_def replay_loop.simps w(2) Let_def truncate_aof_def del: encode.simps)
  with start w(1) show ?thesis by blast
qed

text \<open>
  C30. The condition on deadlines is needed: \<open>replay\<close> executes the logged commands against the current
  clock, so a key whose deadline passed during the downtime is gone when a later \<open>INCR\<close> of the
  log is executed, which then creates it anew without a deadline. After recovery a key lives,
  forever, that is expired without the crash, and its value is not the one it had.
\<close>

theorem recovery_can_resurrect_key:
  "\<exists>qs db' fs db2. serve E qs new_db = (db', fs) \<and> map rq_time qs = [10, 20] \<and>
     list_all (\<lambda>q. wire_frame (rq_frame q)) qs \<and>
     replay E' (\<lambda>_ _. 50) [concat (map encode fs)] new_db = (2, db2, concat (map encode fs)) \<and>
     db_live (xxh E) 50 db' ''n'' = None \<and> db_live (xxh E') 50 db2 ''n'' = Some (string_entry ''1'' None)"
proof -
  let ?set = "Set ''n'' ''5'' (Some 40)" and ?incr = "Incr ''n''"
  let ?f = "Array [Bulk ''INCR'', Bulk ''n'']"
  obtain g where g: "aof_frame 10 ?set = Some g" by simp
  have wire: "wire_frame g" "wire_frame ?f"
    using g by (auto simp: push_set_expiry_def bulk_string_u128_def MAX_EXPIRE_AT_MS_def show_u128_def eval_limits)
  have parsed: "from_frame 10 g = Inr ?set" "from_frame 50 g = Inr ?set"
    using read_back_ok [OF _ g, of 10] read_back_ok [OF _ g, of 50]
    by (simp_all add: unat_max_expire) (simp_all add: MAX_EXPIRE_AT_MS_def)
  have incr: "from_frame t ?f = Inr ?incr" "aof_frame t ?incr = Some ?f" for t
    by (simp_all add: logged_frames)
  have one: "show_i64 1 = ''1''" "show_i64 6 = ''6''" "show_i64 5 = ''5''" by code_simp+
  then have five: "parse_i64_bytes ''5'' = Some 5" using parse_i64_bytes_show_i64 [of 5] by simp
  obtain r1 db1 r2 db2 where run: "apply_cmd E (\<lambda>_. 10) ?set new_db = (r1, db1)"
      "apply_cmd E (\<lambda>_. 20) ?incr db1 = (r2, db2)"
    by (metis surj_pair)
  obtain r3 db3 r4 db4 where rerun: "apply_cmd E' (\<lambda>_. 50) ?set new_db = (r3, db3)"
      "apply_cmd E' (\<lambda>_. 50) ?incr db3 = (r4, db4)"
    by (metis surj_pair)
  note facts = implements_def reply_def at_key_def spec_set_def spec_incr_def db_live_new eval_limits
    live_def entry_expired_def one five in_i64_def i64_min_def i64_max_def OK_def
  have wf: "db_wf (xxh E) db1" "db_wf (xxh E') db3"
    using apply_keeps [OF db_wf_new, of E ?set "\<lambda>_. 10"] apply_keeps [OF db_wf_new, of E' ?set "\<lambda>_. 50"] run rerun
    by (simp_all add: keeps_def)
  have l1: "r1 = OK" "db_live (xxh E) 10 db1 = [''n'' \<mapsto> string_entry ''5'' (Some 40)]"
    using apply_refines [OF db_wf_new, of E 10 ?set] run(1) by (auto simp: facts)
  then have "db_live (xxh E) 20 db1 = [''n'' \<mapsto> string_entry ''5'' (Some 40)]"
    using lasting_live [of 39 "xxh E" 10 db1 20] by (simp add: lasting_def lasting_entry_def)
  then have l2: "r2 = Integer 6" "db_live (xxh E) 20 db2 ''n'' = Some (string_entry ''6'' (Some 40))"
    using apply_refines [OF wf(1), of 20 ?incr] run(2) by (auto simp: facts)
  have l3: "r3 = OK" "db_live (xxh E') 50 db3 = Map.empty"
    using apply_refines [OF db_wf_new, of E' 50 ?set] rerun(1) by (auto simp: facts)
  have l4: "r4 = Integer 1" "db_live (xxh E') 50 db4 ''n'' = Some (string_entry ''1'' None)"
    using apply_refines [OF wf(2), of 50 ?incr] rerun(2) l3(2) by (auto simp: facts)
  have "serve E [sample_request 10 g, sample_request 20 ?f] new_db = (db2, [g, ?f])"
    by (subst sample_serve [OF parsed(1) _ g run(1)], simp, simp add: l1 OK_def,
        subst sample_serve [OF incr(1) _ incr(2) run(2)]) (simp_all add: l2)
  moreover have "run_log E' (\<lambda>_ _. 50) 0 [g, ?f] new_db = Some db4"
    using parsed(2) incr rerun l3(1) l4(1) by (simp add: OK_def del: apply_cmd.simps)
  then have "replay E' (\<lambda>_ _. 50) [concat (map encode [g, ?f])] new_db = (2, db4, concat (map encode [g, ?f]))"
    using replay_log [of "[g, ?f]" E' "\<lambda>_ _. 50" new_db db4 ?f "[]"] wire by simp
  moreover have "db_live (xxh E) 50 db2 ''n'' = None"
    using l2(2) by (auto simp: db_live_def live_Some) (simp add: live_def entry_expired_def)
  ultimately show ?thesis
    using wire l4(2)
    by (intro exI [of _ "[sample_request 10 g, sample_request 20 ?f]"] exI [of _ db2] exI [of _ "[g, ?f]"] exI [of _ db4])
       (simp add: sample_request_def del: serve.simps encode.simps)
qed

section \<open>One request\<close>

text \<open>
  C6. A write command that came over the wire gets exactly one reply. Either the reply is not an error,
  and the frame of the command was accepted by the log and the database is the one the command
  gives; or it is an error, nothing is logged and the live key space is as before, also when it is
  the log that failed. The invariant holds in both cases.
\<close>

theorem write_acknowledged_iff_logged:
  assumes "db_wf (xxh E) db" "parse buf = Inr (Some f, rest)" "from_frame now f = Inr cmd" "is_write cmd"
    "handle_request E now now (\<lambda>_. now) (Some a) st f db = (replies, step, db', logged)"
  shows "\<exists>r. replies = [r] \<and> step = Continue \<and> db_wf (xxh E) db' \<and> (case logged of
      Some g \<Rightarrow> (\<forall>m. r \<noteq> Error m) \<and> aof_frame now cmd = Some g \<and> ah_write a g = Inr () \<and>
        (r, db') = apply_cmd E (\<lambda>_. now) cmd db
    | None \<Rightarrow> (\<exists>m. r = Error m) \<and> db_live (xxh E) now db' = db_live (xxh E) now db)"
proof -
  obtain r where ex: "execute E now (\<lambda>_. now) (Some (ah_write a)) cmd db = (r, db', logged)"
      "replies = [r]" "step = Continue"
    using assms(3-5) by (cases cmd) (auto simp: handle_request_def split: prod.splits)
  have "append_fits cmd" by (rule from_frame_append_fits [OF assms(3) request_wf [OF assms(2,3)]])
  note atomic = execute_atomic [OF assms(1) this assms(4) ex(1)]
  have "db_wf (xxh E) db'" using handle_request_wf [OF assms(1), of now now "\<lambda>_. now" "Some a" st f] assms(5) by simp
  then show ?thesis using ex(2,3) atomic by blast
qed

theorem write_acknowledged_iff_logged_witness:
  "\<exists>db'. handle_request sample_env 10 10 (\<lambda>_. 10)
      (Some ((rq_aof (sample_request 0 Null))\<lparr>ah_write := \<lambda>_. Inl ''disk full''\<rparr>))
      (rq_state (sample_request 0 Null)) (Array [Bulk ''INCR'', Bulk ''n'']) sample_db =
      ([Error ''ERR AOF write failed: disk full''], Continue, db', None) \<and>
    db_live (xxh sample_env) 10 db' = db_live (xxh sample_env) 10 sample_db"
proof -
  let ?f = "Array [Bulk ''INCR'', Bulk ''n'']" and ?st = "rq_state (sample_request 0 Null)"
  let ?a = "(rq_aof (sample_request 0 Null))\<lparr>ah_write := \<lambda>_. Inl ''disk full''\<rparr>"
  have p: "parse (encode ?f @ []) = Inr (Some ?f, [])" by (rule parse_encode) (simp add: eval_limits)
  have f: "from_frame 10 ?f = Inr (Incr ''n'')" by (simp add: logged_frames)
  obtain db1 where a: "apply_cmd sample_env (\<lambda>_. 10) (Incr ''n'') sample_db = (Integer 42, db1)"
    using sample_reply [of "Incr ''n''" "Integer 42"]
    by (cases "apply_cmd sample_env (\<lambda>_. 10) (Incr ''n'') sample_db")
       (simp add: sample_live reply_def at_key_def spec_incr_def sample_numbers in_i64_def i64_min_def
        i64_max_def del: apply_cmd.simps)
  obtain db' where h: "handle_request sample_env 10 10 (\<lambda>_. 10) (Some ?a) ?st ?f sample_db =
      ([Error ''ERR AOF write failed: disk full''], Continue, db', None)"
    using execute_cases [OF _ a, of 10 _ "\<lambda>_. Inl ''disk full''"] f
    by (simp add: handle_request_def del: apply_cmd.simps)
  then show ?thesis
    using write_acknowledged_iff_logged [OF sample_db_wf p f _ h] by auto
qed

text \<open>
  Reading from a connection does not depend on how the network cuts the bytes: whatever pieces
  arrive, \<open>read_frame\<close> returns the first frame of the stream, and the bytes behind it are all still
  there, in the buffer or to be received.
\<close>

theorem read_frame_any_chunks:
  assumes "wire_frame f" "buf @ concat chunks = encode f @ rest"
    "length (encode f @ rest) \<le> MAX_BUFFERED_FRAME_BYTES"
  shows "\<exists>buf' chunks'. read_frame buf (map Received chunks) = Inr (Some f, buf', map Received chunks') \<and>
    buf' @ concat chunks' = rest"
  using assms by (rule read_frame_stream)

theorem read_frame_any_chunks_witness:
  "\<exists>buf' chunks'. read_frame ''+O'' (map Received [''K'', crlf, ''+'']) =
     Inr (Some (Simple ''OK''), buf', map Received chunks') \<and> buf' @ concat chunks' = ''+''"
proof (rule read_frame_any_chunks)
  show "wire_frame (Simple ''OK'')" by (simp add: eval_limits byte_in_def)
  show "''+O'' @ concat [''K'', crlf, ''+''] = encode (Simple ''OK'') @ ''+''" by simp
  show "length (encode (Simple ''OK'') @ ''+'') \<le> MAX_BUFFERED_FRAME_BYTES" by (simp add: eval_limits)
qed

section \<open>The rewritten log\<close>

text \<open>
  C5. The rewrite, by clock readings not after \<open>t\<close>, of a database whose live entries are each within the
  limits of the replay (\<open>encodable\<close>: the key with any one element fits a frame; \<open>rewritable\<close>: a string that can be sent
  back, a list or hash that is one command of at most \<open>MAX_ARRAY_LEN\<close> items and not empty, a deadline that is
  still ahead at \<open>t\<close> and fits an \<open>i64\<close>) succeeds, and replaying the rewritten file at \<open>t\<close>, however it is cut into reads, applies every
  frame of it and rebuilds exactly the live key space of the snapshot: strings too long for one frame are
  assembled from pieces, lists and hashes from several commands, deadlines are kept, and hashes come back
  with the same fields. Without the limit on items it is false (\<open>rewrite_can_outgrow_parser\<close>).
\<close>

theorem rewrite_preserves_keyspace:
  assumes "db_wf h db" "\<forall>k e. db_live h now db k = Some e \<longrightarrow> rewritable t e \<and> encodable k e"
    "\<forall>j. c j 0 \<le> t" "unat t + unat MAX_EXPIRE_AT_MS < 2 ^ 128" "\<forall>hm. mset (ord hm) = mset hm"
  shows "\<exists>fs. write_snapshot_entries ord c 0 (aof_snapshot_entries now db) = Inr fs \<and>
    (\<forall>chunks. concat chunks = concat (map encode fs) \<longrightarrow>
       (\<exists>db2. replay E (\<lambda>_ _. t) chunks new_db = (length fs, db2, concat (map encode fs)) \<and>
          db_wf (xxh E) db2 \<and> db_live (xxh E) t db2 = map_option canonical \<circ> db_live h now db))"
proof -
  obtain fs db2 where fs: "write_snapshot_entries ord c 0 (aof_snapshot_entries now db) = Inr fs"
      "\<forall>f \<in> set fs. wire_frame f" "run_log E (\<lambda>_ _. t) 0 fs new_db = Some db2" "db_wf (xxh E) db2"
      "db_live (xxh E) t db2 = map_option canonical \<circ> db_live h now db"
    using rewrite_rebuilds [of h db now t c ord E, OF assms] by blast
  have "replay E (\<lambda>_ _. t) chunks new_db = (length fs, db2, concat (map encode fs))"
    if "concat chunks = concat (map encode fs)" for chunks
    using replay_log [OF fs(2,3), of Null "[]" "encode Null" chunks] that by (simp add: eval_limits)
  with fs show ?thesis by blast
qed

theorem rewrite_preserves_keyspace_witness:
  "\<exists>fs. write_snapshot_entries rev (\<lambda>_ _. 20) 0 (aof_snapshot_entries 10 sample_db) = Inr fs \<and>
    (\<exists>db2. replay sample_env (\<lambda>_ _. 50) [concat (map encode fs)] new_db = (length fs, db2, concat (map encode fs)) \<and>
       db_live (xxh sample_env) 50 db2 ''n'' = Some (string_entry ''41'' (Some 100)))"
proof -
  have "\<forall>k e. db_live (xxh sample_env) 10 sample_db k = Some e \<longrightarrow> rewritable 50 e \<and> encodable k e"
    by (auto simp: sample_live rewritable_def encodable_def eval_limits aof_deadline_def MAX_EXPIRE_AT_MS_def
        MAX_AOF_BUFFERED_FRAME_BYTES_def)
  then have "\<exists>fs. write_snapshot_entries rev (\<lambda>_ _. 20) 0 (aof_snapshot_entries 10 sample_db) = Inr fs \<and>
    (\<forall>chunks. concat chunks = concat (map encode fs) \<longrightarrow>
       (\<exists>db2. replay sample_env (\<lambda>_ _. 50) chunks new_db = (length fs, db2, concat (map encode fs)) \<and>
          db_wf (xxh sample_env) db2 \<and>
          db_live (xxh sample_env) 50 db2 = map_option canonical \<circ> db_live (xxh sample_env) 10 sample_db))"
    by (intro rewrite_preserves_keyspace sample_db_wf) (simp_all add: unat_max_expire)
  then obtain fs where fs: "write_snapshot_entries rev (\<lambda>_ _. 20) 0 (aof_snapshot_entries 10 sample_db) = Inr fs"
      "\<And>chunks. concat chunks = concat (map encode fs) \<Longrightarrow>
       \<exists>db2. replay sample_env (\<lambda>_ _. 50) chunks new_db = (length fs, db2, concat (map encode fs)) \<and>
          db_live (xxh sample_env) 50 db2 = map_option canonical \<circ> db_live (xxh sample_env) 10 sample_db"
    by blast
  obtain db2 where "replay sample_env (\<lambda>_ _. 50) [concat (map encode fs)] new_db =
        (length fs, db2, concat (map encode fs))"
      "db_live (xxh sample_env) 50 db2 = map_option canonical \<circ> db_live (xxh sample_env) 10 sample_db"
    using fs(2) [of "[concat (map encode fs)]"] by auto
  then show ?thesis using fs(1) by (auto simp: sample_live canonical_def)
qed

text \<open>
  C31. The limit on the number of items is needed: the rewrite cuts a list by bytes only. A list of
  \<open>2 ^ 20\<close> empty strings, which two \<open>RPUSH\<close> commands of half the size create, is written as one frame with
  more items than the parser accepts, so that the replay of the rewritten file fails there.
\<close>

theorem rewrite_can_outgrow_parser:
  "\<exists>half g msg. wire_frame (command_with_values ''RPUSH'' ''l'' half) \<and>
     from_frame t (command_with_values ''RPUSH'' ''l'' half) = Inr (RPush ''l'' half) \<and>
     write_snapshot_entries ord c 0 (aof_snapshot_entries now
       (snd (apply_cmd E (\<lambda>_. now) (RPush ''l'' half) (snd (apply_cmd E (\<lambda>_. now) (RPush ''l'' half) new_db))))) =
       Inr [g] \<and> parse (encode g) = Inl (Protocol msg)"
proof -
  obtain n :: nat where n: "n = 524288" by simp
  define half where "half = replicate n ([] :: bytes)"
  define l where "l = half @ half"
  let ?cmd = "RPush ''l'' half" and ?f = "command_with_values ''RPUSH'' ''l''"
  let ?db1 = "snd (apply_cmd E (\<lambda>_. now) ?cmd new_db)"
  let ?db2 = "snd (apply_cmd E (\<lambda>_. now) ?cmd ?db1)"
  have "length half = n" "payload half = 6 * n" by (simp_all add: half_def payload_replicate)
  then have len: "length half = 524288" "length l = 1048576" "half \<noteq> []" "payload half = 3145728" "payload l = 6291456"
    using n by (auto simp: l_def)
  have "length (show_nat (length bs + 2)) \<le> 7" if "bs = half \<or> bs = l" for bs
    using that len by (intro show_nat_pow10) auto
  then have size: "command_size ''RPUSH'' ''l'' bs \<le> MAX_AOF_BUFFERED_FRAME_BYTES" if "bs = half \<or> bs = l" for bs
    using that len by (fastforce simp: command_size_def bulk_size_eq show_nat.simps MAX_AOF_BUFFERED_FRAME_BYTES_def)
  have wire: "wire_frame (?f half)"
    using wire_bulks [of "''RPUSH'' # ''l'' # half"] replay_len_command [of "''RPUSH''" "''l''" half] size [of half] len
    by (simp add: command_with_values_def parser_limits)
  have from_f: "from_frame t (?f half) = Inr ?cmd" using len(3) by (simp add: logged_frames)
  have wf: "db_wf (xxh E) ?db1" using apply_keeps [OF db_wf_new, of E ?cmd "\<lambda>_. now"] by (simp add: keeps_def)
  then have wf2: "db_wf (xxh E) ?db2" using apply_keeps [OF wf, of ?cmd "\<lambda>_. now"] by (simp add: keeps_def)
  have "db_live (xxh E) now ?db1 = [''l'' \<mapsto> list_entry half None]"
    using apply_refines [OF db_wf_new, of E now ?cmd]
    by (simp add: implements_def reply_def at_key_def spec_push_def db_live_new del: apply_cmd.simps)
  then have "db_live (xxh E) now ?db2 = [''l'' \<mapsto> list_entry l None]"
    using apply_refines [OF wf, of now ?cmd]
    by (simp add: implements_def reply_def at_key_def spec_push_def l_def del: apply_cmd.simps)
  then have snap: "aof_snapshot_entries now ?db2 = [(''l'', list_entry l None)]"
    by (rule single_snapshot [OF wf2])
  have "list_loop ''l'' [] 0 l = Inr [?f l]"
    using list_loop_one_frame [of "''l''" "[]" l] size [of l] len by (simp add: l_def)
  then have "write_snapshot_entries ord c 0 (aof_snapshot_entries now ?db2) = Inr [?f l]"
    unfolding snap using len
    by (simp add: write_snapshot_entry_def entry_expired_def write_list_snapshot_def write_expiry_snapshot_def
        then_write_def l_def)
  moreover have "\<exists>msg. parse (encode (?f l)) = Inl (Protocol msg)"
    unfolding command_with_values_def using len by (intro parse_big_array) (simp_all add: parser_limits)
  ultimately show ?thesis using wire from_f by blast
qed

text \<open>
  The binary search for the length of an \<open>APPEND\<close> piece returns the longest payload with which the
  frame is still within the replay limit, and nothing when not even the empty payload fits.
\<close>

theorem append_piece_is_longest:
  "max_payload_len_for_frame base_len =
     (if base_len + length (encode (Bulk [])) \<le> MAX_AOF_BUFFERED_FRAME_BYTES
      then Some (Max {n. n \<le> MAX_BULK_LEN \<and>
        base_len + length (encode (Bulk (replicate n CR))) \<le> MAX_AOF_BUFFERED_FRAME_BYTES})
      else None)"
  using max_payload_best [of base_len] by (simp only: bulk_size_def replicate_0)

text \<open>
  Where every frame is within the replay limit, the rewrite, which cuts values into pieces, writes exactly
  the frames of the plain encoding \<open>aof_snapshot_frames\<close>, in the same order.
\<close>

theorem rewrite_equals_plain_encoding:
  assumes "\<forall>(key, e) \<in> set (aof_snapshot_entries now db). plain_entry ord key e"
    "\<forall>j. \<forall>e \<in> snd ` set (aof_snapshot_entries now db). \<not> entry_expired (c j 0) e" "\<forall>hm. mset (ord hm) = mset hm"
  shows "write_snapshot_entries ord c 0 (aof_snapshot_entries now db) = Inr (aof_snapshot_frames ord now c' db)"
  unfolding aof_snapshot_frames_def using assms by (rule write_entries_plain)

theorem rewrite_equals_plain_encoding_witness:
  "write_snapshot_entries rev (\<lambda>_ _. 20) 0 (aof_snapshot_entries 10 sample_db) =
     Inr (aof_snapshot_frames rev 10 (\<lambda>_. 20) sample_db)"
proof (rule rewrite_equals_plain_encoding)
  have live: "db_live (xxh sample_env) 10 sample_db k = Some e" if "(k, e) \<in> set (aof_snapshot_entries 10 sample_db)" for k e
    using that map_of_aof_snapshot [OF sample_db_wf, of 10] distinct_snapshot [OF sample_db_wf, of 10]
    by (metis map_of_eq_Some_iff)
  have "show_u128 100 = ''100''" "show_nat (Suc 0) = ''1''" "show_nat (Suc (Suc 0)) = ''2''" "show_nat (Suc (Suc (Suc 0))) = ''3''"
      "show_nat (Suc (Suc (Suc (Suc 0)))) = ''4''" "show_nat (Suc (Suc (Suc (Suc (Suc 0))))) = ''5''" by code_simp+
  then have plain: "plain_entry rev k e" if "db_live (xxh sample_env) 10 sample_db k = Some e" for k e
    using that
    by (auto simp: sample_live plain_entry_def snapshot_entry_frames_eq deadline_frames_eq push_set_expiry_def
        bulk_string_u128_def MAX_EXPIRE_AT_MS_def MAX_AOF_BUFFERED_FRAME_BYTES_def pair_frames_def split: if_splits)
  have lives: "\<not> entry_expired 20 e" if "db_live (xxh sample_env) 10 sample_db k = Some e" for k e
    using that by (auto simp: sample_live entry_expired_def split: if_splits)
  show "\<forall>(key, e) \<in> set (aof_snapshot_entries 10 sample_db). plain_entry rev key e" using live plain by auto
  show "\<forall>j. \<forall>e \<in> snd ` set (aof_snapshot_entries 10 sample_db). \<not> entry_expired 20 e"
    using lives [OF live] by auto
qed simp

section \<open>The running server\<close>

text \<open>
  C7. The writer on its own, from a state in which it has not given up and knows the size of its file, and as
  long as no rewrite is finished and the file stays below \<open>2 ^ 64\<close> bytes: whatever other messages reach it, in
  whatever order, and whatever the file system answers, the file has exactly the writes that were
  acknowledged, complete and in their order. Bytes after them are there only when the writer has given
  up, and they are the beginning of one write that it has refused. With the policy \<open>always\<close> the
  acknowledged writes are all synced, so that no crash takes them. What the end of a rewrite does is
  the subject of \<open>rewrite_now_compacts\<close> and \<open>rollback_can_cut_log\<close>.
\<close>

theorem writer_logs_acknowledged:
  assumes "run_writer policy final evs w = (acks, w')" "list_all (\<lambda>ev. \<not> finishes_rewrite ev) evs"
    "\<not> si_write_failed (w_stats w)" "size_ok w" "length (w_file w) + sum_list (map wakeup_bytes evs) < 2 ^ 64"
  shows "\<exists>junk. w_file w' = w_file w @ acknowledged acks @ junk \<and>
    (junk \<noteq> [] \<longrightarrow> si_write_failed (w_stats w') \<and> (\<exists>bytes e n. (MWrite bytes, Inl e) \<in> set acks \<and> junk = take n bytes)) \<and>
    (policy = FsyncAlways \<and> w_synced w = length (w_file w) \<longrightarrow> length (w_file w @ acknowledged acks) \<le> w_synced w')"
  using run_writer_appends [OF assms(3,4,2,5,1)] unfolding torn_write_def .

definition sample_wakeups :: "(io \<times> wakeup) list" where
  "sample_wakeups = [(no_failures, Message (MWrite ''one'')), (no_failures, Timer), (no_failures, Message MStartRewrite),
     (no_failures, Message (MWrite ''two'')),
     (no_failures\<lparr>io_write := Some (1, ''full''), io_set_len := Some ''full''\<rparr>, Message (MWrite ''three'')),
     (no_failures, Message (MWrite ''four''))]"

theorem writer_logs_acknowledged_witness:
  "\<exists>junk. w_file (snd (run_writer FsyncAlways (Some ''full'') sample_wakeups (spawn_writer []))) = ''onetwo'' @ junk \<and>
     6 \<le> w_synced (snd (run_writer FsyncAlways (Some ''full'') sample_wakeups (spawn_writer [])))"
proof -
  obtain acks w' where r: "run_writer FsyncAlways (Some ''full'') sample_wakeups (spawn_writer []) = (acks, w')" by force
  have "acknowledged (fst (run_writer FsyncAlways (Some ''full'') sample_wakeups (spawn_writer []))) = ''onetwo''"
    by (simp add: sample_wakeups_def spawn_writer_def default_stats_def no_failures_def write_logged_def write_one_def
        write_all_def sync_after_write_def sync_data_def done_or_def rollback_active_file_def mark_write_failed_def
        rewrite_buffer_new_def rewrite_buffer_push_def checked_add_usize_def MAX_REWRITE_BUFFER_BYTES_def ok_or_def
        limits_values Let_def)
  then have acks: "acknowledged acks = ''onetwo''" by (simp only: r fst_conv)
  have w: "w_file (spawn_writer []) = []" "w_synced (spawn_writer []) = 0" by (simp_all add: spawn_writer_def)
  have "\<not> si_write_failed (w_stats (spawn_writer []))" "size_ok (spawn_writer [])"
      "list_all (\<lambda>ev. \<not> finishes_rewrite ev) sample_wakeups"
      "length (w_file (spawn_writer [])) + sum_list (map wakeup_bytes sample_wakeups) < 2 ^ 64"
    by (simp_all add: sample_wakeups_def spawn_writer_def default_stats_def size_ok_def)
  from writer_logs_acknowledged [OF r this(3,1,2,4)] acks w show ?thesis by (auto simp: r)
qed

text \<open>
  In every state the server can reach, with requests, sweeps, fsync timers and background rewrites
  interleaved in any order, with any pattern of failing file operations that \<open>admissible\<close> allows, and over any
  number of crashes and restarts: as long as the writer has not given up, a crash that leaves at least the synced
  bytes of the log, and perhaps the beginning of one more frame, is recovered to the content after some of the
  logged writes, in their order, which has at least those that were synced; with the policy \<open>always\<close>, to the
  current content. This holds before, during and after a rewrite, for every way the file is read.
\<close>

theorem log_always_recovers:
  assumes "reachable path policy later E t s" "\<not> si_write_failed (w_stats (sys_writer s))"
    "unat later + unat MAX_EXPIRE_AT_MS < 2 ^ 128" "t \<le> now" "now \<le> later"
    "wire_frame g" "encode g = torn @ lost" "lost \<noteq> []"
    "w_synced (sys_writer s) \<le> k" "concat chunks = take k (w_file (sys_writer s) @ torn)"
  shows "recovers E' policy now chunks (sys_writer s) (db_live (xxh E) now (sys_db s))"
  using assms by (rule reachable_replays)

lemma sample_incr:
  "\<exists>db logged s. handle_request sample_env 10 10 (\<lambda>_. 10)
       (Some (aof_handle_of ''a.aof'' FsyncAlways no_failures (spawn_writer []))) st (Array [Bulk ''INCR'', Bulk ''n'']) new_db =
       ([Integer 1], Continue, db, logged) \<and>
     sys_next sample_env ''a.aof'' FsyncAlways (ClientRequest 10 no_failures st (Array [Bulk ''INCR'', Bulk ''n'']))
       \<lparr>sys_db = new_db, sys_writer = spawn_writer [], sys_phase = Idle\<rparr> = Some s \<and>
     sys_phase s = Idle \<and> \<not> si_write_failed (w_stats (sys_writer s)) \<and>
     w_file (sys_writer s) = encode (Array [Bulk ''INCR'', Bulk ''n'']) \<and>
     db_live (xxh sample_env) 10 (sys_db s) = [''n'' \<mapsto> string_entry ''1'' None]"
proof -
  let ?f = "Array [Bulk ''INCR'', Bulk ''n'']" and ?E = sample_env
  have f: "from_frame 10 ?f = Inr (Incr ''n'')" by (simp add: logged_frames)
  obtain r db1 where a: "apply_cmd ?E (\<lambda>_. 10) (Incr ''n'') new_db = (r, db1)" by force
  have "show_i64 1 = ''1''" by code_simp
  then have r: "r = Integer 1" and live: "db_live (xxh ?E) 10 db1 = [''n'' \<mapsto> string_entry ''1'' None]"
    using apply_refines [OF db_wf_new, of ?E 10 "Incr ''n''"] a
    by (auto simp: implements_def reply_def at_key_def spec_incr_def db_live_new)
  have w: "handle_write FsyncAlways no_failures ?f (spawn_writer []) = (Inr (), (spawn_writer [])\<lparr>w_file := encode ?f, w_synced := length (encode ?f),
      w_stats := (w_stats (spawn_writer []))\<lparr>si_current_size := word_of_nat (length (encode ?f))\<rparr>\<rparr>)"
    by (simp add: handle_write_def write_logged_def write_one_def write_all_def sync_after_write_def sync_data_def
        no_failures_def spawn_writer_def default_stats_def Let_def del: encode.simps)
  have call: "log_call ?E 10 ?f new_db = Some ?f"
    using f a r by (simp add: log_call_def command_one_def del: apply_cmd.simps)
  obtain logged where h: "handle_request ?E 10 10 (\<lambda>_. 10)
      (Some (aof_handle_of ''a.aof'' FsyncAlways no_failures (spawn_writer []))) st ?f new_db = ([Integer 1], Continue, db1, logged)"
    using execute_cases [OF _ a, of 10 ?f "\<lambda>f. fst (handle_write FsyncAlways no_failures f (spawn_writer []))"] f r w
    by (simp add: handle_request_def aof_handle_of_def command_one_def del: apply_cmd.simps)
  obtain s where s: "sys_next ?E ''a.aof'' FsyncAlways (ClientRequest 10 no_failures st ?f)
       \<lparr>sys_db = new_db, sys_writer = spawn_writer [], sys_phase = Idle\<rparr> = Some s" "sys_db s = db1" "sys_phase s = Idle"
      "w_file (sys_writer s) = encode ?f" "\<not> si_write_failed (w_stats (sys_writer s))"
    using h call w f by (simp add: request_writer_def spawn_writer_def default_stats_def del: encode.simps)
  show ?thesis
    by (intro exI [of _ db1] exI [of _ logged] exI [of _ s]) (simp add: h s live del: sys_next.simps encode.simps)
qed

lemma sample_reachable:
  "\<exists>s. reachable ''a.aof'' FsyncAlways 50 sample_env 10 s \<and> sys_phase s = Idle \<and> \<not> si_write_failed (w_stats (sys_writer s)) \<and>
     w_file (sys_writer s) = encode (Array [Bulk ''INCR'', Bulk ''n'']) \<and>
     db_live (xxh sample_env) 10 (sys_db s) = [''n'' \<mapsto> string_entry ''1'' None]"
proof -
  let ?f = "Array [Bulk ''INCR'', Bulk ''n'']" and ?E = sample_env
  let ?st = "rq_state (sample_request 0 Null)"
  let ?ev = "ClientRequest 10 no_failures ?st ?f :: nat sys_event"
  let ?s0 = "\<lparr>sys_db = new_db, sys_writer = spawn_writer [], sys_phase = Idle\<rparr>"
  have start: "reachable ''a.aof'' FsyncAlways 50 ?E 0 ?s0"
    by (rule reachable.first [where c = "\<lambda>_ _. 0"]) (simp_all add: iterates_def sample_env_def boot_def replay_nothing)
  obtain s where s: "sys_next ?E ''a.aof'' FsyncAlways ?ev ?s0 = Some s" "sys_phase s = Idle"
      "\<not> si_write_failed (w_stats (sys_writer s))" "w_file (sys_writer s) = encode ?f"
      "db_live (xxh ?E) 10 (sys_db s) = [''n'' \<mapsto> string_entry ''1'' None]"
    using sample_incr [of ?st] by blast
  have "from_frame 10 ?f = Inr (Incr ''n'')" by (simp add: logged_frames)
  then have "admissible 50 ?ev ?s0" by (simp add: wire_request_def log_fits_def eval_limits)
  moreover have "length (w_file (sys_writer s)) < 2 ^ 64" using s(4) by (simp add: eval_limits)
  ultimately have "reachable ''a.aof'' FsyncAlways 50 ?E (ev_time ?ev) s"
    by (intro reachable.step [OF start _ _ _ s(1)]) simp_all
  then show ?thesis using s(2-5) by (intro exI [of _ s]) simp
qed

theorem log_always_recovers_witness:
  "\<exists>n db2. replay sample_env (\<lambda>_ _. 30) [encode (Array [Bulk ''INCR'', Bulk ''n'']), ''*''] new_db =
      (n, db2, encode (Array [Bulk ''INCR'', Bulk ''n'']))"
proof -
  let ?f = "Array [Bulk ''INCR'', Bulk ''n'']"
  obtain s where s: "reachable ''a.aof'' FsyncAlways 50 sample_env 10 s" "\<not> si_write_failed (w_stats (sys_writer s))"
      "w_file (sys_writer s) = encode ?f"
    using sample_reachable by blast
  have len: "w_synced (sys_writer s) = length (encode ?f)"
    using reachable_synced [OF s(1)] s(2,3) by (simp add: synced_inv_def)
  have "encode ?f = ''*'' @ drop 1 (encode ?f)" "drop 1 (encode ?f) \<noteq> []" by code_simp+
  moreover have "wire_frame ?f" by (simp add: eval_limits)
  ultimately have "recovers sample_env FsyncAlways 30 [encode ?f, ''*''] (sys_writer s) (db_live (xxh sample_env) 30 (sys_db s))"
    using log_always_recovers [OF s(1,2), of 30 ?f "''*''" "drop 1 (encode ?f)" "length (encode ?f) + 1" "[encode ?f, ''*'']" sample_env] s(3) len
    by (simp add: unat_max_expire del: encode.simps)
  then show ?thesis using s(3) by (auto simp: recovers_def simp del: encode.simps)
qed

text \<open>
  C20. The bookkeeping of rewrites: the flag of the statistics is set exactly while a rewrite is under
  way, so that two never overlap; frames are buffered only between the snapshot and its end, at
  most 64 MiB of them; and what a rewrite buffers is exactly what leads from the snapshot to the
  current content.
\<close>

theorem rewrite_bookkeeping:
  assumes "reachable path policy later E t s" "unat later + unat MAX_EXPIRE_AT_MS < 2 ^ 128"
  shows "(si_rewrite_in_progress (w_stats (sys_writer s)) \<longleftrightarrow> sys_phase s \<noteq> Idle) \<and>
    (case w_buffer (sys_writer s) of
       None \<Rightarrow> True
     | Some b \<Rightarrow> length (concat (rb_frames b)) \<le> MAX_REWRITE_BUFFER_BYTES \<and>
         (\<exists>fs m0. rb_frames b = map encode fs \<and> leads_in t later fs m0 (db_live (xxh E) t (sys_db s)) \<and>
            (case sys_phase s of
               Snapshotted es \<Rightarrow> m0 = map_of es
             | TempWritten \<Rightarrow> (case w_temp (sys_writer s) of Some file \<Rightarrow> log_for t later file m0 | None \<Rightarrow> False)
             | _ \<Rightarrow> False)))"
proof -
  have inv: "sys_inv (xxh E) t later s" using reachable_inv [OF assms] by simp
  have "length (concat (rb_frames b)) \<le> MAX_REWRITE_BUFFER_BYTES" if "w_buffer (sys_writer s) = Some b" for b
    using inv that by (auto simp: sys_inv_def writer_inv_def writer_ok_def buffer_ok_def)
  with inv show ?thesis
    by (cases "w_buffer (sys_writer s)"; cases "sys_phase s")
       (auto simp: sys_inv_def writer_inv_def rewrite_inv_def phase_base_def)
qed

theorem rewrite_bookkeeping_witness:
  "\<exists>s. reachable ''a.aof'' FsyncAlways 50 sample_env 10 s \<and>
     (si_rewrite_in_progress (w_stats (sys_writer s)) \<longleftrightarrow> sys_phase s \<noteq> Idle)"
proof -
  obtain s where "reachable ''a.aof'' FsyncAlways 50 sample_env 10 s" using sample_reachable by blast
  then show ?thesis
    using rewrite_bookkeeping [of "''a.aof''" FsyncAlways 50 sample_env 10 s] by (auto simp: unat_max_expire)
qed

section \<open>A rewrite from begin to end\<close>

text \<open>
  C8. A rewrite that runs from begin to end in a state that an admissible run of the server reaches and in which
  no rewrite is under way.
  Whatever the file system answers, no rewrite is under way afterwards, its buffer and its temporary file
  are gone, and it is counted, with the outcome and the error that \<open>rewrite_now\<close> returns. When it succeeds, the
  log is the encoded snapshot and nothing else, synced, also when the writer had given up; when it fails, the
  log is that or what it was. If moreover the entries of the snapshot are within the limits of the replay and
  their deadlines outlive it (\<open>rewritable\<close>), and the rewrite has succeeded or the writer had not given up,
  then the log, as a crash leaves it, recovers to the current content, or with the policies \<open>everysec\<close> and
  \<open>no\<close>, when the rewrite has failed, to the content after some of the writes, those that were synced
  among them.
\<close>

theorem rewrite_now_compacts:
  assumes "reachable path policy later E t0 s" "sys_phase s = Idle" "unat later + unat MAX_EXPIRE_AT_MS < 2 ^ 128"
    "rewrite_now E policy t c err io finished (sys_db s) (sys_writer s) = (r, w')"
  shows "accounted r (sys_writer s) w' \<and>
    (r = Inr () \<longrightarrow> is_snapshot E c (aof_snapshot_entries t (sys_db s)) w') \<and>
    (r \<noteq> Inr () \<longrightarrow> w_file w' = w_file (sys_writer s) \<and> w_synced w' = w_synced (sys_writer s) \<or>
      is_snapshot E c (aof_snapshot_entries t (sys_db s)) w') \<and>
    (t0 \<le> t \<and> t \<le> finished \<and> (\<forall>j. c j 0 \<le> finished) \<and>
     (\<forall>(k, e) \<in> set (aof_snapshot_entries t (sys_db s)). rewritable later e) \<and>
     (r = Inr () \<or> \<not> si_write_failed (w_stats (sys_writer s))) \<and> finished \<le> now \<and> now \<le> later \<and>
     wire_frame g \<and> encode g = torn @ lost \<and> lost \<noteq> [] \<and> w_synced w' \<le> n \<and> concat chunks = take n (w_file w' @ torn) \<longrightarrow>
       recovers E' policy now chunks w' (db_live (xxh E) now (sys_db s)))"
proof -
  have inv: "sys_inv (xxh E) t0 later s" "iterates E" using reachable_inv [OF assms(1,3)] by simp_all
  note out = rewrite_now_cases [OF assms(4) idle_writer [OF inv(1) assms(2)]]
  have rec: "recovers E' policy now chunks w' (db_live (xxh E) now (sys_db s))"
    if h: "t0 \<le> t" "t \<le> finished" "\<forall>j. c j 0 \<le> finished"
      "\<forall>(k, e) \<in> set (aof_snapshot_entries t (sys_db s)). rewritable later e"
      "r = Inr () \<or> \<not> si_write_failed (w_stats (sys_writer s))" "finished \<le> now" "now \<le> later"
      "wire_frame g" "encode g = torn @ lost" "lost \<noteq> []" "w_synced w' \<le> n" "concat chunks = take n (w_file w' @ torn)"
  proof -
    have "finished \<le> later" "t0 \<le> finished" using h(1,2,6,7) by simp_all
    then have l: "log_since finished later (w_synced w') (w_file w') (db_live (xxh E) finished (sys_db s))"
        "db_live (xxh E) now (sys_db s) = db_live (xxh E) finished (sys_db s)"
      using rewrite_now_log [OF inv(1) assms(2) inv(2) assms(3) h(1,2) _ h(3,4) assms(4) h(5)]
        rewrite_now_live [OF inv(1) _ h(6,7)] by simp_all
    have "policy = FsyncAlways \<longrightarrow> w_synced w' = length (w_file w')"
      using out h(5) reachable_synced [OF assms(1)] unfolding is_snapshot_def synced_inv_def by metis
    from crash_recovers_log [OF l(1) this h(6-12)] show ?thesis by (simp add: l(2))
  qed
  show ?thesis by (intro conjI; (use out in blast)?) (use rec in blast)
qed

theorem rewrite_now_compacts_witness:
  "\<exists>s w'. reachable ''a.aof'' FsyncAlways 50 sample_env 10 s \<and>
    w_file (sys_writer s) = encode (Array [Bulk ''INCR'', Bulk ''n'']) \<and>
    rewrite_now sample_env FsyncAlways 20 (\<lambda>_ _. 20) None no_failures 30 (sys_db s) (sys_writer s) = (Inr (), w') \<and>
    w_file w' = encode (Array [Bulk ''SET'', Bulk ''n'', Bulk ''1'']) \<and>
    (\<exists>n db2. replay sample_env (\<lambda>_ _. 40) [w_file w' @ ''*''] new_db = (n, db2, w_file w'))"
proof -
  let ?f = "Array [Bulk ''SET'', Bulk ''n'', Bulk ''1'']"
  obtain s where s: "reachable ''a.aof'' FsyncAlways 50 sample_env 10 s" "sys_phase s = Idle"
      "\<not> si_write_failed (w_stats (sys_writer s))" "w_file (sys_writer s) = encode (Array [Bulk ''INCR'', Bulk ''n''])"
      "db_live (xxh sample_env) 10 (sys_db s) = [''n'' \<mapsto> string_entry ''1'' None]"
    using sample_reachable by blast
  have inv: "sys_inv (xxh sample_env) 10 50 s" using reachable_inv [OF s(1)] by (simp add: unat_max_expire)
  then have wf: "db_wf (xxh sample_env) (sys_db s)" by (simp add: sys_inv_def db_inv_def)
  have "db_live (xxh sample_env) 20 (sys_db s) = [''n'' \<mapsto> string_entry ''1'' None]"
    using rewrite_now_live [OF inv, of 10 20] s(5) by simp
  then have snap: "aof_snapshot_entries 20 (sys_db s) = [(''n'', string_entry ''1'' None)]" by (rule single_snapshot [OF wf])
  have len: "length (encode ?f) = 27" and f: "encode ?f = ''*'' @ drop 1 (encode ?f)" "drop 1 (encode ?f) \<noteq> []"
    by code_simp+
  then have ok: "replay_len ?f" by (simp add: replay_len_def MAX_AOF_BUFFERED_FRAME_BYTES_def del: encode.simps)
  have frames: "write_snapshot_entries (hash_iter sample_env) (\<lambda>_ _. 20) 0 [(''n'', string_entry ''1'' None)] = Inr [?f]"
    using ok by (simp add: write_snapshot_entry_def entry_expired_def write_string_snapshot_def set_frame_eq
        frame_is_replayable_eq write_frame_ok then_write_def)
  obtain r w' where rw: "rewrite_now sample_env FsyncAlways 20 (\<lambda>_ _. 20) None no_failures 30 (sys_db s) (sys_writer s) = (r, w')"
    by force
  have "write_snapshot_entries (hash_iter sample_env) (\<lambda>_ _. 20) 0 (aof_snapshot_entries 20 (sys_db s)) = Inr [?f]"
    unfolding snap by (rule frames)
  then have out: "r = Inr ()" "w_file w' = encode ?f"
    using rewrite_now_succeeds [of sample_env "\<lambda>_ _. 20" 20 "sys_db s" "[?f]" "sys_writer s" FsyncAlways 30]
      rewrite_now_cases [OF rw] rw idle_writer [OF inv s(2)] by (simp_all add: is_snapshot_def del: encode.simps)
  moreover from this have synced: "w_synced w' = length (w_file w')"
    using rewrite_now_cases [OF rw idle_writer [OF inv s(2)]] unfolding is_snapshot_def by blast
  moreover have "length (encode ?f) < 2 ^ 64" by (simp add: len del: encode.simps)
  moreover have "wire_frame ?f" by (simp add: eval_limits)
  moreover have "rewritable 50 (string_entry ''1'' None)" by (simp add: rewritable_def eval_limits)
  ultimately have "recovers sample_env FsyncAlways 40 [w_file w' @ ''*''] w' (db_live (xxh sample_env) 40 (sys_db s))"
    using rewrite_now_compacts [OF s(1,2) _ rw, where now = 40 and g = ?f and torn = "''*''" and lost = "drop 1 (encode ?f)" and
        n = "length (w_file w') + 1" and chunks = "[w_file w' @ ''*'']" and E' = sample_env] f
    by (simp add: unat_max_expire snap is_snapshot_def del: encode.simps)
  then have "\<exists>n db2. replay sample_env (\<lambda>_ _. 40) [w_file w' @ ''*''] new_db = (n, db2, w_file w')"
    using synced by (auto simp: recovers_def)
  then show ?thesis using s(1,4) rw out by (intro exI [of _ s] exI [of _ w'] conjI) simp_all
qed

text \<open>
  C21. \<open>BGREWRITEAOF\<close> starts the same rewrite in the background: when no other task comes in between, the
  request and the steps of the rewrite, failures included, leave the database as it is and the log,
  its temporary file and its statistics as \<open>rewrite_now\<close> does.
\<close>

theorem background_rewrite_is_rewrite_now:
  assumes "from_frame t0 f = Inr BgRewriteAof" "\<not> si_rewrite_in_progress (w_stats (sys_writer s))"
    "w_buffer (sys_writer s) = None"
    "rewrite_now E policy t c err io finished (sys_db s) (sys_writer s) = (r, w')"
  shows "offered E path policy (ClientRequest t0 io0 st f # rewrite_events t c err io finished) s =
    s\<lparr>sys_writer := w', sys_phase := Idle\<rparr>"
proof -
  have "sys_next E path policy (ClientRequest t0 io0 st f) s = Some (scheduled s)"
    using assms(1,2) by (rule request_schedules)
  then show ?thesis using rewrite_now_steps [OF assms(4,2,3), of path] by (simp add: rewrite_events_def)
qed

theorem background_rewrite_is_rewrite_now_witness:
  "let s = \<lparr>sys_db = sample_db, sys_writer = spawn_writer ''junk'', sys_phase = Idle\<rparr> in
   sys_writer (offered sample_env ''a.aof'' FsyncNo
     (ClientRequest 5 no_failures (rq_state (sample_request 0 Null)) (Array [Bulk ''BGREWRITEAOF'']) # rewrite_events 10 (\<lambda>_ _. 10) None no_failures 10) s) =
   snd (rewrite_now sample_env FsyncNo 10 (\<lambda>_ _. 10) None no_failures 10 sample_db (spawn_writer ''junk''))"
proof -
  have "is_command_name ''BGREWRITEAOF''" by (simp add: is_command_name_def to_ascii_uppercase_def to_upper_def byte_in_def)
  then have f: "from_frame 5 (Array [Bulk ''BGREWRITEAOF'']) = Inr BgRewriteAof"
    using from_frame_name [of "''BGREWRITEAOF''" 5 "[]"] by (simp add: parse_command_def parse_connection_command_def)
  obtain r w' where rw: "rewrite_now sample_env FsyncNo 10 (\<lambda>_ _. 10) None no_failures 10 sample_db (spawn_writer ''junk'') = (r, w')"
    by force
  let ?s = "\<lparr>sys_db = sample_db, sys_writer = spawn_writer ''junk'', sys_phase = Idle\<rparr>"
  have "\<not> si_rewrite_in_progress (w_stats (sys_writer ?s))" "w_buffer (sys_writer ?s) = None"
    by (simp_all add: spawn_writer_def default_stats_def)
  then show ?thesis
    unfolding Let_def rw
    using background_rewrite_is_rewrite_now [OF f, of ?s sample_env FsyncNo 10 "\<lambda>_ _. 10" None no_failures 10 r w'] rw
    by (simp del: offered.simps)
qed

section \<open>Writes that are under way\<close>

text \<open>
  C4. The steps of a write are taken apart: it gets the gate, executes, waits for the log, and is undone
  when the log refuses, while other commands, sweeps, timers and a rewrite go on. A run is \<open>gate_admissible\<close> when the
  deadlines it sets fit an \<open>i64\<close> and have passed already or outlive the recovery, its logged frames and rewritten
  entries are within the limits of the replay, and the last two file operations of a rewrite succeed; along it the
  clock does not go backwards, the log stays below \<open>2 ^ 64\<close> bytes, and no process dies whose writer has given up. In every state of such a run in which the
  writer has not given up, also in the middle of a write: whatever a crash leaves of the log (\<open>recovers\<close>:
  at least the synced bytes, and perhaps the beginning of one more frame), recovery gives the content after some
  of the logged writes, in their order, those that were synced among them; the frames that are lost are exactly
  what leads from there to the content without the write that is under way. With the policy \<open>always\<close>
  nothing is lost: every acknowledged write is there, and no other.
\<close>

theorem gated_log_recovers:
  assumes "gate_reachable path policy later E t g" "\<not> si_write_failed (w_stats (sys_writer (gt_sys g)))"
    "unat later + unat MAX_EXPIRE_AT_MS < 2 ^ 128" "t \<le> now" "now \<le> later"
    "wire_frame f" "encode f = torn @ lost" "lost \<noteq> []"
    "w_synced (sys_writer (gt_sys g)) \<le> k" "concat chunks = take k (w_file (sys_writer (gt_sys g)) @ torn)"
  shows "recovers E' policy now chunks (sys_writer (gt_sys g)) (db_live (xxh E) now (settled_db (xxh E) g))"
proof -
  have inv: "sys_inv (xxh E) t later (settled_sys (xxh E) g)"
    using gate_reachable_inv [OF assms(1,3)] by (simp add: gate_inv_def)
  then have "log_since t later (w_synced (sys_writer (gt_sys g))) (w_file (sys_writer (gt_sys g)))
      (db_live (xxh E) t (settled_db (xxh E) g))"
    using assms(2) log_invD [of t later "sys_writer (settled_sys (xxh E) g)"] by (simp add: sys_inv_def)
  moreover have "db_live (xxh E) now (settled_db (xxh E) g) = db_live (xxh E) t (settled_db (xxh E) g)"
    using inv assms(4,5) by (intro db_live_passes [of _ _ later]) (simp_all add: sys_inv_def)
  ultimately show ?thesis
    using crash_recovers_log [OF _ _ assms(4-10)] gate_reachable_synced [OF assms(1)] assms(2) by (simp add: synced_inv_def)
qed

text \<open>An \<open>INCR\<close> on an empty server that has been executed and waits for the log.\<close>

lemma sample_gated:
  "\<exists>g rb. gate_reachable ''a.aof'' FsyncAlways 50 sample_env 10 g \<and> w_file (sys_writer (gt_sys g)) = [] \<and>
     \<not> si_write_failed (w_stats (sys_writer (gt_sys g))) \<and> db_wf (xxh sample_env) (sys_db (gt_sys g)) \<and>
     gt_gate g = Applied (Integer 1) (Array [Bulk ''INCR'', Bulk ''n'']) rb \<and>
     db_live (xxh sample_env) 10 (sys_db (gt_sys g)) = [''n'' \<mapsto> string_entry ''1'' None] \<and>
     db_live (xxh sample_env) 10 (settled_db (xxh sample_env) g) = Map.empty"
proof -
  let ?E = sample_env and ?f = "Array [Bulk ''INCR'', Bulk ''n'']"
  let ?rb = "snapshot_entries (xxh ?E) [''n''] (new_db :: nat db)"
  let ?start = "\<lparr>gt_sys = \<lparr>sys_db = new_db, sys_writer = spawn_writer [], sys_phase = Idle\<rparr>, gt_gate = Free\<rparr>"
  let ?take = "TakeGate 10 10 10 ?f :: nat gate_event" and ?apply = "ApplyWrite 10 :: nat gate_event"
  let ?prep = "?start\<lparr>gt_gate := Prepared (Incr ''n'') ?f ?rb\<rparr>"
  obtain r db1 where a: "apply_cmd ?E (\<lambda>_. 10) (Incr ''n'') new_db = (r, db1)" by force
  have "show_i64 1 = ''1''" by code_simp
  then have r: "r = Integer 1" and live: "db_live (xxh ?E) 10 db1 = [''n'' \<mapsto> string_entry ''1'' None]"
    using apply_refines [OF db_wf_new, of ?E 10 "Incr ''n''"] a
    by (auto simp: implements_def reply_def at_key_def spec_incr_def db_live_new)
  let ?done = "\<lparr>gt_sys = \<lparr>sys_db = db1, sys_writer = spawn_writer [], sys_phase = Idle\<rparr>, gt_gate = Applied r ?f ?rb\<rparr>"
  have f: "from_frame 10 ?f = Inr (Incr ''n'')" by (simp add: logged_frames)
  have start: "gate_reachable ''a.aof'' FsyncAlways 50 ?E 0 ?start"
    by (rule gate_reachable.first [where c = "\<lambda>_ _. 0"]) (simp_all add: iterates_def sample_env_def boot_def replay_nothing)
  have take: "gate_next ?E ''a.aof'' FsyncAlways ?take ?start = Some ?prep"
    using f by (simp add: command_one_def)
  have prep: "gate_reachable ''a.aof'' FsyncAlways 50 ?E (gate_time ?take) ?prep"
    by (rule gate_reachable.step [OF start _ _ _ take]) (simp_all add: f wire_request_def log_fits_def eval_limits spawn_writer_def)
  have appl: "gate_next ?E ''a.aof'' FsyncAlways ?apply ?prep = Some ?done"
    using a r by (simp del: apply_cmd.simps)
  have "gate_reachable ''a.aof'' FsyncAlways 50 ?E (gate_time ?apply) ?done"
    by (rule gate_reachable.step [OF prep _ _ _ appl]) (simp_all add: spawn_writer_def)
  moreover have keeps: "keeps (xxh ?E) [''n''] new_db db1"
    using apply_keeps [OF db_wf_new, of ?E "Incr ''n''" "\<lambda>_. 10"] a by simp
  then have "db_live (xxh ?E) 10 (restore_entries (xxh ?E) ?rb db1) = Map.empty"
    using db_live_of_at [OF rollback_restores(2) [OF db_wf_new keeps], of 10] by (simp add: db_live_new)
  moreover have "db_wf (xxh ?E) db1" using keeps by (simp add: keeps_def)
  ultimately show ?thesis
    using r live by (intro exI [of _ ?done] exI [of _ ?rb]) (simp add: spawn_writer_def default_stats_def)
qed

theorem gated_log_recovers_witness:
  "\<exists>g n db2. gate_reachable ''a.aof'' FsyncAlways 50 sample_env 10 g \<and> gt_gate g \<noteq> Free \<and>
     replay sample_env (\<lambda>_ _. 30) [''*''] new_db = (n, db2, []) \<and> content_eq (db_live (xxh sample_env) 30 db2) Map.empty"
proof -
  let ?f = "Array [Bulk ''INCR'', Bulk ''n'']"
  obtain g rb where g: "gate_reachable ''a.aof'' FsyncAlways 50 sample_env 10 g" "w_file (sys_writer (gt_sys g)) = []"
      "\<not> si_write_failed (w_stats (sys_writer (gt_sys g)))" "gt_gate g = Applied (Integer 1) ?f rb"
      "db_live (xxh sample_env) 10 (settled_db (xxh sample_env) g) = Map.empty"
    using sample_gated by blast
  have inv: "db_inv (xxh sample_env) 10 50 (settled_db (xxh sample_env) g)"
    using gate_reachable_inv [OF g(1)] by (simp add: gate_inv_def sys_inv_def unat_max_expire)
  have live: "db_live (xxh sample_env) 30 (settled_db (xxh sample_env) g) = Map.empty"
    using db_live_passes [OF inv, of 30] g(5) by simp
  have "encode ?f = ''*'' @ drop 1 (encode ?f)" "drop 1 (encode ?f) \<noteq> []" by code_simp+
  moreover have "wire_frame ?f" by (simp add: eval_limits)
  moreover have "w_synced (sys_writer (gt_sys g)) = 0"
    using gate_reachable_synced [OF g(1)] g(2,3) by (simp add: synced_inv_def)
  ultimately have "recovers sample_env FsyncAlways 30 [''*''] (sys_writer (gt_sys g)) Map.empty"
    using gated_log_recovers [OF g(1,3), of 30 ?f "''*''" "drop 1 (encode ?f)" 1 "[''*'']" sample_env] g(2) live
    by (simp add: unat_max_expire del: encode.simps)
  then have "\<exists>n db2. replay sample_env (\<lambda>_ _. 30) [''*''] new_db = (n, db2, []) \<and>
      content_eq (db_live (xxh sample_env) 30 db2) Map.empty"
    using g(2) by (auto simp: recovers_def)
  then show ?thesis using g(1,4) by auto
qed

text \<open>
  C37. Commands that only read do not take the gate, so they can see a write that is never acknowledged: another
  client reads the value of an \<open>INCR\<close> that waits for the log, the log fails, the write is undone and its
  client gets an error, and the value that was read has never existed.
\<close>

theorem dirty_read:
  "\<exists>g g1 g2. gate_reachable ''a.aof'' FsyncAlways 50 sample_env 10 g \<and>
     fst (apply_cmd sample_env (\<lambda>_. 10) (Get ''n'') (sys_db (gt_sys g))) = Bulk ''1'' \<and>
     gate_next sample_env ''a.aof'' FsyncAlways (LogWrite 10 (no_failures\<lparr>io_write := Some (0, ''io'')\<rparr>)) g = Some g1 \<and>
     gate_next sample_env ''a.aof'' FsyncAlways (UndoWrite 10) g1 = Some g2 \<and>
     gt_gate g2 = Free \<and> w_file (sys_writer (gt_sys g2)) = [] \<and>
     fst (apply_cmd sample_env (\<lambda>_. 10) (Get ''n'') (sys_db (gt_sys g2))) = Null"
proof -
  let ?E = sample_env and ?f = "Array [Bulk ''INCR'', Bulk ''n'']" and ?io = "no_failures\<lparr>io_write := Some (0, ''io'')\<rparr>"
  obtain g rb where g: "gate_reachable ''a.aof'' FsyncAlways 50 ?E 10 g" "w_file (sys_writer (gt_sys g)) = []"
      "\<not> si_write_failed (w_stats (sys_writer (gt_sys g)))" "db_wf (xxh ?E) (sys_db (gt_sys g))"
      "gt_gate g = Applied (Integer 1) ?f rb" "db_live (xxh ?E) 10 (sys_db (gt_sys g)) = [''n'' \<mapsto> string_entry ''1'' None]"
      "db_live (xxh ?E) 10 (settled_db (xxh ?E) g) = Map.empty"
    using sample_gated by blast
  have inv: "gate_inv (xxh ?E) 10 50 g" using gate_reachable_inv [OF g(1)] by (simp add: unat_max_expire)
  then have "size_ok (sys_writer (gt_sys g))" using g(3,5) by (simp add: gate_inv_def sys_inv_def writer_inv_def settled_sys_def)
  then have size: "si_current_size (w_stats (sys_writer (gt_sys g))) = 0" using g(2) by (simp add: size_ok_def)
  obtain w where w: "handle_write FsyncAlways ?io ?f (sys_writer (gt_sys g)) = (Inl ''io'', w)" "w_file w = []"
    using g(2,3) size
    by (simp add: handle_write_def write_logged_def write_one_def write_all_def rollback_active_file_def no_failures_def
        set_len_def sync_data_def Let_def del: encode.simps)
  define g1 where "g1 = g\<lparr>gt_sys := (gt_sys g)\<lparr>sys_writer := w\<rparr>, gt_gate := Undoing ''io'' rb\<rparr>"
  define g2 where "g2 = g1\<lparr>gt_sys := (gt_sys g1)\<lparr>sys_db := settled_db (xxh ?E) g\<rparr>, gt_gate := Free\<rparr>"
  have "gate_next ?E ''a.aof'' FsyncAlways (LogWrite 10 ?io) g = Some g1" using w(1) g(5) by (simp add: g1_def del: encode.simps)
  moreover have "gate_next ?E ''a.aof'' FsyncAlways (UndoWrite 10) g1 = Some g2" using g(5) by (simp add: g1_def g2_def)
  moreover have "fst (apply_cmd ?E (\<lambda>_. 10) (Get ''n'') (sys_db (gt_sys g))) = Bulk ''1''"
    using apply_refines [OF g(4), of 10 "Get ''n''"] g(6) by (simp add: implements_def reply_def spec_get_def del: apply_cmd.simps)
  moreover have "fst (apply_cmd ?E (\<lambda>_. 10) (Get ''n'') (settled_db (xxh ?E) g)) = Null"
    using apply_refines [OF settled_db_wf [OF inv], of 10 "Get ''n''"] g(7)
    by (simp add: implements_def reply_def spec_get_def del: apply_cmd.simps)
  ultimately show ?thesis
    using g(1) w(2) by (intro exI [of _ g] exI [of _ g1] exI [of _ g2]) (simp add: g1_def g2_def)
qed

text \<open>
  C35. The size that a failed write is rolled back to can be stale: when the last fsync of a finished
  rewrite fails, the new file is in place but the recorded size is still that of the old one, and
  the next write that fails cuts acknowledged data off the log.
\<close>

theorem rollback_can_cut_log:
  "\<exists>w io w1 e io' w2 e'. writer_ok w \<and> size_ok w \<and>
     writer_step FsyncAlways io MFinishRewrite w = (Inl e, w1) \<and> \<not> si_write_failed (w_stats w1) \<and>
     writer_step FsyncAlways io' (MWrite frame) w1 = (Inl e', w2) \<and> length (w_file w2) < length (w_file w1)"
proof -
  define w where "w = (spawn_writer ''a'')\<lparr>w_temp := Some ''abc'', w_buffer := Some rewrite_buffer_new\<rparr>"
  define io where "io = no_failures\<lparr>io_active_sync := Some ''io''\<rparr>"
  define io' where "io' = no_failures\<lparr>io_write := Some (0, ''io'')\<rparr>"
  have ok: "writer_ok w" "size_ok w"
    by (simp_all add: w_def writer_ok_def buffer_ok_def rewrite_buffer_new_def size_ok_def spawn_writer_def
        default_stats_def MAX_REWRITE_BUFFER_BYTES_def)
  obtain w1 where w1: "writer_step FsyncAlways io MFinishRewrite w = (Inl ''io'', w1)" "w_file w1 = ''abc''"
      "\<not> si_write_failed (w_stats w1)" "si_current_size (w_stats w1) = 1"
    by (simp add: finish_rewrite_file_def w_def io_def no_failures_def rewrite_buffer_new_def spawn_writer_def
        default_stats_def sync_data_def Let_def)
  obtain w2 where "writer_step FsyncAlways io' (MWrite frame) w1 = (Inl ''io'', w2)" "w_file w2 = ''a''"
    using w1(2-4)
    by (simp add: write_logged_def write_one_def write_all_def rollback_active_file_def io'_def no_failures_def
        set_len_def sync_data_def Let_def mark_write_failed_def)
  with ok w1(1-3) show ?thesis by fastforce
qed

end
