(* ===== verification/Service.thy ===== *)
theory Service
  imports Network Sessions Durability
begin

text \<open>The properties of the whole server, with all its clients and the bytes they send.\<close>

section \<open>The log\<close>

text \<open>
  C3. The whole server, with any number of clients, whatever bytes they send and in whatever pieces, however their
  requests, subscribed modes, errors and ends interleave with each other, with the sweeps, the fsync timer and
  rewrites, and over any number of crashes and restarts. A run is \<open>net_admissible\<close> when the deadlines that
  commands set fit an \<open>i64\<close> and have passed already or outlive the recovery, the logged frames and the entries of a
  rewrite are within the limits of the replay, and the last two file operations of a rewrite succeed; along it
  the clock does not go backwards, the log stays below \<open>2 ^ 64\<close> bytes, and no process dies whose writer has given
  up. The server is then a refinement of \<^const>\<open>reachable\<close>. In every state of such a run in which the writer has not given up: whatever a crash
  leaves of the log (\<open>recovers\<close>: at least the synced bytes, and perhaps the beginning of one more frame),
  recovery gives the content after some of the logged writes, in their order, those that were synced among them, and
  the frames that are lost are exactly what leads from there to the current content. With the policy
  \<open>always\<close> nothing is lost, and recovery gives the current content.
\<close>

theorem server_log_recovers:
  assumes "net_reachable path policy later E t n" "\<not> si_write_failed (w_stats (sys_writer (nw_sys n)))"
    "unat later + unat MAX_EXPIRE_AT_MS < 2 ^ 128" "t \<le> now" "now \<le> later"
    "wire_frame g" "encode g = torn @ lost" "lost \<noteq> []"
    "w_synced (sys_writer (nw_sys n)) \<le> k" "concat chunks = take k (w_file (sys_writer (nw_sys n)) @ torn)"
  shows "reachable path policy later E t (nw_sys n) \<and>
    recovers E' policy now chunks (sys_writer (nw_sys n)) (db_live (xxh E) now (sys_db (nw_sys n)))"
  using network_runs [OF assms(1)] reachable_replays [OF network_runs [OF assms(1)] assms(2-10)] by blast

text \<open>A server with clients that have connected and of which nothing has been read.\<close>

definition sample_system :: "nat system" where
  "sample_system = \<lparr>sys_db = new_db, sys_writer = spawn_writer [], sys_phase = Idle\<rparr>"

definition sample_net :: "acceptor \<Rightarrow> unit client list \<Rightarrow> (nat, unit) network" where
  "sample_net a cs = \<lparr>nw_sys = sample_system, nw_acceptor = a, nw_clients = cs\<rparr>"

lemmas sample_net_eval =
  sample_net_def sample_system_def client_at_def set_client_def spawn_writer_def net_admissible_def

abbreviation sample_reach :: "u128 \<Rightarrow> (nat, unit) network \<Rightarrow> bool" where
  "sample_reach \<equiv> net_reachable ''a.aof'' FsyncAlways 50 sample_env"

lemma sample_step_net:
  "sample_reach t n \<Longrightarrow> t \<le> net_time ev \<Longrightarrow> net_time ev \<le> 50 \<Longrightarrow> net_admissible 50 ev n \<Longrightarrow>
     net_next sample_env ''a.aof'' FsyncAlways ev n = Some (out, n') \<Longrightarrow>
     length (w_file (sys_writer (nw_sys n'))) < 2 ^ 64 \<Longrightarrow> sample_reach (net_time ev) n'"
  by (rule net_reachable.step)

lemma sample_empty: "sample_reach 0 (sample_net (server_state_new 0) [])"
proof -
  have "sample_reach 0 (fresh_network 0 new_db (spawn_writer []))"
    by (rule net_reachable.first [where c = "\<lambda>_ _. 0"]) (simp_all add: iterates_def sample_env_def boot_def replay_nothing)
  then show ?thesis by (simp add: fresh_network_def sample_net_def sample_system_def)
qed

lemma accept_free: "ac_slots a \<noteq> 0 \<Longrightarrow> \<exists>b. accept_one a = (True, b) \<and> ac_slots a = Suc (ac_slots b)"
  by (simp add: accept_one_def)

lemma sample_connects:
  assumes "sample_reach t (sample_net a cs)" "t \<le> 10" "ac_slots a \<noteq> 0"
  shows "\<exists>a'. sample_reach 10 (sample_net a' (cs @ [Serving ([], reads)])) \<and> ac_slots a = Suc (ac_slots a')"
proof -
  obtain b where a: "accept_one a = (True, b)" "ac_slots a = Suc (ac_slots b)"
    using accept_free [OF assms(3)] by blast
  have "sample_reach (net_time (Connects 10 reads :: nat net_event)) (sample_net b (cs @ [Spawned reads]))"
    by (rule sample_step_net [OF assms(1)]) (use assms(2) a(1) in \<open>simp_all add: sample_net_eval\<close>)
  then have "sample_reach (net_time (Starts 10 (length cs) :: nat net_event))
      (sample_net (client_guard_new b) (cs @ [Serving ([], reads)]))"
    by (rule sample_step_net) (simp_all add: sample_net_eval)
  then show ?thesis using a(2) by (auto simp: client_guard_new_def)
qed

lemma read_one:
  assumes "wire_frame f" "concat chunks = encode f" "length (encode f) \<le> MAX_BUFFERED_FRAME_BYTES"
  shows "\<exists>s. read_conn ([], map Received chunks) = Inr (Some f, s)"
  using read_frame_stream [of f "[]" chunks "[]"] assms by (auto simp: read_conn_def)


lemma write_integer: "write_frame (Integer n) = Inr (encode (Integer n))"
  using length_show_i64 [of n] by (intro write_frame_fits) (simp add: limits_values)

lemma sample_served:
  "\<exists>n. sample_reach 10 n \<and> \<not> si_write_failed (w_stats (sys_writer (nw_sys n))) \<and>
     w_file (sys_writer (nw_sys n)) = encode (Array [Bulk ''INCR'', Bulk ''n''])"
proof -
  let ?f = "Array [Bulk ''INCR'', Bulk ''n'']"
  let ?ev = "Serves 10 0 no_failures 0 :: nat net_event" and ?reads = "map Received [take 5 (encode ?f), drop 5 (encode ?f)]"
  have f: "wire_frame ?f" "length (encode ?f) \<le> MAX_BUFFERED_FRAME_BYTES" by (simp_all add: eval_limits)
  obtain a where a: "sample_reach 10 (sample_net a [Serving ([], ?reads)])"
    using sample_connects [OF sample_empty, of ?reads] by (auto simp: server_state_new_def MAX_CLIENTS_def)
  obtain c where c: "read_conn ([], ?reads) = Inr (Some ?f, c)" 
    using read_one [OF f(1) _ f(2), of "[take 5 (encode ?f), drop 5 (encode ?f)]"] by (auto simp del: encode.simps)
  obtain db logged s where h: "handle_request sample_env 10 10 (\<lambda>_. 10)
       (Some (aof_handle_of ''a.aof'' FsyncAlways no_failures (spawn_writer []))) (ac_state a) ?f new_db =
       ([Integer 1], Continue, db, logged)"
     "sys_next sample_env ''a.aof'' FsyncAlways (ClientRequest 10 no_failures (ac_state a) ?f) sample_system = Some s"
     "\<not> si_write_failed (w_stats (sys_writer s))" "w_file (sys_writer s) = encode ?f"
    using sample_incr [of "ac_state a"] unfolding sample_system_def by blast
  let ?n = "\<lparr>nw_sys = s, nw_acceptor = a, nw_clients = [Serving c]\<rparr>"
  have nxt: "net_next sample_env ''a.aof'' FsyncAlways ?ev (sample_net a [Serving ([], ?reads)]) =
      Some (encode (Integer 1), ?n)"
    using c h(1,2)
    by (simp add: sample_net_def client_at_def set_client_def serve_def serve_request_def Let_def write_integer
        sample_system_def del: encode.simps sys_next.simps)
  have "from_frame 10 ?f = Inr (Incr ''n'')" by (simp add: logged_frames)
  then have "net_admissible 50 ?ev (sample_net a [Serving ([], ?reads)])"
    using c by (simp add: sample_net_def net_admissible_def client_at_def log_fits_def del: encode.simps)
  from sample_step_net [OF a _ _ this nxt] h(3,4) show ?thesis
    by (intro exI [of _ ?n]) (simp add: eval_limits)
qed

theorem server_log_recovers_witness:
  "\<exists>n k db2. sample_reach 10 n \<and> replay sample_env (\<lambda>_ _. 30) [encode (Array [Bulk ''INCR'', Bulk ''n'']), ''*''] new_db =
      (k, db2, encode (Array [Bulk ''INCR'', Bulk ''n'']))"
proof -
  let ?f = "Array [Bulk ''INCR'', Bulk ''n'']"
  obtain n where n: "sample_reach 10 n" "\<not> si_write_failed (w_stats (sys_writer (nw_sys n)))"
      "w_file (sys_writer (nw_sys n)) = encode ?f"
    using sample_served by blast
  have "w_synced (sys_writer (nw_sys n)) = length (encode ?f)"
    using reachable_synced [OF network_runs [OF n(1)]] n(2,3) by (simp add: synced_inv_def)
  moreover have "encode ?f = ''*'' @ drop 1 (encode ?f)" "drop 1 (encode ?f) \<noteq> []" by code_simp+
  moreover have "wire_frame ?f" by (simp add: eval_limits)
  ultimately have "recovers sample_env FsyncAlways 30 [encode ?f, ''*''] (sys_writer (nw_sys n))
      (db_live (xxh sample_env) 30 (sys_db (nw_sys n)))"
    using server_log_recovers [OF n(1,2), of 30 ?f "''*''" "drop 1 (encode ?f)" "length (encode ?f) + 1" "[encode ?f, ''*'']" sample_env] n(3)
    by (simp add: unat_max_expire del: encode.simps)
  then show ?thesis using n(1,3) by (auto simp: recovers_def simp del: encode.simps)
qed

lemma sample_one:
  "wire_frame f \<Longrightarrow> length (encode f) \<le> MAX_BUFFERED_FRAME_BYTES \<Longrightarrow>
     \<exists>s. read_conn ([], [Received (encode f)]) = Inr (Some f, s)"
  using read_one [of f "[encode f]"] by simp

text \<open>Two clients: one is subscribed to a channel, the other is about to publish on it.\<close>

lemma sample_audience:
  "\<exists>n sub s c. sample_reach 10 n \<and> nw_clients n = [Attached sub s, Serving ([], [Received (encode (Array [Bulk ''PUBLISH'', Bulk ''a'', Bulk ''hi'']))])] \<and>
     sb_tasks sub = [(''a'', Some ())] \<and>
     read_conn ([], [Received (encode (Array [Bulk ''PUBLISH'', Bulk ''a'', Bulk ''hi'']))]) =
       Inr (Some (Array [Bulk ''PUBLISH'', Bulk ''a'', Bulk ''hi'']), c)"
proof -
  let ?f = "Array [Bulk ''SUBSCRIBE'', Bulk ''a'']" and ?g = "Array [Bulk ''PUBLISH'', Bulk ''a'', Bulk ''hi'']"
  let ?r = "[Received (encode ?f)]" and ?q = "[Received (encode ?g)]"
  let ?ev = "Serves 10 0 no_failures 5 :: nat net_event"
  have len: "length (encode ?f) \<le> 100" "length (encode ?g) \<le> 100" by code_simp+
  obtain c where c: "read_conn ([], ?r) = Inr (Some ?f, c)"
    using sample_one [of ?f] len by (auto simp: eval_limits simp del: encode.simps)
  obtain d where d: "read_conn ([], ?q) = Inr (Some ?g, d)"
    using sample_one [of ?g] len by (auto simp: eval_limits simp del: encode.simps)
  obtain a1 where a1: "sample_reach 10 (sample_net a1 [Serving ([], ?r)])" "ac_slots a1 = 1023"
    using sample_connects [OF sample_empty, of ?r] by (auto simp: server_state_new_def MAX_CLIENTS_def)
  obtain a where a: "sample_reach 10 (sample_net a [Serving ([], ?r), Serving ([], ?q)])"
    using sample_connects [OF a1(1), of ?q] a1(2) by auto
  have f: "from_frame 10 ?f = Inr (Subscribe [''a''])" by code_simp
  then have h: "handle_request sample_env 10 10 (\<lambda>_. 10) aof st ?f db = ([], EnterSubscribed [''a''], db, None)" for aof st db
    by (simp add: handle_request_def)
  have s: "sys_next sample_env ''a.aof'' FsyncAlways (ClientRequest 10 no_failures st ?f) sample_system = Some sample_system" for st
    using f h by (simp add: sample_system_def request_writer_def log_call_def)
  obtain db sub acks where e: "subscribe_loop counting_broadcast [''a''] new_db (new_subscription 5) = (acks, Stay, db, sub)"
      "sb_tasks sub = [(''a'', Some ())]"
    by (simp add: session_eval counting_broadcast_def del: encode.simps)
  let ?n = "(sample_net a [Attached sub c, Serving ([], ?q)])\<lparr>nw_sys := sample_system\<lparr>sys_db := db\<rparr>\<rparr>"
  have nxt: "net_next sample_env ''a.aof'' FsyncAlways ?ev (sample_net a [Serving ([], ?r), Serving ([], ?q)]) =
      Some (concat (map encode acks), ?n)"
    using c h s e(1)
    by (simp add: sample_net_def client_at_def set_client_def set_db_def serve_def serve_request_def Let_def
        enter_subscribed_def sample_env_def sample_system_def del: encode.simps sys_next.simps subscribe_loop.simps)
  have "net_admissible 50 ?ev (sample_net a [Serving ([], ?r), Serving ([], ?q)])"
    using c f by (simp add: sample_net_def net_admissible_def client_at_def log_fits_def del: encode.simps)
  from sample_step_net [OF a _ _ this nxt] d e(2) show ?thesis
    by (intro exI [of _ ?n] exI [of _ sub] exI [of _ c] exI [of _ d])
       (simp add: sample_net_def sample_system_def spawn_writer_def del: encode.simps)
qed

section \<open>Receivers\<close>

lemma receivers_are:
  assumes "net_reachable path policy later E t n" "broadcast_ok (chans E)"
  shows "subscribers (chans E) (sys_db (nw_sys n)) = receivers (nw_clients n)"
  using network_receivers [OF assms] by (simp add: receivers_inv_def)

text \<open>
  C22. At any time, whatever the clients do, the receivers of a channel are the clients whose session is
  subscribed to it, each once, and, of the sessions that ended with an error, those whose task has not
  received anything since; a channel without receivers is in the table only while a session has it among
  its tasks. No session holds more than \<open>PUBSUB_OUTPUT_CAP\<close> messages.
\<close>

theorem receivers_are_sessions:
  assumes "net_reachable path policy later E t n" "broadcast_ok (chans E)"
  shows "subscribers (chans E) (sys_db (nw_sys n)) = receivers (nw_clients n) \<and>
    orphans (chans E) (sys_db (nw_sys n)) \<subseteq> \<Union> (attends ` set (nw_clients n)) \<and> list_all session_ok (nw_clients n)"
  using network_receivers [OF assms] by (simp add: receivers_inv_def)

theorem receivers_are_sessions_witness:
  "\<exists>n. sample_reach 10 n \<and> subscribers counting_broadcast (sys_db (nw_sys n)) ''a'' = 1"
proof -
  obtain n sub s c where n: "sample_reach 10 n" "nw_clients n = [Attached sub s, Serving c]" "sb_tasks sub = [(''a'', Some ())]"
    using sample_audience by blast
  have "receivers (nw_clients n) ''a'' = 1" using n(2,3) by (simp add: receivers_def counts_def running_def)
  moreover have "broadcast_ok (chans sample_env)" by (simp add: sample_env_def broadcast_ok_counting)
  ultimately show ?thesis using receivers_are_sessions [OF n(1)] n(1) by (auto simp: sample_env_def)
qed

text \<open>
  C23. \<open>PUBLISH\<close>, on the wire: whatever has happened before, the reply is the number of sessions that receive from
  the channel, and the connection goes on with the rest of its input.
\<close>

theorem publish_counts_sessions:
  assumes "net_reachable path policy later E t n" "broadcast_ok (chans E)" "client_at n i = Some (Serving s)"
    "read_conn s = Inr (Some f, s')" "from_frame t' f = Inr (Publish channel msg)"
  shows "\<exists>n'. net_next E path policy (Serves t' i io writes) n =
      Some (encode (Integer (i64_of_usize (receivers (nw_clients n) channel))), n') \<and>
    nw_clients n' = (nw_clients n)[i := Serving s'] \<and> sys_writer (nw_sys n') = sys_writer (nw_sys n)"
proof -
  let ?st = "ac_state (nw_acceptor n)" and ?sys = "nw_sys n"
  obtain db where pub: "pubsub_publish (chans E) channel msg (sys_db ?sys) = (receivers (nw_clients n) channel, db)"
    using publish_reaches [OF assms(2)] receivers_are [OF assms(1,2)] by (metis prod.collapse)
  have h: "handle_request E t' t' (\<lambda>_. t') (Some (aof_handle_of path policy io (sys_writer ?sys))) ?st f (sys_db ?sys) =
      ([Integer (i64_of_usize (receivers (nw_clients n) channel))], Continue, db, None)"
    using assms(5) pub by (simp add: handle_request_def execute_def)
  then have "sys_next E path policy (ClientRequest t' io ?st f) ?sys = Some (?sys\<lparr>sys_db := db\<rparr>)"
    using assms(5) by (simp add: request_writer_def log_call_def)
  then show ?thesis
    using assms(3,4) h
    by (simp add: serve_def serve_request_def Let_def write_integer del: encode.simps sys_next.simps)
qed

theorem publish_counts_sessions_witness:
  "\<exists>n n'. sample_reach 10 n \<and> net_next sample_env ''a.aof'' FsyncAlways (Serves 20 1 no_failures 0) n =
     Some (encode (Integer 1), n')"
proof -
  let ?g = "Array [Bulk ''PUBLISH'', Bulk ''a'', Bulk ''hi'']"
  obtain n sub s c where n: "sample_reach 10 n" "nw_clients n = [Attached sub s, Serving ([], [Received (encode ?g)])]"
      "sb_tasks sub = [(''a'', Some ())]" "read_conn ([], [Received (encode ?g)]) = Inr (Some ?g, c)"
    using sample_audience by blast
  have "receivers (nw_clients n) ''a'' = 1" using n(2,3) by (simp add: receivers_def counts_def running_def)
  moreover have "broadcast_ok (chans sample_env)" by (simp add: sample_env_def broadcast_ok_counting)
  moreover have "from_frame 20 ?g = Inr (Publish ''a'' ''hi'')" by code_simp
  moreover have "client_at n 1 = Some (Serving ([], [Received (encode ?g)]))" using n(2) by (simp add: client_at_def)
  moreover have "i64_of_usize 1 = 1" by code_simp
  ultimately show ?thesis using publish_counts_sessions [OF n(1) _ _ n(4)] n(1) by metis
qed

section \<open>Slots\<close>

text \<open>
  C25. The limit on clients, in the whole server: every client that has not released its slot holds one of
  \<open>MAX_CLIENTS\<close>, whatever mode it is in and however its connection ended; \<open>connected_clients\<close>, which \<open>INFO\<close>
  reports, is the number of connections that are being handled, and a connection is turned away only when
  all slots are taken.
\<close>

theorem server_client_limit:
  assumes "net_reachable path policy later E t n"
  shows "ac_slots (nw_acceptor n) + length (filter waiting (nw_clients n)) + length (filter handled (nw_clients n)) +
      length (filter closing (nw_clients n)) = MAX_CLIENTS \<and>
    ss_connected_clients (ac_state (nw_acceptor n)) = length (filter handled (nw_clients n)) \<and>
    ss_total_connections (ac_state (nw_acceptor n)) = word_of_nat (length (nw_clients n)) \<and>
    (fst (accept_one (nw_acceptor n)) \<longleftrightarrow> ac_slots (nw_acceptor n) \<noteq> 0)"
  using network_lives [OF assms] clients_reachable_inv [of _ "lives n"]
  by (auto simp: clients_inv_def population_of_def accept_one_def)

theorem server_client_limit_witness:
  "\<exists>n. sample_reach 10 n \<and> ss_connected_clients (ac_state (nw_acceptor n)) = 2"
proof -
  obtain n sub s c where n: "sample_reach 10 n" "nw_clients n = [Attached sub s, Serving c]" using sample_audience by blast
  from server_client_limit [OF n(1)] n show ?thesis by (intro exI [of _ n]) simp
qed

end
