(* ===== verification/Locks.thy ===== *)
theory Locks
  imports Server
begin

text \<open>
  The granularity of the locks. A command on one key holds the mutex of its shard from beginning to end, but
  \<open>DEL\<close> and \<open>MSET\<close> (\<^verbatim>\<open>src/src/cmd/string.rs\<close>) lock a shard for each key, and \<open>sweep_once\<close>
  (\<^verbatim>\<open>src/src/db/expire.rs\<close>) locks the shards one by one. Commands that only read do not take the
  gate (\<^verbatim>\<open>src/src/server.rs\<close>), so they run between these sections. Here is shown what they can see.
\<close>

section \<open>Sections and steps\<close>

text \<open>What is done under one lock: the body of the loop of \<open>del\<close>, and that of \<open>mset\<close>.\<close>

definition del_section :: "(bytes \<Rightarrow> u64) \<Rightarrow> u128 \<Rightarrow> bytes \<Rightarrow> 'tx db \<Rightarrow> 'tx db" where
  [simp]: "del_section h now k db = snd (with_shard h k (del_key now k) db)"

definition mset_section :: "(bytes \<Rightarrow> u64) \<Rightarrow> bytes \<Rightarrow> bytes \<Rightarrow> 'tx db \<Rightarrow> 'tx db" where
  [simp]: "mset_section h k v db = snd (with_shard h k (mset_key k v) db)"

datatype lock_section = DelKey bytes | SetKey bytes bytes

fun run_section :: "(bytes \<Rightarrow> u64) \<Rightarrow> u128 \<Rightarrow> lock_section \<Rightarrow> 'tx db \<Rightarrow> 'tx db" where
  "run_section h now (DelKey k) db = del_section h now k db"
| "run_section h now (SetKey k v) db = mset_section h k v db"

fun lock_sections :: "command \<Rightarrow> lock_section list" where
  "lock_sections (Del keys) = map DelKey keys"
| "lock_sections (MSet pairs) =
     (if \<exists>p \<in> set pairs. \<not> bulk_response_fits (length (snd p)) then [] else map (\<lambda>(k, v). SetKey k v) pairs)"
| "lock_sections _ = []"

definition on_several_keys :: "command \<Rightarrow> bool" where
  "on_several_keys cmd \<longleftrightarrow> (case cmd of Del keys \<Rightarrow> True | MSet pairs \<Rightarrow> True | _ \<Rightarrow> False)"

text \<open>The body of the loop of \<open>sweep_once\<close>, for shard \<open>i\<close>.\<close>

definition sweep_at :: "u128 \<Rightarrow> nat \<Rightarrow> 'tx db \<Rightarrow> 'tx db" where
  "sweep_at now i db = db\<lparr>shards := (shards db)[i := sweep_shard now (shards db ! i)]\<rparr>"

text \<open>The commands that look at one key, and the key.\<close>

fun reads_key :: "command \<Rightarrow> bytes option" where
  "reads_key (Get k) = Some k"
| "reads_key (Strlen k) = Some k"
| "reads_key (Ttl k) = Some k"
| "reads_key (PTtl k) = Some k"
| "reads_key (LRange k a b) = Some k"
| "reads_key (LLen k) = Some k"
| "reads_key (LIndex k i) = Some k"
| "reads_key (HGet k f) = Some k"
| "reads_key (HKeys k) = Some k"
| "reads_key (HVals k) = Some k"
| "reads_key (HGetAll k) = Some k"
| "reads_key (HExists k f) = Some k"
| "reads_key (HLen k) = Some k"
| "reads_key _ = None"

text \<open>
  The steps at one instant, on the sections that a write still has to run, the database, and the replies that
  readers have got so far.
\<close>

inductive lock_step ::
  "('tx, 'rx) env \<Rightarrow> u128 \<Rightarrow> lock_section list \<times> 'tx db \<times> (command \<times> frame) list \<Rightarrow>
   lock_section list \<times> 'tx db \<times> (command \<times> frame) list \<Rightarrow> bool" for E now where
  run_one: "lock_step E now (s # todo, db, seen) (todo, run_section (xxh E) now s db, seen)"
| sweep_one: "i < SHARDS \<Longrightarrow> lock_step E now (todo, db, seen) (todo, sweep_at now i db, seen)"
| read_one: "reads_key cmd = Some k \<Longrightarrow> apply_cmd E (\<lambda>_. now) cmd db = (r, db') \<Longrightarrow>
    lock_step E now (todo, db, seen) (todo, db', seen @ [(cmd, r)])"

section \<open>What a section does\<close>

fun section_key :: "lock_section \<Rightarrow> bytes" where
  "section_key (DelKey k) = k"
| "section_key (SetKey k v) = k"

fun section_result :: "lock_section \<Rightarrow> entry option" where
  "section_result (DelKey k) = None"
| "section_result (SetKey k v) = Some (string_entry v None)"

definition after_sections :: "lock_section list \<Rightarrow> keyspace \<Rightarrow> keyspace" where
  "after_sections ss m = fold (\<lambda>s m. m(section_key s := section_result s)) ss m"

lemma run_section_view:
  assumes "db_wf h db"
  shows "db_wf h (run_section h now s db)"
    "db_live h now (run_section h now s db) = (db_live h now db)(section_key s := section_result s)"
proof -
  show "db_wf h (run_section h now s db)"
    using del.db_wf_with_shard [OF assms] mset.db_wf_with_shard [OF assms] by (cases s) auto
  show "db_live h now (run_section h now s db) = (db_live h now db)(section_key s := section_result s)"
  proof (cases s)
    case (DelKey k)
    then show ?thesis using del.refines [OF assms, of k now] by (simp add: at_key_def spec_del_def)
  next
    case (SetKey k v)
    then show ?thesis using mset.refines [OF assms, of k v now] by (simp add: at_key_def spec_mset_def)
  qed
qed

lemma after_sections_append: "after_sections (ss @ ts) m = after_sections ts (after_sections ss m)"
  by (simp add: after_sections_def)

lemma after_sections_other: "k \<notin> section_key ` set ss \<Longrightarrow> after_sections ss m k = m k"
  by (induction ss arbitrary: m) (auto simp: after_sections_def)

text \<open>With distinct keys, a key is at each moment as it was before or as it will be afterwards.\<close>

lemma after_sections_prefix:
  assumes "distinct (map section_key (ss @ ts))"
  shows "after_sections ss m k = m k \<or> after_sections ss m k = after_sections (ss @ ts) m k"
proof (cases "k \<in> section_key ` set ss")
  case True
  then have "k \<notin> section_key ` set ts" using assms by auto
  then show ?thesis by (simp add: after_sections_append after_sections_other)
next
  case False
  then show ?thesis by (simp add: after_sections_other)
qed

text \<open>The sections of a command, one after the other, are the command.\<close>

lemma run_del_sections:
  "fold (run_section h now) (map DelKey keys) db = snd (del_loop h (\<lambda>_. now) i n keys db)"
  by (induction keys arbitrary: db i n) (simp_all add: case_prod_beta Let_def)

lemma run_lock_sections:
  assumes "on_several_keys cmd"
  shows "fold (run_section (xxh E) now) (lock_sections cmd) db = snd (apply_cmd E (\<lambda>_. now) cmd db)"
proof (cases cmd)
  case (Del keys)
  then show ?thesis using run_del_sections [of "xxh E" now keys db 0 0] by (simp add: del_def case_prod_beta)
next
  case (MSet pairs)
  have "fold (run_section (xxh E) now) (map (\<lambda>(k, v). SetKey k v) pairs) db =
      fold (\<lambda>(k, v) db. snd (with_shard (xxh E) k (mset_key k v) db)) pairs db"
    by (induction pairs arbitrary: db) auto
  with MSet show ?thesis by (simp add: mset_cmd_def)
qed (use assms in \<open>simp_all add: on_several_keys_def\<close>)

lemma run_sections_view:
  assumes "db_wf h db"
  shows "db_wf h (fold (run_section h now) ss db) \<and>
    db_live h now (fold (run_section h now) ss db) = after_sections ss (db_live h now db)"
  using assms
proof (induction ss arbitrary: db)
  case (Cons s ss)
  from Cons.IH [OF run_section_view(1) [OF Cons.prems]] show ?case
    by (simp add: run_section_view(2) [OF Cons.prems] after_sections_def)
qed (simp add: after_sections_def)

lemma section_keys: "on_several_keys cmd \<Longrightarrow> distinct (mutated_keys cmd) \<Longrightarrow> distinct (map section_key (lock_sections cmd))"
  by (cases cmd) (auto simp: on_several_keys_def comp_def case_prod_beta)

section \<open>What does not show\<close>

lemma sweep_at_view:
  assumes "db_wf h db" "i < SHARDS"
  shows "db_wf h (sweep_at now i db)" "db_live h now (sweep_at now i db) = db_live h now db"
proof -
  have wf: "shard_wf (shards db ! i)" using assms by (simp add: db_wf_alt)
  note v = sweep_shard_view [OF wf, of now]
  show "db_wf h (sweep_at now i db)"
    using assms v by (auto simp: db_wf_alt sweep_at_def nth_list_update live_Some)
  show "db_live h now (sweep_at now i db) = db_live h now db"
    using assms v live_later [of now now]
    by (auto simp: db_live_def db_at_def shard_for_def sweep_at_def fun_eq_iff nth_list_update db_wf_length)
qed

lemma read_view:
  assumes "db_wf (xxh E) db" "reads_key cmd = Some k" "apply_cmd E (\<lambda>_. now) cmd db = (r, db')"
  shows "db_wf (xxh E) db'" "db_live (xxh E) now db' = db_live (xxh E) now db"
    "db_live (xxh E) now db k = m k \<Longrightarrow> Some r = fst (spec_apply (hash_iter E) now cmd m)"
proof -
  have w: "\<not> is_write cmd" using assms(2) by (cases cmd) auto
  have "shards db' = shards db" using read_keeps_shards [OF w, of E "\<lambda>_. now" db] assms(3) by simp
  then show "db_live (xxh E) now db' = db_live (xxh E) now db"
    by (simp add: db_live_def db_at_def shard_for_def fun_eq_iff)
  show "db_wf (xxh E) db'" using apply_keeps [OF assms(1), of cmd "\<lambda>_. now"] assms(3) by (simp add: keeps_def)
  assume "db_live (xxh E) now db k = m k"
  with apply_refines [OF assms(1), of now cmd] assms(2,3) show "Some r = fst (spec_apply (hash_iter E) now cmd m)"
    by (cases cmd) (auto simp: implements_def)
qed

section \<open>The invariant\<close>

text \<open>
  Some sections have been run and the others are to come, and every reply is that of the key space before the
  write or of that after it.
\<close>

definition lock_inv ::
  "('tx, 'rx) env \<Rightarrow> u128 \<Rightarrow> lock_section list \<Rightarrow> keyspace \<Rightarrow>
   lock_section list \<times> 'tx db \<times> (command \<times> frame) list \<Rightarrow> bool" where
  "lock_inv E now ss m st \<longleftrightarrow> (case st of (todo, db, seen) \<Rightarrow>
     db_wf (xxh E) db \<and> (\<exists>run. ss = run @ todo \<and> db_live (xxh E) now db = after_sections run m) \<and>
     list_all (\<lambda>(cmd, r). reads_key cmd \<noteq> None \<and> (Some r = fst (spec_apply (hash_iter E) now cmd m) \<or>
       Some r = fst (spec_apply (hash_iter E) now cmd (after_sections ss m)))) seen)"

lemma lock_step_inv:
  assumes "lock_step E now st st'" "distinct (map section_key ss)" "lock_inv E now ss m st"
  shows "lock_inv E now ss m st'"
  using assms
proof (induction rule: lock_step.induct)
  case (run_one s todo db seen)
  then obtain run where run: "ss = run @ s # todo" "db_live (xxh E) now db = after_sections run m" "db_wf (xxh E) db"
    by (auto simp: lock_inv_def)
  have "db_live (xxh E) now (run_section (xxh E) now s db) = after_sections (run @ [s]) m"
    using run_section_view(2) [OF run(3)] run(2) by (simp add: after_sections_def)
  moreover have "ss = (run @ [s]) @ todo" using run(1) by simp
  ultimately show ?case
    using run_one.prems(2) run_section_view(1) [OF run(3)] unfolding lock_inv_def by auto
next
  case (sweep_one i todo db seen)
  then show ?case using sweep_at_view [of "xxh E" db i now] by (auto simp: lock_inv_def)
next
  case (read_one cmd k db r db' todo seen)
  then obtain run where run: "ss = run @ todo" "db_live (xxh E) now db = after_sections run m" "db_wf (xxh E) db"
    by (auto simp: lock_inv_def)
  have "db_live (xxh E) now db k = m k \<or> db_live (xxh E) now db k = after_sections ss m k"
    using after_sections_prefix read_one.prems(1) unfolding run(1,2) by blast
  then have "Some r = fst (spec_apply (hash_iter E) now cmd m) \<or>
      Some r = fst (spec_apply (hash_iter E) now cmd (after_sections ss m))"
    using read_view(3) [OF run(3) read_one.hyps] by blast
  then show ?case
    using read_one.prems(2) read_one.hyps(1) read_view(1,2) [OF run(3) read_one.hyps] by (auto simp: lock_inv_def)
qed

lemma lock_steps_inv:
  assumes "(lock_step E now)\<^sup>*\<^sup>* st st'" "distinct (map section_key ss)" "lock_inv E now ss m st"
  shows "lock_inv E now ss m st'"
  using assms by (induction rule: rtranclp_induct) (auto intro: lock_step_inv)

text \<open>
  A write on several keys, with sweeps and reads of single keys in between: every reader gets a reply it would have
  got before the write or after it, and when all sections have been run the key space is that of the
  command in one piece.
\<close>

lemma lock_steps_result:
  assumes "db_wf (xxh E) db" "on_several_keys cmd" "distinct (mutated_keys cmd)"
    "(lock_step E now)\<^sup>*\<^sup>* (lock_sections cmd, db, []) (todo, db', seen)"
  shows "list_all (\<lambda>(c, r). r = fst (apply_cmd E (\<lambda>_. now) c db) \<or>
      r = fst (apply_cmd E (\<lambda>_. now) c (snd (apply_cmd E (\<lambda>_. now) cmd db)))) seen"
    "todo = [] \<Longrightarrow> db_live (xxh E) now db' = db_live (xxh E) now (snd (apply_cmd E (\<lambda>_. now) cmd db))"
proof -
  let ?m = "db_live (xxh E) now db" and ?db = "snd (apply_cmd E (\<lambda>_. now) cmd db)"
  have whole: "db_wf (xxh E) ?db" "db_live (xxh E) now ?db = after_sections (lock_sections cmd) ?m"
    using run_sections_view [OF assms(1), of now "lock_sections cmd"] run_lock_sections [OF assms(2), of E now db] by auto
  have "lock_inv E now (lock_sections cmd) ?m (lock_sections cmd, db, [])"
    using assms(1) by (simp add: lock_inv_def after_sections_def)
  then have inv: "lock_inv E now (lock_sections cmd) ?m (todo, db', seen)"
    by (rule lock_steps_inv [OF assms(4) section_keys [OF assms(2,3)]])
  then show "todo = [] \<Longrightarrow> db_live (xxh E) now db' = db_live (xxh E) now ?db"
    by (auto simp: lock_inv_def whole(2))
  have before: "Some r = fst (spec_apply (hash_iter E) now c (db_live (xxh E) now d)) \<Longrightarrow> reads_key c \<noteq> None \<Longrightarrow>
      db_wf (xxh E) d \<Longrightarrow> r = fst (apply_cmd E (\<lambda>_. now) c d)" for r c and d :: "'a db"
    using apply_refines [of E d now c] by (auto simp: implements_def)
  show "list_all (\<lambda>(c, r). r = fst (apply_cmd E (\<lambda>_. now) c db) \<or>
      r = fst (apply_cmd E (\<lambda>_. now) c ?db)) seen"
    using inv before [OF _ _ assms(1)] before [OF _ _ whole(1)] unfolding lock_inv_def whole(2)
    by (fastforce simp: list_all_iff)
qed

end
