(* ===== verification/Spec2Isabelle.thy ===== *)
theory Spec2Isabelle
  imports Service Locks
begin

text \<open>
  A verification of mini-redis-rs, a small Redis-compatible server: RESP over TCP, strings, lists and
  hashes with expiry, publish/subscribe, and an append-only file (AOF) with background rewriting.

  \<^bold>\<open>The program.\<close> A connection (\<^verbatim>\<open>connection.rs\<close>) reads frames (\<^verbatim>\<open>resp/\<close>), the
  handler (\<^verbatim>\<open>server.rs\<close>) turns each into a command (\<^verbatim>\<open>cmd/mod.rs\<close>) and executes it
  on the database (\<^verbatim>\<open>db/mod.rs\<close>, \<^verbatim>\<open>cmd/string.rs\<close>, \<^verbatim>\<open>cmd/list.rs\<close>,
  \<^verbatim>\<open>cmd/hash.rs\<close>), sixteen shards each with an index of deadlines that the sweeper
  (\<^verbatim>\<open>db/expire.rs\<close>) empties. A write is executed under the gate of the database, handed to the
  writer of the log (\<^verbatim>\<open>aof.rs\<close>) and rolled back when it cannot be logged. At the start the log
  is replayed; \<open>BGREWRITEAOF\<close> replaces it by an encoded snapshot while clients go on.

  \<^bold>\<open>The theories\<close>, each with the source it models:
  \<^item> \<open>Prelude\<close>, \<open>Text\<close>, \<open>Maps\<close>: results, words, numbers in decimal, and the two kinds of map of the Rust
    library, \<open>HashMap\<close> and \<open>BTreeMap\<close>, as lists of pairs. The locale \<open>keyed_map\<close> is their common contract.
  \<^item> \<open>Limits\<close>, \<open>Resp\<close>, \<open>Parser\<close>, \<open>Codec\<close>: \<^verbatim>\<open>limits.rs\<close> and \<^verbatim>\<open>resp/\<close>. The locale \<open>stream_codec\<close>
    derives the decoding of whole streams from laws on one frame, and \<open>Codec\<close> interprets it with
    \<open>encode\<close> and \<open>parse\<close>.
  \<^item> \<open>Shard\<close>, \<open>Db\<close>, \<open>Sweep\<close>, \<open>Snapshot\<close>, \<open>Pubsub\<close>: \<^verbatim>\<open>db/\<close>. The locales \<open>local_op\<close> (an operation that
    touches one key of a shard), \<open>key_op\<close> (that also implements a function on the live entry) and
    \<open>read_op\<close> (that changes nothing) lift from a shard to the database; every command on one key is an
    interpretation.
  \<^item> \<open>StringCmd\<close>, \<open>ListCmd\<close>, \<open>HashCmd\<close>: the commands of \<^verbatim>\<open>cmd/\<close>, each with its specification \<open>spec_\<close>.
  \<^item> \<open>Command\<close>, \<open>Request\<close>, \<open>Apply\<close>, \<open>Wire\<close>: \<^verbatim>\<open>cmd/mod.rs\<close>, that is \<open>from_frame\<close>, \<open>aof_frame\<close>, \<open>mutated_keys\<close> and
    \<open>apply\<close>; \<open>spec_apply\<close> is the specification of all commands on one map from keys to live entries.
  \<^item> \<open>Info\<close>, \<open>Server\<close>: the report of \<open>INFO\<close>, \<open>read_frame\<close>, \<open>write_frame\<close> and one round of \<open>handle\<close>.
  \<^item> \<open>Subscribed\<close>, \<open>Clients\<close>: the subscribed mode of a connection, the accept loop and the connection
    loop of \<^verbatim>\<open>server.rs\<close>.
  \<^item> \<open>Conversation\<close>: a whole connection, \<open>handle\<close> with \<open>run_subscribed\<close> inside it on the same buffer and socket.
    The reading of frames is an argument; the locale \<open>same_frames\<close> compares two readers, \<open>finite_input\<close> bounds
    what one yields, and both are interpreted with \<open>read_frame\<close>.
  \<^item> \<open>Replay\<close>, \<open>Recovery\<close>: \<open>replay\<close> of \<^verbatim>\<open>aof.rs\<close>, and a run of the server followed by it.
  \<^item> \<open>Rewrite\<close>, \<open>SnapshotFrames\<close>, \<open>Rebuild\<close>, \<open>Content\<close>: how a snapshot becomes commands, in pieces and in the
    plain form of \<open>aof_snapshot_frames\<close>, and what replaying them gives.
  \<^item> \<open>Writer\<close>, \<open>System\<close>: \<open>run_writer\<close> (its loop, and each message) with every answer of the file system, and
    the server as a step relation in which requests, sweeps, the fsync timer and the phases of a rewrite interleave, and in which
    the process may crash and start again (\<open>boot\<close>, from \<^verbatim>\<open>main.rs\<close>).
  \<^item> \<open>Compaction\<close>: \<open>rewrite_inner\<close> and \<open>rewrite_now\<close> run from begin to end, which are the steps of a
    rewrite in \<open>System\<close> when no other task comes in between.
  \<^item> \<open>Gate\<close>: the same server with the write of \<open>handle\<close> taken apart: it gets the gate (\<open>pause_writes\<close> of
    \<^verbatim>\<open>db/mod.rs\<close>), executes, waits for the log and is undone when the log refuses, while everything that
    does not need the gate goes on. Its invariant is that of \<open>System\<close> on the state without the write
    under way (\<open>settled_sys\<close>).
  \<^item> \<open>Network\<close>: the whole server of \<^verbatim>\<open>server.rs\<close>: the accept loop, and every client with its buffer, its socket
    and its subscribed mode, in front of \<open>System\<close>. A run of it is a run of \<open>System\<close> (\<open>network_runs\<close>), and its
    clients live as \<open>Clients\<close> says (\<open>network_lives\<close>).
  \<^item> \<open>Rereading\<close>, \<open>Startup\<close>: \<open>replay\<close> on a file that may hold anything, and read again after it was cut; the
    start of the server (\<open>replay\<close>, \<open>truncate_aof\<close>, \<open>spawn_writer\<close>, called by \<^verbatim>\<open>main.rs\<close>) with every
    answer of the file system.
  \<^item> \<open>Lengths\<close>: the encoder writes the shortest form of a frame that was read, so that a frame which has
    been accepted fits again when it is logged or sent on.
  \<^item> \<open>Locks\<close>: \<open>DEL\<close>, \<open>MSET\<close> and the sweep taken apart into what they do under one lock of a shard, as a step
    relation with the reads that come in between.
  \<^item> \<open>Sample\<close>: a concrete server for the witnesses. \<open>Durability\<close>, \<open>Sessions\<close>, \<open>Service\<close>, \<open>Codec\<close> and this theory hold the
    properties.

  \<^bold>\<open>State and time.\<close> Every operation is a function from the database to a reply and a database. The clock is
  a function from the number of the call to a reading, so that a command which reads it twice may see two
  times; properties of behaviour fix one instant, invariants hold for all clocks. Words have their
  width: deadlines are 128-bit, list indices and sizes in the log 64-bit, and the arithmetic checked where the
  source checks it. The shard hash, the iteration order of a \<open>HashMap\<close>, tokio's broadcast channel and the
  process number are arguments of the definitions.

  \<^bold>\<open>What is shown.\<close> The commands implement their specification and keep the invariant of the shards; the
  parser inverts the encoder on streams cut anywhere, and enforces the limits; a command that fails or
  cannot be logged changes nothing; the writer has what it acknowledged in the file, in order; what is logged has the effect of what was executed; what
  a crash leaves of the log is recovered, in every state that an admissible run of the server reaches, over crashes and restarts,
  during and after a rewrite, also one that fails, and whatever bytes the clients send: with the policy \<open>always\<close> to the
  live content, with \<open>everysec\<close> and \<open>no\<close> to the content after some of the logged writes, those that were
  synced among them;
  sweeps cannot be observed; pipelined requests are answered in order; a subscribed session delivers
  in order and cleans up; a whole connection does what its frames say, however they arrive, and ends when
  its bytes are finitely many; the receivers of a channel are the sessions subscribed to it, which is what
  \<open>PUBLISH\<close> answers; the limit on clients holds and no slot is lost; recovery is stable and survives failures of the file system; between the locks of a write on several
  keys a read of one key sees the state before or after it. Nine theorems show where the code falls
  short of this (the findings of the manifest).

  \<^bold>\<open>Crashes.\<close> A crash is the death of the process (the \<open>kill -9\<close> of \<^verbatim>\<open>README.md\<close>). Of the log it leaves
  a prefix, with perhaps the beginning of a frame that was being written, which has at least the bytes that were in the
  file at the last \<open>sync_data\<close> that succeeded (\<open>w_synced\<close> of the writer): \<open>write_all\<close> of a \<open>tokio::fs::File\<close>
  returns before the bytes have left the process. \<open>recovers\<close> says what recovery makes of it. What a process
  has found in the file when it started is not lost by its crash, and a \<open>rename\<close> that was made is not undone. That the
  timer of \<open>everysec\<close> ticks every second is not modelled, so that how many of the last writes may be lost is counted
  in syncs, not in time.

  \<^bold>\<open>Hypotheses.\<close> \<open>settled\<close>, \<open>recoverable\<close>, \<open>admissible\<close> and \<open>net_admissible\<close>: a deadline that is set does not pass between the command
  and the recovery, and the logged frame of a command with a deadline is within the parser's limit of 64 MiB
  (\<open>log_fits\<close>); both are needed, as
  \<open>recovery_can_resurrect_key\<close> and \<open>logged_frame_can_outgrow_parser\<close> show. Of every other write it is a theorem
  (\<open>logged_frame_reads_back\<close>), and of what a request is, only that it was read from the wire (\<open>wire_request\<close>). \<open>admissible\<close> also asks that the last
  two file operations of a finished rewrite succeed, which \<open>rollback_can_cut_log\<close> shows to be needed.
  \<open>rewritable\<close> and \<open>encodable\<close>: an entry of the snapshot is within the limits of the parser, needed by
  \<open>rewrite_can_outgrow_parser\<close>. \<open>broadcast_ok\<close>: what tokio documents of its channel.

  \<^bold>\<open>Termination.\<close> No definition uses fuel: the parser recurs on the bytes that are left, \<open>read_frame\<close> and
  \<open>replay\<close> on the pieces to come, the binary search on its interval. The loops that serve clients run for
  the events or turns they are given.

  \<^bold>\<open>Not modelled.\<close> The scheduler of tokio and the timers behind the timeouts (a timeout is an event); a
  write to a client in normal mode that fails, which would end the connection, is not an event, so that \<open>handle_loop\<close>
  and \<open>handle_conn\<close> go on with what the client has sent; commands under the gate are one step in \<open>System\<close> and
  \<open>Gate\<close>, their sections are in \<open>Locks\<close>; in \<open>Network\<close> a round of \<open>handle\<close> or of \<open>run_subscribed\<close> is one step, and
  what a receiver yields is given, not tied to what was sent; of \<^verbatim>\<open>main.rs\<close> the parsing of the
  arguments and the sockets; \<open>run_with_options\<close>, which waits for the accept loop or the shutdown signal.
\<close>

section \<open>The command interpreter\<close>

text \<open>
  C1. Every command, executed on the sharded database at one instant, gives the reply and the key space
  that the specification \<open>spec_apply\<close> gives on a plain map from keys to live entries: the sixteen
  shards, the stale entries that are still stored, and the expiry index cannot be observed. The hash
  function that selects the shard is arbitrary.
\<close>

theorem command_refinement:
  assumes "db_wf (xxh E) db"
  shows "db_live (xxh E) now (snd (apply_cmd E (\<lambda>_. now) cmd db)) =
           snd (spec_apply (hash_iter E) now cmd (db_live (xxh E) now db)) \<and>
         fst (spec_apply (hash_iter E) now cmd (db_live (xxh E) now db)) \<in>
           {None, Some (fst (apply_cmd E (\<lambda>_. now) cmd db))}"
  using apply_refines [OF assms, of now cmd] by (auto simp: implements_def)

theorem command_refinement_witness:
  "db_live (xxh sample_env) 10 (snd (apply_cmd sample_env (\<lambda>_. 10) (Incr ''n'') sample_db)) ''n'' =
     Some (string_entry ''42'' (Some 100))"
  using command_refinement [OF sample_db_wf, of 10 "Incr ''n''"]
  by (simp add: sample_live reply_def at_key_def spec_incr_def sample_numbers in_i64_def i64_min_def
      i64_max_def del: apply_cmd.simps)

text \<open>
  C2. Whatever the clock reads at each of its calls (also when it runs backwards), a command keeps the
  invariant of the database (every key in its shard, the expiry index listing exactly the entries
  with a deadline, each once) and changes no entry but those of the keys it declares to mutate.
\<close>

theorem command_keeps_invariant:
  assumes "db_wf (xxh E) db"
  shows "db_wf (xxh E) (snd (apply_cmd E c cmd db)) \<and>
    (\<forall>k. db_at (xxh E) (snd (apply_cmd E c cmd db)) k = db_at (xxh E) db k \<or> k \<in> set (mutated_keys cmd))"
  using apply_keeps [OF assms, of cmd c] by (auto simp: keeps_def)

theorem command_keeps_invariant_witness:
  "db_at (xxh sample_env) (snd (apply_cmd sample_env (\<lambda>i. 10 - of_nat i) (Del [''n'', ''h'']) sample_db)) ''list'' =
     db_at (xxh sample_env) sample_db ''list''"
  using command_keeps_invariant [OF sample_db_wf, of "\<lambda>i. 10 - of_nat i" "Del [''n'', ''h'']"] by auto

text \<open>
  A command that is not classified as a write leaves every shard untouched, so that it needs neither
  a log entry nor a rollback.
\<close>

theorem reads_change_nothing:
  assumes "\<not> is_write cmd"
  shows "shards (snd (apply_cmd E c cmd db)) = shards db \<and> aof_frame now cmd = None \<and> mutated_keys cmd = []"
proof -
  have "mutated_keys cmd = []" using assms by (cases cmd) auto
  moreover have "aof_frame now cmd = None" using assms aof_frame_is_write by blast
  ultimately show ?thesis using read_keeps_shards [OF assms] by blast
qed

theorem reads_change_nothing_witness:
  "shards (snd (apply_cmd sample_env (\<lambda>_. 500) (Publish ''ch'' ''m'') sample_db)) = shards sample_db"
  using reads_change_nothing [of "Publish ''ch'' ''m''" sample_env "\<lambda>_. 500" sample_db] by simp

text \<open>
  C15. A command that came over the wire and answers with an error has not changed the live key space.
  The server does not log such a command, so this is what keeps the log and the memory together.
\<close>

theorem error_changes_nothing:
  assumes "db_wf (xxh E) db" "parse buf = Inr (Some f, rest)" "from_frame t f = Inr cmd"
    "fst (apply_cmd E (\<lambda>_. now) cmd db) = Error msg"
  shows "db_live (xxh E) now (snd (apply_cmd E (\<lambda>_. now) cmd db)) = db_live (xxh E) now db"
proof -
  have "append_fits cmd"
    by (rule from_frame_append_fits [OF assms(3) request_wf [OF assms(2,3)]])
  then show ?thesis using error_keeps_live assms(1,4) by blast
qed

theorem error_changes_nothing_witness:
  "db_live (xxh sample_env) 10 (snd (apply_cmd sample_env (\<lambda>_. 10) (Incr ''list'') sample_db)) =
     db_live (xxh sample_env) 10 sample_db"
proof (rule error_changes_nothing [OF sample_db_wf])
  let ?f = "Array [Bulk ''INCR'', Bulk ''list'']"
  show "parse (encode ?f @ []) = Inr (Some ?f, [])" by (rule parse_encode) (simp add: eval_limits)
  show "from_frame 0 ?f = Inr (Incr ''list'')" by (simp add: logged_frames)
  show "fst (apply_cmd sample_env (\<lambda>_. 10) (Incr ''list'') sample_db) =
      Error (case WRONGTYPE of Error m \<Rightarrow> m)"
    by (rule sample_reply) (simp add: sample_live reply_def at_key_def spec_incr_def WRONGTYPE_def)
qed

text \<open>
  C16. The values in the key space keep their form: no command that was accepted leaves an empty list or
  hash behind, a hash with a field twice, or a string too large to be sent back.
\<close>

theorem stored_values_wf:
  assumes "db_wf (xxh E) db" "keyspace_ok (db_live (xxh E) now db)" "from_frame t f = Inr cmd"
  shows "keyspace_ok (db_live (xxh E) now (snd (apply_cmd E (\<lambda>_. now) cmd db)))"
  using spec_apply_keyspace_ok [OF assms(2) from_frame_wf [OF assms(3)]] apply_refines [OF assms(1), of now cmd]
  by (simp add: implements_def del: apply_cmd.simps)

theorem stored_values_wf_witness:
  "keyspace_ok (db_live (xxh sample_env) 10 (snd (apply_cmd sample_env (\<lambda>_. 10) (Incr ''n'') sample_db)))"
proof (rule stored_values_wf [OF sample_db_wf])
  show "keyspace_ok (db_live (xxh sample_env) 10 sample_db)"
    by (auto simp: keyspace_ok_def sample_live stored_ok_def eval_limits)
  show "from_frame 0 (Array [Bulk ''INCR'', Bulk ''n'']) = Inr (Incr ''n'')" by (simp add: logged_frames)
qed

text \<open>
  C11. The rollback of a write whose logging failed: restoring the snapshot taken before the command gives
  back every entry, with its deadline, and the invariant.
\<close>

theorem rollback_undoes_command:
  assumes "db_wf (xxh E) db"
  shows "db_at (xxh E) (restore_entries (xxh E) (snapshot_entries (xxh E) (mutated_keys cmd) db)
            (snd (apply_cmd E c cmd db))) = db_at (xxh E) db \<and>
         db_wf (xxh E) (restore_entries (xxh E) (snapshot_entries (xxh E) (mutated_keys cmd) db)
            (snd (apply_cmd E c cmd db)))"
  using rollback_restores [OF assms apply_keeps [OF assms]] by blast

theorem rollback_undoes_command_witness:
  "db_at (xxh sample_env) (restore_entries (xxh sample_env)
      (snapshot_entries (xxh sample_env) [''n'', ''n'', ''x''] sample_db)
      (snd (apply_cmd sample_env (\<lambda>_. 10) (Del [''n'', ''n'', ''x'']) sample_db))) =
   db_at (xxh sample_env) sample_db"
  using rollback_undoes_command [OF sample_db_wf, of "Del [''n'', ''n'', ''x'']" "\<lambda>_. 10"]
  by (simp del: apply_cmd.simps)

section \<open>Expiry\<close>

text \<open>
  C12. The background sweeper cannot be observed: however often it has swept, the last time at \<open>now\<close>, every
  later command sees the same key space, the invariant holds, and no entry that was due at \<open>now\<close> is left
  in memory.
\<close>

theorem sweep_invisible:
  assumes "db_wf h db" "list_all (\<lambda>t. t \<le> later) ticks" "now \<le> later"
  shows "db_live h later (run_sweeper (ticks @ [now]) db) = db_live h later db \<and>
    db_wf h (run_sweeper (ticks @ [now]) db) \<and>
    (\<forall>k e. db_at h (run_sweeper (ticks @ [now]) db) k = Some e \<longrightarrow> \<not> entry_expired now e)"
proof -
  note v = run_sweeper_view [OF assms(1,2)]
  show ?thesis
    using db_wf_sweep [OF v(1)] db_at_sweep [OF v(1)] live_later [OF assms(3)] v(2)
    by (auto simp: run_sweeper_append db_live_def fun_eq_iff live_Some)
qed

theorem sweep_invisible_witness:
  "db_live (xxh sample_env) 300 (run_sweeper [50, 200] sample_db) = db_live (xxh sample_env) 300 sample_db"
  using sweep_invisible [OF sample_db_wf, of 300 "[50]" 200] by simp

section \<open>Between the locks\<close>

text \<open>
  C18. \<open>DEL\<close> and \<open>MSET\<close> lock the shard of one key after the other, and reads and sweeps come in between. Still,
  when the keys of the command are distinct, every read of a single key gets the reply it would have got
  right before the write or right after it, and when the last lock is released the key space is as if the write
  had run in one piece. With a key given twice this is false: between the locks of \<open>MSET a 1 a 2\<close> a \<open>GET a\<close>
  answers \<open>1\<close>.
\<close>

theorem writes_appear_atomic_to_single_key_reads:
  assumes "db_wf (xxh E) db" "on_several_keys cmd" "distinct (mutated_keys cmd)"
    "(lock_step E now)\<^sup>*\<^sup>* (lock_sections cmd, db, []) (todo, db', seen)"
  shows "list_all (\<lambda>(c, r). r = fst (apply_cmd E (\<lambda>_. now) c db) \<or>
      r = fst (apply_cmd E (\<lambda>_. now) c (snd (apply_cmd E (\<lambda>_. now) cmd db)))) seen \<and>
    (todo = [] \<longrightarrow> db_live (xxh E) now db' = db_live (xxh E) now (snd (apply_cmd E (\<lambda>_. now) cmd db)))"
  using lock_steps_result [OF assms] by blast

definition half_mset :: "nat db" where
  "half_mset = run_section (xxh sample_env) 10 (SetKey ''a'' ''1'') new_db"

lemma half_mset_reached:
  "(lock_step sample_env 10)\<^sup>*\<^sup>* (lock_sections (MSet [(''a'', ''1''), (''b'', ''1'')]), new_db, [])
     ([SetKey ''b'' ''1''], half_mset, [])"
proof -
  have "lock_sections (MSet [(''a'', ''1''), (''b'', ''1'')]) = [SetKey ''a'' ''1'', SetKey ''b'' ''1'']"
    by (simp add: eval_limits)
  with lock_step.run_one [of sample_env 10 "SetKey ''a'' ''1''" "[SetKey ''b'' ''1'']" new_db "[]"] show ?thesis
    unfolding half_mset_def by (metis r_into_rtranclp)
qed

theorem writes_appear_atomic_to_single_key_reads_witness:
  "\<exists>r. (lock_step sample_env 10)\<^sup>*\<^sup>* (lock_sections (MSet [(''a'', ''1''), (''b'', ''1'')]), new_db, [])
      ([SetKey ''b'' ''1''], half_mset, [(Get ''b'', r)]) \<and> (r = Null \<or> r = Bulk ''1'')"
proof -
  let ?E = sample_env and ?cmd = "MSet [(''a'', ''1''), (''b'', ''1'')]" and ?db = "new_db :: nat db"
  obtain r where r: "apply_cmd ?E (\<lambda>_. 10) (Get ''b'') half_mset = (r, half_mset)" by simp
  have "lock_step ?E 10 ([SetKey ''b'' ''1''], half_mset, []) ([SetKey ''b'' ''1''], half_mset, [] @ [(Get ''b'', r)])"
    by (rule lock_step.read_one [OF _ r]) simp
  with half_mset_reached have steps: "(lock_step ?E 10)\<^sup>*\<^sup>* (lock_sections ?cmd, ?db, [])
      ([SetKey ''b'' ''1''], half_mset, [(Get ''b'', r)])" by (simp add: rtranclp.rtrancl_into_rtrancl)
  have before: "fst (apply_cmd ?E (\<lambda>_. 10) (Get ''b'') ?db) = Null"
    using apply_refines [OF db_wf_new, of ?E 10 "Get ''b''"] by (simp add: implements_def db_live_new spec_get_def)
  have "db_wf (xxh ?E) (snd (apply_cmd ?E (\<lambda>_. 10) ?cmd ?db))"
    using apply_keeps [OF db_wf_new, of ?E ?cmd "\<lambda>_. 10"] by (simp add: keeps_def)
  from apply_refines [OF this, of 10 "Get ''b''"]
  have "fst (apply_cmd ?E (\<lambda>_. 10) (Get ''b'') (snd (apply_cmd ?E (\<lambda>_. 10) ?cmd ?db))) = Bulk ''1''"
    using apply_refines [OF db_wf_new, of ?E 10 ?cmd]
    by (simp add: implements_def db_live_new spec_get_def eval_limits del: apply_cmd.simps)
  with before show ?thesis
    using steps writes_appear_atomic_to_single_key_reads [OF db_wf_new _ _ steps]
    by (auto simp: on_several_keys_def simp del: apply_cmd.simps)
qed

text \<open>
  C39. A read of several keys is not protected in the same way: between the locks of an \<open>MSET\<close> an \<open>MGET\<close> of its keys
  sees one new and one old value, a reply that it could give neither before nor after the \<open>MSET\<close>.
\<close>

theorem mget_sees_half_an_mset:
  "(lock_step sample_env 10)\<^sup>*\<^sup>* (lock_sections (MSet [(''a'', ''1''), (''b'', ''1'')]), new_db, [])
      ([SetKey ''b'' ''1''], half_mset, []) \<and>
    fst (apply_cmd sample_env (\<lambda>_. 10) (MGet [''a'', ''b'']) half_mset) = Array [Bulk ''1'', Null] \<and>
    fst (apply_cmd sample_env (\<lambda>_. 10) (MGet [''a'', ''b'']) (new_db :: nat db)) = Array [Null, Null] \<and>
    fst (apply_cmd sample_env (\<lambda>_. 10) (MGet [''a'', ''b'']) (snd (apply_cmd sample_env (\<lambda>_. 10)
      (MSet [(''a'', ''1''), (''b'', ''1'')]) new_db))) = Array [Bulk ''1'', Bulk ''1'']"
proof -
  let ?E = sample_env and ?cmd = "MSet [(''a'', ''1''), (''b'', ''1'')]" and ?db = "new_db :: nat db"
  have "list_all (\<lambda>f. length (encode f) \<le> 100) [Array [Bulk ''1'', Null], Array [Null, Null], Array [Bulk ''1'', Bulk ''1'']]"
    by code_simp
  then have small: "fits_response (Array [Bulk ''1'', Null])" "fits_response (Array [Null, Null])"
      "fits_response (Array [Bulk ''1'', Bulk ''1''])"
    by (simp_all add: fits_response_def MAX_RESPONSE_FRAME_BYTES_def del: encode.simps)
  have get: "fst (apply_cmd ?E (\<lambda>_. 10) (MGet [''a'', ''b'']) db) =
      or_too_large (Array (map (spec_mget (db_live (xxh ?E) 10 db)) [''a'', ''b'']))" if "db_wf (xxh ?E) db" for db :: "nat db"
    using apply_refines [OF that, of 10 "MGet [''a'', ''b'']"] by (simp add: implements_def)
  have half: "db_wf (xxh ?E) half_mset" "db_live (xxh ?E) 10 half_mset = [''a'' \<mapsto> string_entry ''1'' None]"
    using run_section_view [OF db_wf_new, of "xxh ?E" 10 "SetKey ''a'' ''1''"] by (simp_all add: half_mset_def db_live_new)
  have full: "db_wf (xxh ?E) (snd (apply_cmd ?E (\<lambda>_. 10) ?cmd ?db))"
      "db_live (xxh ?E) 10 (snd (apply_cmd ?E (\<lambda>_. 10) ?cmd ?db)) =
        [''b'' \<mapsto> string_entry ''1'' None, ''a'' \<mapsto> string_entry ''1'' None]"
    using apply_keeps [OF db_wf_new, of ?E ?cmd "\<lambda>_. 10"] apply_refines [OF db_wf_new, of ?E 10 ?cmd]
    by (simp_all add: keeps_def implements_def db_live_new eval_limits fun_upd_twist del: apply_cmd.simps)
  show ?thesis
    using half_mset_reached small
    by (simp add: get [OF half(1)] get [OF full(1)] get [OF db_wf_new] half(2) full(2) db_live_new spec_mget_def
        or_too_large_def del: apply_cmd.simps)
qed

section \<open>Snapshots and statistics\<close>

text \<open>
  The snapshot an AOF rewrite starts from is the live key space, each key once, in ascending order;
  it is determined by the live key space alone, not by the shards, the iteration order of the hash
  maps or stale entries.
\<close>

theorem snapshot_is_live_keyspace:
  assumes "db_wf h db"
  shows "map_of (aof_snapshot_entries now db) = db_live h now db \<and>
    distinct (map fst (aof_snapshot_entries now db)) \<and>
    sorted (map fst (aof_snapshot_entries now db)) \<and>
    (\<forall>db'. db_wf h db' \<and> db_live h now db' = db_live h now db \<longrightarrow>
       aof_snapshot_entries now db' = aof_snapshot_entries now db)"
proof -
  have "sorted (map fst (aof_snapshot_entries now db))"
    by (simp add: aof_snapshot_entries_def)
  then show ?thesis
    using assms map_of_aof_snapshot distinct_snapshot aof_snapshot_order by blast
qed

theorem snapshot_is_live_keyspace_witness:
  "map_of (aof_snapshot_entries 10 sample_db) ''n'' = Some (string_entry ''41'' (Some 100))"
  unfolding snapshot_is_live_keyspace [OF sample_db_wf, THEN conjunct1] by (simp add: sample_live)

text \<open>
  The number of keys that \<open>INFO\<close> reports is the number of live keys, with expired entries that
  are still in memory left out.
\<close>

theorem stats_count_live_keys:
  assumes "db_wf h db"
  shows "st_keys (stats now db) = card (dom (db_live h now db))"
  using assms by (rule stats_keys)

theorem stats_count_live_keys_witness: "st_keys (stats 10 sample_db) = 3"
proof -
  have "dom (db_live (xxh sample_env) 10 sample_db) = {''n'', ''list'', ''h''}"
    unfolding sample_live by auto
  then show ?thesis using stats_count_live_keys [OF sample_db_wf, of 10] by simp
qed

section \<open>Requests and the log\<close>

text \<open>
  C28. Every frame the parser returns is within the limits: at most 128 levels of nesting, at most
  \<open>2 ^ 20\<close> items per array, and bulk strings that fit a response, for RESP and inline requests.
\<close>

theorem parser_enforces_limits:
  assumes "parse buf = Inr (Some f, rest)"
  shows "frame_bounded 0 f"
  using assms by (rule parse_bounded)

theorem parser_enforces_limits_witness:
  "frame_bounded 0 (Array [Bulk ''PING''])"
proof (rule parser_enforces_limits)
  show "parse (encode (Array [Bulk ''PING'']) @ ''xyz'') = Inr (Some (Array [Bulk ''PING'']), ''xyz'')"
    by (rule parse_encode) (simp add: eval_limits)
qed

text \<open>
  C10. The frame that is logged for a write that arrived over the wire is read back from the log as itself and
  parsed to a command that does the same, under two conditions: the logged frame is at most 64 MiB long
  (\<open>MAX_BUFFERED_FRAME_BYTES\<close>; \<open>logged_frame_can_outgrow_parser\<close> shows that an accepted \<open>SET\<close> can be logged in a
  longer one), and the deadline of a \<open>SET\<close>, if there is one, fits an \<open>i64\<close> of milliseconds or the log is
  read at the time at which it was written (\<open>exact_deadline\<close>; a larger one is logged as a relative \<open>PX\<close>, as the
  README says).
\<close>

theorem logged_command_survives:
  assumes "parse buf = Inr (Some f, rest)" "from_frame now f = Inr cmd" "aof_frame now cmd = Some g"
    "length (encode g) \<le> MAX_BUFFERED_FRAME_BYTES" "unat now' + unat MAX_EXPIRE_AT_MS < 2 ^ 128"
    "exact_deadline now now' cmd"
  shows "parse (encode g @ tail) = Inr (Some g, tail) \<and>
    (\<exists>cmd'. from_frame now' g = Inr cmd' \<and> apply_cmd E c cmd' db = apply_cmd E c cmd db)"
proof -
  have "wire_frame g"
    by (rule logged_wire_frame [OF assms(2) request_wf [OF assms(1,2)] assms(3,4)])
  moreover have "from_frame now' g = Inr (read_back now now' cmd)"
    by (rule read_back_ok [OF from_frame_wf [OF assms(2)] assms(3,5)])
  ultimately show ?thesis using parse_encode read_back_apply [OF assms(6)] by blast
qed

lemma sample_expire:
  "from_frame 10 (Array [Bulk ''EXPIRE'', Bulk ''n'', Bulk ''1'']) = Inr (Expire ''n'' 1010)"
proof -
  have "is_command_name ''EXPIRE''"
    by (simp add: is_command_name_def to_ascii_uppercase_def to_upper_def byte_in_def)
  moreover have "show_i64 1 = ''1''" by code_simp
  then have "parse_i64 ''1'' = Inr 1" using parse_i64_show [of 1] by simp
  moreover have "expire_relative_deadline 10 1 False ''EXPIRE'' = Inr 1010"
    by (simp add: expire_relative_deadline_def relative_deadline_def duration_millis_def u128_of_i64_def
        checked_mul_u128_def checked_add_u128_def ok_or_def MILLIS_PER_SECOND_def MAX_EXPIRE_AT_MS_def)
  ultimately show ?thesis
    by (simp add: from_frame_words parse_command_def parse_expire_def)
qed

theorem logged_command_survives_witness:
  "\<exists>cmd'. from_frame 900 (Array [Bulk ''PEXPIREAT'', Bulk ''n'', Bulk ''1010'']) = Inr cmd' \<and>
     apply_cmd sample_env (\<lambda>_. 10) cmd' sample_db = apply_cmd sample_env (\<lambda>_. 10) (Expire ''n'' 1010) sample_db"
proof -
  let ?f = "Array [Bulk ''EXPIRE'', Bulk ''n'', Bulk ''1'']"
  have "parse (encode ?f @ []) = Inr (Some ?f, [])" by (rule parse_encode) (simp add: eval_limits)
  moreover have "from_frame 10 ?f = Inr (Expire ''n'' 1010)" by (rule sample_expire)
  moreover have "aof_frame 10 (Expire ''n'' 1010) = Some (Array [Bulk ''PEXPIREAT'', Bulk ''n'', Bulk ''1010''])"
    by code_simp
  ultimately show ?thesis
    using logged_command_survives [of "encode ?f @ []" ?f "[]" 10 "Expire ''n'' 1010" _ 900 _ sample_env
        "\<lambda>_. 10" sample_db]
    by (simp add: eval_limits unat_max_expire del: apply_cmd.simps)
qed

text \<open>
  C29. Every command the server accepts is well-formed: lists of keys, values and pairs are not empty,
  a pop count is an \<open>i64\<close>, a \<open>SET\<close> deadline is positive, and the deadline of \<open>EXPIRE\<close> and its
  variants is at most the largest \<open>i64\<close>, so that the log can carry it.
\<close>

theorem accepted_commands_wf:
  assumes "from_frame now f = Inr cmd"
  shows "command_wf cmd"
  using assms by (rule from_frame_wf)

theorem accepted_commands_wf_witness: "aof_deadline 1010"
  using accepted_commands_wf [OF sample_expire] by simp

text \<open>
  C32. The size condition on the logged frame is needed: there is a \<open>SET\<close> with a relative expiry that the server
  accepts and acknowledges, whose logged form, with the absolute deadline, is longer than the parser's
  limit. Reading the log back stops there with a protocol error, and replay cuts the log off.
\<close>

theorem logged_frame_can_outgrow_parser:
  "\<exists>f cmd g msg. wire_frame f \<and> from_frame 1700000000000 f = Inr cmd \<and> fst (apply_cmd E c cmd db) = OK \<and>
     aof_frame 1700000000000 cmd = Some g \<and> parse (encode g) = Inl (Protocol msg)"
proof -
  obtain v :: bytes where v: "length v = 67108816" using Ex_list_of_length by blast
  let ?f = "Array [Bulk ''SET'', Bulk ''k'', Bulk v, Bulk ''EX'', Bulk ''1'']"
  let ?g = "Array [Bulk ''SET'', Bulk ''k'', Bulk v, Bulk ''PXAT'', Bulk ''1700000001000'']"
  let ?cmd = "Set ''k'' v (Some 1700000001000)"
  have "show_i64 1 = ''1''" by code_simp
  then have one: "parse_i64 ''1'' = Inr 1" using parse_i64_show [of 1] by simp
  have d: "set_relative_deadline 1700000000000 1 False ''SET'' = Inr 1700000001000"
    by (simp add: set_relative_deadline_def duration_millis_def u128_of_i64_def
        checked_mul_u128_def checked_add_u128_def ok_or_def MILLIS_PER_SECOND_def MAX_EXPIRE_AT_MS_def)
  have ex: "utf8_valid ''EX''" "to_ascii_uppercase ''EX'' = ''EX''"
    by (simp_all add: to_ascii_uppercase_def to_upper_def byte_in_def)
  have "parse_set_options 1700000000000 ''SET'' None False [''EX'', ''1''] = Inr (Some 1700000001000)"
    using one d ex by (simp add: Let_def del: utf8_valid.simps)
  then have from_f: "from_frame 1700000000000 ?f = Inr ?cmd"
    using from_frame_words(6) [of "''SET''" _ "''k''" v "[''EX'', ''1'']"]
    by (simp add: parse_command_writes parse_set_def del: utf8_valid.simps)
  have "digit_char 0 = CHR ''0''" "digit_char (Suc 0) = CHR ''1''" "digit_char 7 = CHR ''7''" by code_simp+
  then have "show_u128 1700000001000 = ''1700000001000''" by (simp add: show_u128_def show_nat.simps)
  then have g: "aof_frame 1700000000000 ?cmd = Some ?g"
    by (simp add: push_set_expiry_def bulk_string_u128_def MAX_EXPIRE_AT_MS_def)
  have fits: "bulk_response_fits (length v)" by (simp add: v eval_limits)
  have wf: "frame_wf 0 ?g" using fits by (simp add: parser_limits) (simp add: eval_limits)
  have "wire_frame ?f" by (simp add: v eval_limits)
  moreover have "fst (apply_cmd E c ?cmd db) = OK"
    using fits by (simp add: set_at_def with_shard_fst set_at_in_def)
  moreover have "length (encode ?g) > MAX_BUFFERED_FRAME_BYTES" by (simp add: v eval_limits)
  then have "\<exists>msg. parse (encode ?g) = Inl (Protocol msg)"
    using parse_frame_encode [OF wf, of "[]"] encode_hd [of ?g]
    by (simp add: parse.simps [of "encode ?g"] Let_def del: encode.simps)
  ultimately show ?thesis using from_f g by blast
qed

section \<open>Strings and deadlines\<close>

text \<open>
  Only commands with a deadline can outgrow the limit: for every other write that came over the wire
  (from \<open>DEL\<close> to \<open>HINCRBY\<close>, and \<open>SET\<close> without expiry) the logged frame is within the parser's limit, however
  the client spelled the request, and it reads back.
\<close>

theorem logged_frame_reads_back:
  assumes "parse buf = Inr (Some f, r)" "from_frame now f = Inr cmd" "keeps_length cmd" "aof_frame built cmd = Some g"
  shows "wire_frame g \<and> parse (encode g @ x) = Inr (Some g, x)"
  using logged_wire_frame [OF assms(2) request_wf [OF assms(1,2)] assms(4) logged_frame_within [OF assms]] parse_encode
  by blast

theorem logged_frame_reads_back_witness:
  "parse (encode (Array [Bulk ''INCR'', Bulk ''n'']) @ ''+'') = Inr (Some (Array [Bulk ''INCR'', Bulk ''n'']), ''+'')"
proof -
  let ?f = "Array [Bulk ''incr'', Bulk ''n'']"
  have "from_frame 10 ?f = Inr (Incr ''n'')" by code_simp
  moreover have "parse (encode ?f @ []) = Inr (Some ?f, [])" by (rule parse_encode) (simp add: eval_limits)
  moreover have "aof_frame 10 (Incr ''n'') = Some (Array [Bulk ''INCR'', Bulk ''n''])" by (simp add: command_one_def)
  ultimately show ?thesis using logged_frame_reads_back by (simp del: encode.simps)
qed

text \<open>
  \<open>SET\<close> then \<open>GET\<close>: until the deadline the value comes back unchanged, from the deadline on the key
  is missing, and every other key reads as before.
\<close>

theorem set_then_get:
  assumes "db_wf h db" "bulk_response_fits (length val)"
  shows "get h (\<lambda>_. later) key (snd (set_at h k val exp db)) =
    (if key \<noteq> k then get h (\<lambda>_. later) key db
     else case exp of Some d \<Rightarrow> if d \<le> later then Null else Bulk val | None \<Rightarrow> Bulk val)"
proof -
  let ?db = "snd (with_shard h k (set_at_in k val exp) db)"
  have "at_key k (spec_set later val exp) (db_live h later db) =
      (fst (with_shard h k (set_at_in k val exp) db), db_live h later ?db)"
    by (rule set_at.refines [OF assms(1)])
  then have l: "db_live h later ?db = (db_live h later db)(k := live later (Some (string_entry val exp)))"
    by (simp add: at_key_def spec_set_def)
  have wf: "db_wf h ?db" using assms(1) by (rule set_at.db_wf_with_shard)
  show ?thesis
    using assms(2) get.read_refines [OF wf, of later key] get.read_refines [OF assms(1), of later key]
    by (auto simp: set_at_def get_def l spec_get_def live_def entry_expired_def split: option.splits)
qed

theorem set_then_get_witness:
  "get (xxh sample_env) (\<lambda>_. 20) ''x'' (snd (set_at (xxh sample_env) ''x'' ''v'' (Some 50) sample_db)) = Bulk ''v''"
  using set_then_get [OF sample_db_wf, of "''v''" 20 "''x''" "''x''" "Some 50"] by (simp add: eval_limits)

text \<open>
  C33. \<open>INCR\<close>, \<open>INCRBY\<close> and their relatives compute on integers: the reply and the stored decimal are the
  exact sum when it is an \<open>i64\<close>, and otherwise the answer is an error and nothing changes. The
  deadline of the key is kept.
\<close>

theorem incr_exact:
  assumes "db_wf h db" "db_live h now db k = Some e" "evalue e = VString b" "parse_i64_bytes b = Some n"
  shows "\<exists>db'. incr h (\<lambda>_. now) k delta db =
      (if in_i64 (sint n + sint delta) then (Integer (word_of_int (sint n + sint delta)), db')
       else (OVERFLOW, db')) \<and>
    db_live h now db' = (db_live h now db)(k \<mapsto>
      if in_i64 (sint n + sint delta)
      then e\<lparr>evalue := VString (show_int (sint n + sint delta))\<rparr> else e)"
proof -
  have sum: "in_i64 (sint n + sint delta) \<Longrightarrow> show_i64 (n + delta) = show_int (sint n + sint delta)"
    using checked_add_i64_Some [of n delta "n + delta"] by (simp add: show_i64_def checked_add_i64_def)
  have "at_key k (spec_incr delta) (db_live h now db) =
      (fst (incr h (\<lambda>_. now) k delta db), db_live h now (snd (incr h (\<lambda>_. now) k delta db)))"
    unfolding incr_def by (rule incr.refines [OF assms(1)])
  then show ?thesis
    using assms(2-4) sum
    by (intro exI [of _ "snd (incr h (\<lambda>_. now) k delta db)"])
       (auto simp: at_key_def spec_incr_def prod_eq_iff fun_upd_idem)
qed

theorem incr_exact_witness:
  "fst (incr (xxh sample_env) (\<lambda>_. 10) ''n'' 1 sample_db) = Integer 42"
proof -
  have "db_live (xxh sample_env) 10 sample_db ''n'' = Some (string_entry ''41'' (Some 100))"
    by (simp add: sample_live)
  from incr_exact [OF sample_db_wf this _ sample_numbers(1), of 1] show ?thesis
    by (auto simp: in_i64_def i64_min_def i64_max_def)
qed

text \<open>
  \<open>EXPIRE\<close> then \<open>PTTL\<close>: a live key that is given a deadline in the future reports exactly the
  milliseconds left (saturated at the largest \<open>i64\<close>) and disappears at the deadline.
\<close>

theorem expire_then_ttl:
  assumes "db_wf h db" "db_live h now db k \<noteq> None" "now < d" "now \<le> later"
  shows "ttl h (\<lambda>_. later) k True (snd (expire_at h (\<lambda>_. now) k d db)) =
    Integer (if later < d then word_of_nat (min (unat d - unat later) (2 ^ 63 - 1)) else -2)"
proof -
  let ?db = "snd (with_shard h k (expire_at_in (\<lambda>_. now) k d) db)"
  obtain e where e: "db_live h now db k = Some e" using assms(2) by blast
  have wf: "db_wf h ?db" using assms(1) by (rule expire_at_local.db_wf_with_shard)
  have "at_key k (spec_expire_at now d) (db_live h now db) =
      (fst (with_shard h k (expire_at_in (\<lambda>_. now) k d) db), db_live h now ?db)"
    by (rule expire_at.refines [OF assms(1)])
  then have "db_live h now ?db = (db_live h now db)(k \<mapsto> e\<lparr>expires_at := Some d\<rparr>)"
    using e assms(3) by (auto simp: at_key_def spec_expire_at_def split: if_splits)
  then have "db_live h now ?db k = Some (e\<lparr>expires_at := Some d\<rparr>)" by simp
  then have "db_live h later ?db k = (if later < d then Some (e\<lparr>expires_at := Some d\<rparr>) else None)"
    by (auto simp: db_live_def live_def entry_expired_def split: option.splits if_splits)
  then show ?thesis
    using ttl.read_refines [OF wf, of later k True]
    by (simp add: ttl_def expire_at_def spec_ttl_def)
qed

theorem expire_then_ttl_witness:
  "ttl (xxh sample_env) (\<lambda>_. 25) ''list'' True
     (snd (expire_at (xxh sample_env) (\<lambda>_. 10) ''list'' 40 sample_db)) = Integer 15"
  using expire_then_ttl [OF sample_db_wf, of 10 "''list''" 40 25] by (simp add: sample_live)

section \<open>Lists and hashes\<close>

text \<open>
  C34. \<open>LRANGE\<close> returns the slice between two positions, negative ones counting from the end and both
  clipped to the list, or the size error when the reply would exceed the output limit. The signed
  64-bit index arithmetic of the source never overflows on a list whose length is an \<open>i64\<close>.
\<close>

theorem lrange_is_slice:
  assumes "db_wf h db" "db_live h now db k = Some e" "evalue e = VList l" "length l < 2 ^ 63"
  shows "lrange h (\<lambda>_. now) k start stop db =
    or_too_large (Array (map Bulk (list_slice (sint start) (sint stop) l)))"
  using lrange.read_refines [OF assms(1), of now k start stop] lrange_list_eq [OF assms(4)] assms(2,3)
  by (simp add: lrange_def spec_lrange_def)

theorem lrange_is_slice_witness:
  "lrange (xxh sample_env) (\<lambda>_. 10) ''list'' (-2) (-1) sample_db = Array [Bulk ''b'', Bulk ''c'']"
proof -
  have "db_live (xxh sample_env) 10 sample_db ''list'' = Some (list_entry [''a'', ''b'', ''c''] None)"
    by (simp add: sample_live)
  from lrange_is_slice [OF sample_db_wf this, of "[''a'', ''b'', ''c'']" "-2" "-1"] show ?thesis
    by (simp add: list_slice_def list_position_def or_too_large_def fits_response_def eval_limits)
qed

lemma pop_front:
  assumes "l \<noteq> []" "0 < n" "fits_response (Array (map Bulk (take n l)))"
  shows "spec_pop (Some n) LeftSide (Some (e\<lparr>evalue := VList l\<rparr>)) =
    (Array (map Bulk (take n l)), if length l \<le> n then None else Some (e\<lparr>evalue := VList (drop n l)\<rparr>))"
  using assms by (cases "length l \<le> n") (auto simp: spec_pop_def popped_def unpopped_def min_def)

text \<open>
  A list is a queue: values pushed on the right come out on the left, behind what was there, in the
  order they were pushed; a pop takes as many as there are, and the last one removes the key.
\<close>

theorem push_then_pop:
  assumes "db_wf h db" "db_live h now db k = Some e" "evalue e = VList l" "l @ vs \<noteq> []" "0 < n"
    "fits_response (Array (map Bulk (take n (l @ vs))))"
  shows "\<exists>db'. lpop h (\<lambda>_. now) k (Some n) (snd (rpush h (\<lambda>_. now) k vs db)) =
      (Array (map Bulk (take n (l @ vs))), db') \<and>
    db_live h now db' = (db_live h now db)
      (k := if length (l @ vs) \<le> n then None else Some (e\<lparr>evalue := VList (drop n (l @ vs))\<rparr>))"
proof -
  let ?db = "snd (with_shard h k (push_in now k vs RightSide) db)"
  let ?p = "with_shard h k (pop_in now k (Some n) LeftSide) ?db"
  have wf: "db_wf h ?db" using assms(1) by (rule push.db_wf_with_shard)
  have l1: "db_live h now ?db = (db_live h now db)(k \<mapsto> e\<lparr>evalue := VList (l @ vs)\<rparr>)"
    using push.refines [OF assms(1), of k vs RightSide now] assms(2,3)
    by (simp add: at_key_def spec_push_def Let_def)
  have "at_key k (spec_pop (Some n) LeftSide) (db_live h now ?db) = (fst ?p, db_live h now (snd ?p))"
    by (rule pop.refines [OF wf])
  moreover have "spec_pop (Some n) LeftSide (Some (e\<lparr>evalue := VList (l @ vs)\<rparr>)) =
      (Array (map Bulk (take n (l @ vs))),
       if length (l @ vs) \<le> n then None else Some (e\<lparr>evalue := VList (drop n (l @ vs))\<rparr>))"
    using pop_front [OF assms(4-6)] by simp
  ultimately show ?thesis
    by (intro exI [of _ "snd ?p"])
       (simp add: l1 at_key_def lpop_def rpush_def push_def pop_def prod_eq_iff)
qed

theorem push_then_pop_witness:
  "fst (lpop (xxh sample_env) (\<lambda>_. 10) ''list'' (Some 4) (snd (rpush (xxh sample_env) (\<lambda>_. 10) ''list'' [''d'', ''e''] sample_db)))
   = Array [Bulk ''a'', Bulk ''b'', Bulk ''c'', Bulk ''d'']"
proof -
  have "db_live (xxh sample_env) 10 sample_db ''list'' = Some (list_entry [''a'', ''b'', ''c''] None)"
    by (simp add: sample_live)
  from push_then_pop [OF sample_db_wf this, of "[''a'', ''b'', ''c'']" "[''d'', ''e'']" 4] show ?thesis
    by (auto simp: fits_response_def eval_limits)
qed

text \<open>
  \<open>HSET\<close> overrides the fields of a hash, the last pair for a field winning, and answers with the
  number of fields that are new; \<open>HGET\<close> then reads the overridden map.
\<close>

theorem hset_then_hget:
  assumes "db_wf h db" "db_live h now db k = Some e" "evalue e = VHash m"
  shows "fst (hset h (\<lambda>_. now) k pairs db) =
      Integer (i64_of_usize (card (fst ` set pairs - dom (hm_get m)))) \<and>
    hget h (\<lambda>_. now) k f (snd (hset h (\<lambda>_. now) k pairs db)) =
      (case (hm_get m ++ map_of (rev pairs)) f of Some v \<Rightarrow> Bulk v | None \<Rightarrow> Null)"
proof -
  let ?p = "with_shard h k (hset_in now k pairs) db"
  let ?m = "fold (\<lambda>(f, v). hm_insert f v) pairs m"
  have wf: "db_wf h (snd ?p)" using assms(1) by (rule hset.db_wf_with_shard)
  have "at_key k (spec_hset pairs) (db_live h now db) = (fst ?p, db_live h now (snd ?p))"
    by (rule hset.refines [OF assms(1)])
  moreover have "spec_hset pairs (Some e) =
      (Integer (i64_of_usize (card (fst ` set pairs - dom (hm_get m)))), Some (e\<lparr>evalue := VHash ?m\<rparr>))"
    using assms(3) by (simp add: spec_hset_def hset_pairs_eq)
  ultimately have "fst ?p = Integer (i64_of_usize (card (fst ` set pairs - dom (hm_get m))))"
    "db_live h now (snd ?p) = (db_live h now db)(k \<mapsto> e\<lparr>evalue := VHash ?m\<rparr>)"
    using assms(2) by (simp_all add: at_key_def)
  then have p: "fst ?p = Integer (i64_of_usize (card (fst ` set pairs - dom (hm_get m))))"
    "db_live h now (snd ?p) k = Some (e\<lparr>evalue := VHash ?m\<rparr>)" by simp_all
  show ?thesis
    using p hget.read_refines [OF wf, of now k f] hm_get_inserts [of pairs m]
    by (simp add: hset_def hget_def spec_hash_def)
qed

theorem hset_then_hget_witness:
  "hget (xxh sample_env) (\<lambda>_. 10) ''h'' ''f''
     (snd (hset (xxh sample_env) (\<lambda>_. 10) ''h'' [(''f'', ''2''), (''g'', ''3''), (''f'', ''4'')] sample_db)) = Bulk ''4''"
proof -
  have "db_live (xxh sample_env) 10 sample_db ''h'' = Some (hash_entry [(''f'', ''1'')] None)"
    by (simp add: sample_live)
  from hset_then_hget [OF sample_db_wf this, of "[(''f'', ''1'')]" "[(''f'', ''2''), (''g'', ''3''), (''f'', ''4'')]" "''f''"]
  show ?thesis by simp
qed

section \<open>Publish and subscribe\<close>

text \<open>
  With tokio's channels as documented, a publication is counted once per receiver of its channel,
  a subscription adds one receiver to its channel and to no other, neither touches the key space, and
  channels without receivers do not accumulate in the table.
\<close>

theorem pubsub_delivery:
  assumes "broadcast_ok B" "no_orphans B db"
  shows "fst (pubsub_publish B ch msg (snd (pubsub_subscribe B ch' db))) =
      subscribers B db ch + (if ch = ch' then 1 else 0) \<and>
    no_orphans B (snd (pubsub_publish B ch msg (snd (pubsub_subscribe B ch' db)))) \<and>
    no_orphans B (pubsub_gc B ch db) \<and>
    shards (snd (pubsub_publish B ch msg (snd (pubsub_subscribe B ch' db)))) = shards db"
proof -
  have "no_orphans B (snd (pubsub_subscribe B ch' db))" by (rule no_orphans_steps [OF assms])
  then show ?thesis
    using no_orphans_steps [OF assms(1)] assms
    by (simp add: publish_reaches subscribers_subscribe)
qed

theorem pubsub_delivery_witness:
  "fst (pubsub_publish counting_broadcast ''c'' ''m'' (snd (pubsub_subscribe counting_broadcast ''c'' sample_db))) = 1"
proof -
  have p: "pubsub sample_db = []"
    by (simp add: sample_db_def sample_step_def set_at_def rpush_def push_def hset_def with_shard_pubsub new_db_def)
  then have "no_orphans counting_broadcast sample_db" by (simp add: no_orphans_def)
  from pubsub_delivery [OF broadcast_ok_counting this, of "''c''" "''m''" "''c''"] p show ?thesis
    by (simp add: subscribers_def)
qed

end
